(* ===== verification/Prelude.thy ===== *)
theory Prelude
  imports Main "HOL-Library.Word" "HOL-Library.Signed_Division" "HOL-Library.Monad_Syntax"
begin

text \<open>
  Shared vocabulary of the development: the Rust machine integer types as words, the
  arithmetic of the Rust standard library the sources call on them (checked, saturating
  and truncating operations), the result and failure conventions, and the generic lemmas
  on lists and options that the component theories use.

  Conventions.
  \<^item> An unsigned or signed Rust integer of width \<open>w\<close> is a \<open>w word\<close>. A signed value is
    read with \<open>sint\<close>, an unsigned one with \<open>uint\<close> or \<open>unat\<close>; an \<open>as\<close> cast between
    \<open>u64\<close> and \<open>i64\<close> keeps the word. \<open>+\<close>, \<open>-\<close> and \<open>*\<close> on words wrap, which is what the
    release profile of the workspace does (its Cargo.toml leaves overflow checks off).
  \<^item> An \<open>i128\<close> intermediate is an \<open>int\<close>: the products the sources form from two 64-bit
    factors stay below \<open>2 ^ 127\<close> in absolute value.
  \<^item> \<open>usize\<close> values that index or count elements are \<open>nat\<close>.
  \<^item> A Rust panic (an index out of range, a missing slot-map key, a failed \<open>expect\<close>) and
    a loop that does not return are the value \<open>None\<close> of an option type.
  \<^item> \<open>debug_assert\<close> has no effect in the release profile and is not modelled.
\<close>

named_theorems rust_arith "unfolding rules of the Rust integer operations"
named_theorems side_simps "case distinctions on the two sides of a book"

type_synonym u8 = "8 word"
type_synonym u16 = "16 word"
type_synonym u32 = "32 word"
type_synonym u64 = "64 word"
type_synonym i64 = "64 word"
type_synonym byte = "8 word"

subsection \<open>Rust integer operations\<close>

abbreviation i64_min :: int where
  "i64_min \<equiv> - (2 ^ 63)"

abbreviation i64_max :: int where
  "i64_max \<equiv> 2 ^ 63 - 1"

definition in_i64 :: "int \<Rightarrow> bool" where
  [rust_arith]: "in_i64 x \<longleftrightarrow> i64_min \<le> x \<and> x \<le> i64_max"

definition i64_of :: "int \<Rightarrow> i64" where
  [rust_arith]: "i64_of x = word_of_int x"

definition i64_sat :: "int \<Rightarrow> i64" where
  [rust_arith]: "i64_sat x = i64_of (if x < i64_min then i64_min else if i64_max < x then i64_max else x)"

definition i64_checked_add :: "i64 \<Rightarrow> i64 \<Rightarrow> i64 option" where
  [rust_arith]: "i64_checked_add a b =
     (if in_i64 (sint a + sint b) then Some (a + b) else None)"

definition i64_checked_sub :: "i64 \<Rightarrow> i64 \<Rightarrow> i64 option" where
  [rust_arith]: "i64_checked_sub a b =
     (if in_i64 (sint a - sint b) then Some (a - b) else None)"

definition i64_saturating_add :: "i64 \<Rightarrow> i64 \<Rightarrow> i64" where
  [rust_arith]: "i64_saturating_add a b = i64_sat (sint a + sint b)"

definition i64_saturating_sub :: "i64 \<Rightarrow> i64 \<Rightarrow> i64" where
  [rust_arith]: "i64_saturating_sub a b = i64_sat (sint a - sint b)"

definition i64_saturating_mul :: "i64 \<Rightarrow> i64 \<Rightarrow> i64" where
  [rust_arith]: "i64_saturating_mul a b = i64_sat (sint a * sint b)"

text \<open>\<open>/\<close> on signed integers rounds towards zero.\<close>

definition i64_div :: "i64 \<Rightarrow> i64 \<Rightarrow> i64" where
  [rust_arith]: "i64_div a b = i64_of (sint a sdiv sint b)"

definition u64_saturating_sub :: "u64 \<Rightarrow> u64 \<Rightarrow> u64" where
  [rust_arith]: "u64_saturating_sub a b = (if a < b then 0 else a - b)"

definition u64_checked_sub :: "u64 \<Rightarrow> u64 \<Rightarrow> u64 option" where
  [rust_arith]: "u64_checked_sub a b = (if a < b then None else Some (a - b))"

definition u64_checked_add :: "u64 \<Rightarrow> u64 \<Rightarrow> u64 option" where
  [rust_arith]: "u64_checked_add a b =
     (if uint a + uint b < 2 ^ 64 then Some (a + b) else None)"

lemma sint_in_i64 [simp]: "in_i64 (sint (a :: i64))"
  using sint_ge [of a] sint_lt [of a] by (simp add: in_i64_def)

lemma sint_i64_of: "in_i64 x \<Longrightarrow> sint (i64_of x) = x"
  by (simp add: i64_of_def in_i64_def sint_sbintrunc' signed_take_bit_int_eq_self)

lemma i64_of_sint [simp]: "i64_of (sint a) = a"
  by (simp add: i64_of_def)

lemma in_i64_sat: "in_i64 (if x < i64_min then i64_min else if i64_max < x then i64_max else x)"
  by (auto simp: in_i64_def)

lemma sint_i64_sat:
  "sint (i64_sat x) = (if x < i64_min then i64_min else if i64_max < x then i64_max else x)"
  unfolding i64_sat_def by (rule sint_i64_of [OF in_i64_sat])

lemma sint_i64_sat_exact: "in_i64 x \<Longrightarrow> sint (i64_sat x) = x"
  by (auto simp: sint_i64_sat in_i64_def)

lemma i64_add_eq: "(a :: i64) + b = i64_of (sint a + sint b)"
  by (simp add: i64_of_def)

lemma i64_sub_eq: "(a :: i64) - b = i64_of (sint a - sint b)"
  by (simp add: i64_of_def)

lemma uint_eq_sint_mod: "uint (d :: i64) = sint d mod 2 ^ 64"
  using uint_sint [of d] by (simp add: take_bit_eq_mod)

lemma uint_sint_nonneg: "0 \<le> sint (d :: i64) \<Longrightarrow> uint d = sint d"
  using sint_lt [of d] by (simp add: uint_eq_sint_mod)

lemma i64_checked_sub_Some:
  "i64_checked_sub a b = Some d \<Longrightarrow> sint d = sint a - sint b"
  by (auto simp: i64_checked_sub_def i64_sub_eq sint_i64_of split: if_splits)

lemma i64_checked_add_Some:
  "i64_checked_add a b = Some d \<Longrightarrow> sint d = sint a + sint b"
  by (auto simp: i64_checked_add_def i64_add_eq sint_i64_of split: if_splits)

lemma word_nat_small: "n < 2 ^ 64 \<Longrightarrow> unat (of_nat n :: u64) = n"
  by (simp add: unsigned_of_nat take_bit_nat_eq_self)

lemma unat_lt64: "unat (w :: u64) < 2 ^ 64"
  using unsigned_less [of w] by simp

subsection \<open>Indexing\<close>

text \<open>Indexing a vector or a slice panics out of range: \<open>None\<close>.\<close>

definition list_get :: "'a list \<Rightarrow> nat \<Rightarrow> 'a option" where
  "list_get xs i = (if i < length xs then Some (xs ! i) else None)"

lemma list_get_Some [simp]: "i < length xs \<Longrightarrow> list_get xs i = Some (xs ! i)"
  by (simp add: list_get_def)

lemma list_get_None [simp]: "length xs \<le> i \<Longrightarrow> list_get xs i = None"
  by (simp add: list_get_def)

lemma list_get_eq_Some: "list_get xs i = Some x \<longleftrightarrow> i < length xs \<and> xs ! i = x"
  by (simp add: list_get_def)

end
