(* ===== verification/Core_Types.thy ===== *)
theory Core_Types
  imports Prelude
begin

text \<open>
  The domain types of the crate \<open>core-types\<close>: sides, identifiers, prices, quantities,
  order status, commands, events, and the conversions between the wire-level commands and
  the sequencer-internal ones.

  The transparent newtypes (\<open>OrderId\<close>, \<open>AccountId\<close>, \<open>Price\<close>, \<open>Qty\<close> and so on) are the
  words they wrap.
\<close>

subsection \<open>Identifiers, prices and quantities\<close>

type_synonym order_id = u64
type_synonym account_id = u64
type_synonym instrument_id = u64
type_synonym client_order_id = u64
type_synonym symbol = u16
type_synonym price = i64
type_synonym qty = u64

datatype symbol_range_error = SymbolRangeError instrument_id

definition symbol_try_from :: "instrument_id \<Rightarrow> symbol_range_error + symbol" where
  "symbol_try_from i =
     (if uint i < 2 ^ 16 then Inr (ucast i) else Inl (SymbolRangeError i))"

text \<open>\<open>SequenceNo\<close> wraps a \<open>NonZeroU64\<close>. Its field is private: outside the crate a value
  comes from \<open>FIRST\<close>, from \<open>new\<close>, which refuses zero, or from \<open>next\<close>, which panics when the
  increment wraps to zero.\<close>

datatype sequence_no = SequenceNo (seq_get: u64)

definition seq_first :: sequence_no where
  "seq_first = SequenceNo 1"

definition seq_new :: "u64 \<Rightarrow> sequence_no option" where
  "seq_new v = (if v = 0 then None else Some (SequenceNo v))"

definition seq_next :: "sequence_no \<Rightarrow> sequence_no option" where
  "seq_next s = seq_new (seq_get s + 1)"

definition price_checked_add :: "price \<Rightarrow> price \<Rightarrow> price option" where
  "price_checked_add a b = i64_checked_add a b"

definition price_checked_sub :: "price \<Rightarrow> price \<Rightarrow> price option" where
  "price_checked_sub a b = i64_checked_sub a b"

definition price_is_positive :: "price \<Rightarrow> bool" where
  "price_is_positive p \<longleftrightarrow> 0 < sint p"

definition qty_is_zero :: "qty \<Rightarrow> bool" where
  "qty_is_zero q \<longleftrightarrow> q = 0"

definition qty_saturating_sub :: "qty \<Rightarrow> qty \<Rightarrow> qty" where
  "qty_saturating_sub a b = u64_saturating_sub a b"

definition qty_checked_sub :: "qty \<Rightarrow> qty \<Rightarrow> qty option" where
  "qty_checked_sub a b = u64_checked_sub a b"

definition qty_checked_add :: "qty \<Rightarrow> qty \<Rightarrow> qty option" where
  "qty_checked_add a b = u64_checked_add a b"

definition qty_min :: "qty \<Rightarrow> qty \<Rightarrow> qty" where
  "qty_min a b = (if a < b then a else b)"

subsection \<open>Sides\<close>

datatype side = Buy | Sell

fun opposite :: "side \<Rightarrow> side" where
  "opposite Buy = Sell"
| "opposite Sell = Buy"

fun side_sign :: "side \<Rightarrow> i64" where
  "side_sign Buy = 1"
| "side_sign Sell = -1"

definition is_buy :: "side \<Rightarrow> bool" where
  "is_buy s \<longleftrightarrow> s = Buy"

definition is_sell :: "side \<Rightarrow> bool" where
  "is_sell s \<longleftrightarrow> s = Sell"

lemma opposite_opposite [simp, side_simps]: "opposite (opposite s) = s"
  by (cases s) simp_all

lemma opposite_neq [simp, side_simps]: "opposite s \<noteq> s" "s \<noteq> opposite s"
  by (cases s; simp)+

lemma neq_side_iff [side_simps]: "s \<noteq> t \<longleftrightarrow> s = opposite t"
  by (cases s; cases t) simp_all

subsection \<open>Order status\<close>

datatype order_status = Pending | Addressed | Unaddressed | FinallyHandled

fun status_to_u8 :: "order_status \<Rightarrow> u8" where
  "status_to_u8 Pending = 0"
| "status_to_u8 Addressed = 1"
| "status_to_u8 Unaddressed = 2"
| "status_to_u8 FinallyHandled = 3"

definition status_from_u8 :: "u8 \<Rightarrow> order_status option" where
  "status_from_u8 v =
     (if v = 0 then Some Pending
      else if v = 1 then Some Addressed
      else if v = 2 then Some Unaddressed
      else if v = 3 then Some FinallyHandled
      else None)"

fun is_terminal :: "order_status \<Rightarrow> bool" where
  "is_terminal Addressed = True"
| "is_terminal FinallyHandled = True"
| "is_terminal _ = False"

fun is_pending :: "order_status \<Rightarrow> bool" where
  "is_pending Pending = True"
| "is_pending _ = False"

lemma status_u8_roundtrip [simp]: "status_from_u8 (status_to_u8 s) = Some s"
  by (cases s) (simp_all add: status_from_u8_def)

lemma status_from_u8_Some: "status_from_u8 v = Some s \<longleftrightarrow> v = status_to_u8 s"
  by (cases s) (auto simp: status_from_u8_def split: if_splits)

subsection \<open>Commands\<close>

datatype time_in_force = Gtc | Ioc | Fok

datatype order_type = Limit | Market

record new_order =
  no_account_id :: account_id
  no_instrument_id :: instrument_id
  no_client_order_id :: client_order_id
  no_side :: side
  no_price :: price
  no_order_type :: order_type
  no_qty :: qty
  no_time_in_force :: time_in_force

record cancel_order =
  co_account_id :: account_id
  co_instrument_id :: instrument_id
  co_order_id :: order_id

record modify_order =
  mo_account_id :: account_id
  mo_instrument_id :: instrument_id
  mo_order_id :: order_id
  mo_new_qty :: qty
  mo_new_price :: "price option"

datatype command =
    CmdNew new_order
  | CmdCancel cancel_order
  | CmdModify modify_order
  | CmdHalt instrument_id
  | CmdResume instrument_id

fun command_instrument_id :: "command \<Rightarrow> instrument_id option" where
  "command_instrument_id (CmdNew n) = Some (no_instrument_id n)"
| "command_instrument_id (CmdCancel c) = Some (co_instrument_id c)"
| "command_instrument_id (CmdModify m) = Some (mo_instrument_id m)"
| "command_instrument_id (CmdHalt i) = Some i"
| "command_instrument_id (CmdResume i) = Some i"

fun command_account_id :: "command \<Rightarrow> account_id option" where
  "command_account_id (CmdNew n) = Some (no_account_id n)"
| "command_account_id (CmdCancel c) = Some (co_account_id c)"
| "command_account_id (CmdModify m) = Some (mo_account_id m)"
| "command_account_id (CmdHalt _) = None"
| "command_account_id (CmdResume _) = None"

text \<open>The engine-internal commands. The fields of \<open>NewOrder\<close> are, in order: account, client
  order id, symbol, side, price, quantity, order type, time in force.\<close>

datatype inbound_command =
    NewOrder account_id client_order_id symbol side price qty order_type time_in_force
  | Cancel account_id order_id
  | Liquidate symbol account_id
  | FreezeAccount account_id

datatype command_conversion_error =
    ModifyNotSupported
  | AdminCommandNotQueued
  | SymbolOutOfRange symbol_range_error

fun inbound_try_from :: "command \<Rightarrow> command_conversion_error + inbound_command" where
  "inbound_try_from (CmdNew n) =
     (case symbol_try_from (no_instrument_id n) of
        Inl e \<Rightarrow> Inl (SymbolOutOfRange e)
      | Inr sy \<Rightarrow> Inr (NewOrder (no_account_id n) (no_client_order_id n) sy (no_side n)
                       (no_price n) (no_qty n) (no_order_type n) (no_time_in_force n)))"
| "inbound_try_from (CmdCancel c) = Inr (Cancel (co_account_id c) (co_order_id c))"
| "inbound_try_from (CmdModify _) = Inl ModifyNotSupported"
| "inbound_try_from (CmdHalt _) = Inl AdminCommandNotQueued"
| "inbound_try_from (CmdResume _) = Inl AdminCommandNotQueued"

record sequenced_command =
  sc_term :: u64
  sc_seq :: u64
  sc_ts_ns :: u64
  sc_cmd :: inbound_command

definition order_key :: "sequenced_command \<Rightarrow> u64 \<times> u64" where
  "order_key sc = (sc_term sc, sc_seq sc)"

subsection \<open>Events\<close>

datatype cancel_reason =
    UserRequested
  | TimeInForceExpired
  | CancelRiskLimitBreach
  | CancelInstrumentHalted

datatype reject_reason =
    RiskLimitBreach
  | InstrumentHalted
  | InvalidPrice
  | InvalidQuantity
  | InvalidQty
  | UnknownInstrument
  | UnknownOrder
  | PriceOutOfRange
  | IocNoMatch
  | ArenaFull
  | OrderNotFound
  | WrongAccount
  | FokNotFullyFillable
  | UnsupportedOrderType

record fill =
  fl_instrument_id :: instrument_id
  fl_aggressor_order_id :: order_id
  fl_aggressor_account_id :: account_id
  fl_aggressor_side :: side
  fl_resting_order_id :: order_id
  fl_resting_account_id :: account_id
  fl_price :: price
  fl_qty :: qty
  fl_resting_remaining_qty :: qty
  fl_aggressor_remaining_qty :: qty

text \<open>The gateway-facing events.\<close>

datatype event =
    EvAccepted sequence_no instrument_id order_id account_id client_order_id side price qty
  | EvFilled sequence_no fill
  | EvCanceled sequence_no instrument_id order_id account_id cancel_reason qty
  | EvRejected sequence_no account_id client_order_id reject_reason
  | EvModified sequence_no instrument_id order_id account_id qty "price option"
  | EvInstrumentHalted sequence_no instrument_id
  | EvInstrumentResumed sequence_no instrument_id

fun event_seq :: "event \<Rightarrow> sequence_no" where
  "event_seq (EvAccepted s _ _ _ _ _ _ _) = s"
| "event_seq (EvFilled s _) = s"
| "event_seq (EvCanceled s _ _ _ _ _) = s"
| "event_seq (EvRejected s _ _ _) = s"
| "event_seq (EvModified s _ _ _ _ _) = s"
| "event_seq (EvInstrumentHalted s _) = s"
| "event_seq (EvInstrumentResumed s _) = s"

text \<open>One trade, with the fields of \<open>EngineEvent::Trade\<close> (the source carries the maker and
  taker order ids twice).\<close>

record trade =
  tr_seq :: u64
  tr_ts_ns :: u64
  tr_symbol :: symbol
  tr_price :: price
  tr_qty :: qty
  tr_maker_order :: order_id
  tr_taker_order :: order_id
  tr_maker_order_id :: order_id
  tr_taker_order_id :: order_id
  tr_maker_acct :: account_id
  tr_taker_acct :: account_id
  tr_maker_side :: side
  tr_maker_remaining_qty :: qty
  tr_taker_remaining_qty :: qty

text \<open>The engine-internal events. \<open>Accepted\<close> carries seq, order id, timestamp, symbol,
  account, client order id, side, price and quantity; \<open>Rejected\<close> seq, order id, account,
  client order id and reason; \<open>BookTop\<close> seq, symbol, best bid and best ask.\<close>

datatype engine_event =
    Trade trade
  | Accepted u64 order_id u64 symbol account_id client_order_id side price qty
  | Rejected u64 order_id account_id client_order_id reject_reason
  | Cancelled u64 order_id
  | BookTop u64 symbol "price option" "price option"
  | OrderAcknowledged order_id account_id u64
  | OrderCancelled order_id account_id u64 symbol
  | OrderRejected order_id account_id reject_reason u64 symbol
  | SnapshotMarker u64

subsection \<open>Facts about the conversions\<close>

lemma seq_new_None [simp]: "seq_new v = None \<longleftrightarrow> v = 0"
  by (simp add: seq_new_def)

lemma seq_new_Some: "seq_new v = Some s \<longleftrightarrow> v \<noteq> 0 \<and> s = SequenceNo v"
  by (auto simp: seq_new_def)

lemma symbol_try_from_Inr:
  "symbol_try_from i = Inr s \<longleftrightarrow> uint i < 2 ^ 16 \<and> s = ucast i"
  by (auto simp: symbol_try_from_def)

end
