(* ===== verification/Slot_Map.thy ===== *)
theory Slot_Map
  imports Core_Types
begin

text \<open>
  The interface of the generational arena. The order book keeps its resting orders in a
  \<open>SlotMap\<close> of the crate \<open>slotmap\<close>, which is not part of the repository, so the operations
  the book calls are a parameter of the model: a record of functions that every operation
  of the book takes as an argument. What the book relies on is the locale \<open>slot_map\<close>: its
  assumptions are the documented behaviour of \<open>insert\<close>, \<open>get\<close>, \<open>IndexMut\<close>, \<open>remove\<close>,
  \<open>values\<close>, \<open>len\<close> and \<open>capacity\<close>.

  The end of the theory interprets the locale on a slot map in the shape the crate
  documents (a vector of versioned slots and a list of vacant ones), so that the
  properties of the book can be applied to concrete books.
\<close>

record ('k, 'v, 's) slotmap_ops =
  sm_with_capacity :: "nat \<Rightarrow> 's"
  sm_insert :: "'s \<Rightarrow> 'v \<Rightarrow> 'k \<times> 's"
  sm_get :: "'s \<Rightarrow> 'k \<Rightarrow> 'v option"
  sm_set :: "'s \<Rightarrow> 'k \<Rightarrow> 'v \<Rightarrow> 's"
  sm_remove :: "'s \<Rightarrow> 'k \<Rightarrow> 'v option \<times> 's"
  sm_values :: "'s \<Rightarrow> 'v list"
  sm_len :: "'s \<Rightarrow> nat"
  sm_capacity :: "'s \<Rightarrow> nat"

text \<open>
  \<open>sm_inv\<close> is whatever the arena keeps true of its own representation. \<open>insert\<close> returns a
  key that no live element has; \<open>values\<close> visits every live element once, in no particular
  order; the capacity changes only when an insertion finds the arena full.
\<close>

locale slot_map =
  fixes sm :: "('k, 'v, 's) slotmap_ops"
    and sm_inv :: "'s \<Rightarrow> bool"
  assumes sm_new: "sm_inv (sm_with_capacity sm c)" "sm_get sm (sm_with_capacity sm c) k = None"
    and sm_insert: "sm_inv s \<Longrightarrow> sm_insert sm s v = (k, s') \<Longrightarrow>
      sm_inv s' \<and> sm_get sm s k = None \<and> sm_get sm s' = (sm_get sm s)(k \<mapsto> v)"
    and sm_set: "sm_inv s \<Longrightarrow> sm_get sm s k \<noteq> None \<Longrightarrow>
      sm_inv (sm_set sm s k v) \<and> sm_get sm (sm_set sm s k v) = (sm_get sm s)(k \<mapsto> v)"
    and sm_remove: "sm_inv s \<Longrightarrow> sm_remove sm s k = (r, s') \<Longrightarrow>
      sm_inv s' \<and> r = sm_get sm s k \<and> sm_get sm s' = (sm_get sm s)(k := None)"
    and sm_values: "sm_inv s \<Longrightarrow>
      \<exists>ks. distinct ks \<and> set ks = dom (sm_get sm s) \<and> sm_values sm s = map (the \<circ> sm_get sm s) ks"
    and sm_len: "sm_inv s \<Longrightarrow> sm_len sm s = card (dom (sm_get sm s))"
    and sm_capacity: "c \<le> sm_capacity sm (sm_with_capacity sm c)"
      "sm_inv s \<Longrightarrow> sm_len sm s < sm_capacity sm s \<Longrightarrow> sm_insert sm s v = (k, s') \<Longrightarrow>
        sm_capacity sm s' = sm_capacity sm s"
      "sm_inv s \<Longrightarrow> sm_get sm s k \<noteq> None \<Longrightarrow> sm_capacity sm (sm_set sm s k v) = sm_capacity sm s"
      "sm_inv s \<Longrightarrow> sm_remove sm s k = (r, s') \<Longrightarrow> sm_capacity sm s' = sm_capacity sm s"
begin

lemma sm_insertE:
  assumes "sm_inv s"
  obtains k s' where "sm_insert sm s v = (k, s')" "sm_inv s'" "sm_get sm s k = None"
    "sm_get sm s' = (sm_get sm s)(k \<mapsto> v)"
  using sm_insert [OF assms] by (metis surj_pair)

lemma sm_removeE:
  assumes "sm_inv s"
  obtains s' where "sm_remove sm s k = (sm_get sm s k, s')" "sm_inv s'"
    "sm_get sm s' = (sm_get sm s)(k := None)" "sm_capacity sm s' = sm_capacity sm s"
  using sm_remove [OF assms] sm_capacity(4) [OF assms] by (metis surj_pair)

lemma sm_set_inv: "sm_inv s \<Longrightarrow> sm_get sm s k = Some w \<Longrightarrow> sm_inv (sm_set sm s k v)"
  by (simp add: sm_set)

lemma sm_set_get: "sm_inv s \<Longrightarrow> sm_get sm s k = Some w \<Longrightarrow>
    sm_get sm (sm_set sm s k v) = (sm_get sm s)(k \<mapsto> v)"
  by (simp add: sm_set)

lemma sm_finite: "sm_inv s \<Longrightarrow> finite (dom (sm_get sm s))"
  using sm_values [of s] by (metis List.finite_set)

lemma sm_values_set: "sm_inv s \<Longrightarrow> set (sm_values sm s) = ran (sm_get sm s)"
  using sm_values [of s] by (force simp: ran_def)

lemma sm_len_pos: "sm_inv s \<Longrightarrow> sm_get sm s k = Some v \<Longrightarrow> 0 < sm_len sm s"
  using sm_finite [of s] by (auto simp: sm_len card_gt_0_iff)

end

subsection \<open>A slot map with versioned slots\<close>

text \<open>A key is a slot number with the version the slot had when the key was made. A slot
  is its version and, when occupied, its value. Removing an element bumps the version, so
  old keys of the slot no longer match.\<close>

type_synonym slot_key = "nat \<times> nat"

record 'v vslots =
  vs_slots :: "(nat \<times> 'v option) list"
  vs_free :: "nat list"
  vs_cap :: nat

definition vs_new :: "nat \<Rightarrow> 'v vslots" where
  "vs_new c = \<lparr>vs_slots = [], vs_free = [], vs_cap = c\<rparr>"

definition vs_get :: "'v vslots \<Rightarrow> slot_key \<Rightarrow> 'v option" where
  "vs_get s k =
     (if fst k < length (vs_slots s) \<and> fst (vs_slots s ! fst k) = snd k
      then snd (vs_slots s ! fst k) else None)"

definition vs_insert :: "'v vslots \<Rightarrow> 'v \<Rightarrow> slot_key \<times> 'v vslots" where
  "vs_insert s v =
     (case vs_free s of
        i # is \<Rightarrow>
          (let n = fst (vs_slots s ! i)
           in ((i, n), s\<lparr>vs_slots := (vs_slots s)[i := (n, Some v)], vs_free := is\<rparr>))
      | [] \<Rightarrow>
          ((length (vs_slots s), 0),
           s\<lparr>vs_slots := vs_slots s @ [(0, Some v)],
             vs_cap := max (vs_cap s) (Suc (length (vs_slots s)))\<rparr>))"

definition vs_set :: "'v vslots \<Rightarrow> slot_key \<Rightarrow> 'v \<Rightarrow> 'v vslots" where
  "vs_set s k v = s\<lparr>vs_slots := (vs_slots s)[fst k := (snd k, Some v)]\<rparr>"

definition vs_remove :: "'v vslots \<Rightarrow> slot_key \<Rightarrow> 'v option \<times> 'v vslots" where
  "vs_remove s k =
     (case vs_get s k of
        None \<Rightarrow> (None, s)
      | Some v \<Rightarrow>
          (Some v, s\<lparr>vs_slots := (vs_slots s)[fst k := (Suc (snd k), None)],
                     vs_free := fst k # vs_free s\<rparr>))"

definition vs_values :: "'v vslots \<Rightarrow> 'v list" where
  "vs_values s = List.map_filter snd (vs_slots s)"

definition vs_ops :: "(slot_key, 'v, 'v vslots) slotmap_ops" where
  "vs_ops = \<lparr>sm_with_capacity = vs_new, sm_insert = vs_insert, sm_get = vs_get, sm_set = vs_set,
     sm_remove = vs_remove, sm_values = vs_values, sm_len = (\<lambda>s. length (vs_values s)),
     sm_capacity = vs_cap\<rparr>"

lemma vs_ops_simps [simp]:
  "sm_with_capacity vs_ops = vs_new" "sm_insert vs_ops = vs_insert" "sm_get vs_ops = vs_get"
  "sm_set vs_ops = vs_set" "sm_remove vs_ops = vs_remove" "sm_values vs_ops = vs_values"
  "sm_len vs_ops = (\<lambda>s. length (vs_values s))" "sm_capacity vs_ops = vs_cap"
  by (simp_all add: vs_ops_def)

definition vs_inv :: "'v vslots \<Rightarrow> bool" where
  "vs_inv s \<longleftrightarrow> distinct (vs_free s) \<and>
     (\<forall>i. i \<in> set (vs_free s) \<longleftrightarrow> i < length (vs_slots s) \<and> snd (vs_slots s ! i) = None)"

definition vs_keys :: "'v vslots \<Rightarrow> slot_key list" where
  "vs_keys s = map (\<lambda>i. (i, fst (vs_slots s ! i)))
     (filter (\<lambda>i. snd (vs_slots s ! i) \<noteq> None) [0..<length (vs_slots s)])"

lemma vs_keys_set: "set (vs_keys s) = dom (vs_get s)"
  by (auto simp: vs_keys_def vs_get_def dom_def image_iff split: if_splits)

lemma vs_keys_distinct: "distinct (vs_keys s)"
  by (auto simp: vs_keys_def distinct_map inj_on_def)

lemma vs_values_keys: "vs_values s = map (the \<circ> vs_get s) (vs_keys s)"
proof -
  have "List.map_filter snd xs =
      map (\<lambda>i. the (snd (xs ! i))) (filter (\<lambda>i. snd (xs ! i) \<noteq> None) [0..<length xs])"
    for xs :: "(nat \<times> 'a option) list"
  proof (induction xs rule: rev_induct)
    case (snoc x xs)
    have "filter (\<lambda>i. snd ((xs @ [x]) ! i) \<noteq> None) [0..<length xs] =
        filter (\<lambda>i. snd (xs ! i) \<noteq> None) [0..<length xs]"
      by (rule filter_cong) (auto simp: nth_append)
    then show ?case
      using snoc by (auto simp: List.map_filter_def nth_append)
  qed (simp add: List.map_filter_def)
  then show ?thesis
    by (simp add: vs_values_def vs_keys_def vs_get_def comp_def)
qed

lemma vs_inv_full:
  assumes "vs_inv s" "vs_free s = []" "i < length (vs_slots s)"
  shows "snd (vs_slots s ! i) \<noteq> None"
  using assms by (auto simp: vs_inv_def)

lemma vs_values_full:
  assumes "vs_inv s" "vs_free s = []"
  shows "length (vs_values s) = length (vs_slots s)"
proof -
  have "filter (\<lambda>i. snd (vs_slots s ! i) \<noteq> None) [0..<length (vs_slots s)] = [0..<length (vs_slots s)]"
    using vs_inv_full [OF assms] by (auto intro!: filter_True)
  then show ?thesis
    by (simp add: vs_values_keys vs_keys_def)
qed

lemma vs_insert_spec:
  assumes "vs_inv s" "vs_insert s v = (k, s')"
  shows "vs_inv s' \<and> vs_get s k = None \<and> vs_get s' = (vs_get s)(k \<mapsto> v)"
proof (cases "vs_free s")
  case Nil
  note full = vs_inv_full [OF assms(1) Nil]
  have s': "k = (length (vs_slots s), 0)" "vs_slots s' = vs_slots s @ [(0, Some v)]" "vs_free s' = []"
    using assms(2) Nil by (auto simp: vs_insert_def)
  have "vs_inv s'"
    using full by (auto simp: vs_inv_def s' nth_append less_Suc_eq)
  moreover have "vs_get s' = (vs_get s)(k \<mapsto> v)"
    by (rule ext) (auto simp: vs_get_def s' nth_append less_Suc_eq)
  ultimately show ?thesis
    by (simp add: vs_get_def s')
next
  case (Cons i "is")
  then have i: "i < length (vs_slots s)" "snd (vs_slots s ! i) = None" "i \<notin> set is"
    using assms(1) by (auto simp: vs_inv_def)
  have s': "k = (i, fst (vs_slots s ! i))" "vs_free s' = is"
    "vs_slots s' = (vs_slots s)[i := (fst (vs_slots s ! i), Some v)]"
    using assms(2) Cons by (auto simp: vs_insert_def Let_def)
  have "vs_inv s'"
    using assms(1) Cons i unfolding vs_inv_def s' by (simp add: nth_list_update) (metis set_ConsD list.set_intros)
  moreover have "vs_get s' = (vs_get s)(k \<mapsto> v)"
    by (rule ext) (auto simp: vs_get_def s' nth_list_update i)
  ultimately show ?thesis
    using i by (simp add: vs_get_def s')
qed

lemma vs_set_spec:
  assumes "vs_inv s" "vs_get s k \<noteq> None"
  shows "vs_inv (vs_set s k v) \<and> vs_get (vs_set s k v) = (vs_get s)(k \<mapsto> v)"
proof -
  obtain i n where k: "k = (i, n)" by (cases k)
  have i: "i < length (vs_slots s)" "fst (vs_slots s ! i) = n" "snd (vs_slots s ! i) \<noteq> None"
    using assms(2) by (auto simp: vs_get_def k split: if_splits)
  have "vs_inv (vs_set s k v)"
    using assms(1) i unfolding vs_inv_def by (simp add: vs_set_def k nth_list_update)
  moreover have "vs_get (vs_set s k v) = (vs_get s)(k \<mapsto> v)"
    using i by (intro ext) (auto simp: vs_get_def vs_set_def k nth_list_update)
  ultimately show ?thesis ..
qed

lemma vs_remove_spec:
  assumes "vs_inv s" "vs_remove s k = (r, s')"
  shows "vs_inv s' \<and> r = vs_get s k \<and> vs_get s' = (vs_get s)(k := None)"
proof (cases "vs_get s k")
  case None
  then show ?thesis
    using assms by (auto simp: vs_remove_def)
next
  case (Some v)
  obtain i n where k: "k = (i, n)" by (cases k)
  have i: "i < length (vs_slots s)" "fst (vs_slots s ! i) = n" "snd (vs_slots s ! i) = Some v"
    using Some by (auto simp: vs_get_def k split: if_splits)
  have s': "r = Some v" "vs_slots s' = (vs_slots s)[i := (Suc n, None)]" "vs_free s' = i # vs_free s"
    using assms(2) Some by (auto simp: vs_remove_def k)
  have "vs_inv s'"
    using assms(1) i unfolding vs_inv_def s' by (simp add: nth_list_update)
  moreover have "vs_get s' = (vs_get s)(k := None)"
    using i by (intro ext) (auto simp: vs_get_def s' k nth_list_update)
  ultimately show ?thesis
    using Some s' by simp
qed

interpretation vs: slot_map vs_ops vs_inv
proof (unfold_locales, goal_cases)
  case (1 c)
  show ?case by (simp add: vs_new_def vs_inv_def)
next
  case (2 c k)
  show ?case by (simp add: vs_new_def vs_get_def)
next
  case (3 s v k s')
  then show ?case using vs_insert_spec [of s v k s'] by simp
next
  case (4 s k v)
  then show ?case using vs_set_spec [of s k v] by simp
next
  case (5 s k r s')
  then show ?case using vs_remove_spec [of s k r s'] by simp
next
  case (6 s)
  show ?case
    using vs_keys_distinct [of s] vs_keys_set [of s] vs_values_keys [of s] by auto
next
  case (7 s)
  show ?case
    using distinct_card [OF vs_keys_distinct [of s]]
    by (simp add: vs_values_keys vs_keys_set)
next
  case (8 c)
  show ?case by (simp add: vs_new_def)
next
  case (9 s v k s')
  then show ?case
    using vs_values_full [of s] by (auto simp: vs_insert_def Let_def split: list.splits)
next
  case (10 s k v)
  show ?case by (simp add: vs_set_def)
next
  case (11 s k r s')
  then show ?case by (auto simp: vs_remove_def split: option.splits)
qed

end
