(* ===== verification/Price_Level.thy ===== *)
theory Price_Level
  imports Slot_Map
begin

text \<open>
  Resting orders and price levels (\<open>order-book/src/order.rs\<close>, \<open>order-book/src/level.rs\<close>).

  A price level is a FIFO queue of resting orders, threaded through the arena as an intrusive
  doubly-linked list. The operations are translated with the arena passed along; indexing the
  arena with a dead key panics in the source and is \<open>None\<close> here. The second half of the theory
  relates a level to the list of the keys it links (\<open>level_ok\<close>) and shows that the operations
  are the list operations: append at the tail, delete anywhere, decrement or drop the head.
\<close>

subsection \<open>Data\<close>

record 'k resting_order =
  o_id :: order_id
  o_account :: account_id
  o_qty_remaining :: qty
  o_side :: side
  o_price :: price
  o_seq :: u64
  o_next :: "'k option"
  o_prev :: "'k option"

definition resting_order_new ::
  "order_id \<Rightarrow> account_id \<Rightarrow> qty \<Rightarrow> side \<Rightarrow> price \<Rightarrow> u64 \<Rightarrow> 'k resting_order" where
  "resting_order_new oid account q side price seq =
     \<lparr>o_id = oid, o_account = account, o_qty_remaining = q, o_side = side, o_price = price,
      o_seq = seq, o_next = None, o_prev = None\<rparr>"

record 'k price_level =
  l_price :: price
  l_head :: "'k option"
  l_tail :: "'k option"
  l_total_qty :: qty

type_synonym ('k, 's) arena_ops = "('k, 'k resting_order, 's) slotmap_ops"

subsection \<open>Operations\<close>

definition level_new :: "price \<Rightarrow> 'k price_level" where
  "level_new price = \<lparr>l_price = price, l_head = None, l_tail = None, l_total_qty = 0\<rparr>"

definition push_back ::
  "('k, 's) arena_ops \<Rightarrow> 'k price_level \<Rightarrow> 'k \<Rightarrow> 's \<Rightarrow> ('k price_level \<times> 's) option" where
  "push_back sm l key arena = do {
     order \<leftarrow> sm_get sm arena key;
     let q = o_qty_remaining order;
     (l, arena) \<leftarrow>
       (case l_tail l of
          None \<Rightarrow> Some (l\<lparr>l_head := Some key, l_tail := Some key\<rparr>, arena)
        | Some prev_tail \<Rightarrow> do {
            t \<leftarrow> sm_get sm arena prev_tail;
            let arena = sm_set sm arena prev_tail (t\<lparr>o_next := Some key\<rparr>);
            n \<leftarrow> sm_get sm arena key;
            let arena = sm_set sm arena key (n\<lparr>o_prev := Some prev_tail\<rparr>);
            Some (l\<lparr>l_tail := Some key\<rparr>, arena)
          });
     Some (l\<lparr>l_total_qty := l_total_qty l + q\<rparr>, arena)
   }"

text \<open>The two halves of stitching the neighbours of a removed order together.\<close>

definition stitch_prev ::
  "('k, 's) arena_ops \<Rightarrow> 'k price_level \<Rightarrow> 's \<Rightarrow> 'k option \<Rightarrow> 'k option \<Rightarrow> ('k price_level \<times> 's) option" where
  "stitch_prev sm l arena prev nxt =
     (case prev of
        Some p \<Rightarrow> do {
          po \<leftarrow> sm_get sm arena p;
          Some (l, sm_set sm arena p (po\<lparr>o_next := nxt\<rparr>))
        }
      | None \<Rightarrow> Some (l\<lparr>l_head := nxt\<rparr>, arena))"

definition stitch_next ::
  "('k, 's) arena_ops \<Rightarrow> 'k price_level \<Rightarrow> 's \<Rightarrow> 'k option \<Rightarrow> 'k option \<Rightarrow> ('k price_level \<times> 's) option" where
  "stitch_next sm l arena prev nxt =
     (case nxt of
        Some n \<Rightarrow> do {
          no \<leftarrow> sm_get sm arena n;
          Some (l, sm_set sm arena n (no\<lparr>o_prev := prev\<rparr>))
        }
      | None \<Rightarrow> Some (l\<lparr>l_tail := prev\<rparr>, arena))"

definition level_remove ::
  "('k, 's) arena_ops \<Rightarrow> 'k price_level \<Rightarrow> 'k \<Rightarrow> 's \<Rightarrow>
   ('k resting_order option \<times> 'k price_level \<times> 's) option" where
  "level_remove sm l key arena =
     (case sm_get sm arena key of
        None \<Rightarrow> Some (None, l, arena)
      | Some order \<Rightarrow> do {
          let prev = o_prev order;
          let nxt = o_next order;
          let q = o_qty_remaining order;
          (l, arena) \<leftarrow> stitch_prev sm l arena prev nxt;
          (l, arena) \<leftarrow> stitch_next sm l arena prev nxt;
          let l = l\<lparr>l_total_qty := l_total_qty l - q\<rparr>;
          let (removed, arena) = sm_remove sm arena key;
          Some (removed, l, arena)
        })"

definition peek_head :: "'k price_level \<Rightarrow> 'k option" where
  "peek_head l = l_head l"

definition fill_head ::
  "('k, 's) arena_ops \<Rightarrow> 'k price_level \<Rightarrow> qty \<Rightarrow> 's \<Rightarrow> (bool \<times> 'k price_level \<times> 's) option" where
  "fill_head sm l fill_qty arena =
     (case l_head l of
        None \<Rightarrow> Some (False, l, arena)
      | Some head_key \<Rightarrow> do {
          order \<leftarrow> sm_get sm arena head_key;
          let order = order\<lparr>o_qty_remaining := o_qty_remaining order - fill_qty\<rparr>;
          let arena = sm_set sm arena head_key order;
          let l = l\<lparr>l_total_qty := l_total_qty l - fill_qty\<rparr>;
          if o_qty_remaining order = 0 then do {
            let nxt = o_next order;
            arena \<leftarrow>
              (case nxt of
                 Some n \<Rightarrow> do {
                   no \<leftarrow> sm_get sm arena n;
                   Some (sm_set sm arena n (no\<lparr>o_prev := None\<rparr>))
                 }
               | None \<Rightarrow> Some arena);
            let l = l\<lparr>l_head := nxt\<rparr>;
            let l = (if l_head l = None then l\<lparr>l_tail := None\<rparr> else l);
            let (_, arena) = sm_remove sm arena head_key;
            Some (True, l, arena)
          } else Some (False, l, arena)
        })"

definition level_is_empty :: "'k price_level \<Rightarrow> bool" where
  "level_is_empty l \<longleftrightarrow> l_head l = None"

subsection \<open>Linked segments\<close>

text \<open>\<open>firsto ks n\<close> is the pointer to the first of \<open>ks\<close> (or \<open>n\<close> when there is none) and
  \<open>lasto p ks\<close> the one to the last. \<open>dseg h p ks n\<close>: in the heap \<open>h\<close> the keys \<open>ks\<close> form a
  doubly-linked segment between \<open>p\<close> and \<open>n\<close>.\<close>

fun firsto :: "'k list \<Rightarrow> 'k option \<Rightarrow> 'k option" where
  "firsto [] n = n"
| "firsto (k # ks) n = Some k"

fun lasto :: "'k option \<Rightarrow> 'k list \<Rightarrow> 'k option" where
  "lasto p [] = p"
| "lasto p (k # ks) = lasto (Some k) ks"

fun dseg :: "('k \<rightharpoonup> 'k resting_order) \<Rightarrow> 'k option \<Rightarrow> 'k list \<Rightarrow> 'k option \<Rightarrow> bool" where
  "dseg h p [] n \<longleftrightarrow> True"
| "dseg h p (k # ks) n \<longleftrightarrow>
     (\<exists>r. h k = Some r \<and> o_prev r = p \<and> o_next r = firsto ks n) \<and> dseg h (Some k) ks n"

lemma firsto_append [simp]: "firsto (xs @ ys) n = firsto xs (firsto ys n)"
  by (cases xs) auto

lemma lasto_append [simp]: "lasto p (xs @ ys) = lasto (lasto p xs) ys"
  by (induction xs arbitrary: p) auto

lemma lasto_snoc: "lasto p (xs @ [k]) = Some k"
  by simp

lemma firsto_None [simp]: "firsto ks None = None \<longleftrightarrow> ks = []"
  by (cases ks) auto

lemma lasto_Some: "lasto p ks = (if ks = [] then p else Some (last ks))"
  by (induction ks arbitrary: p) auto

lemma dseg_append [simp]:
  "dseg h p (xs @ ys) n \<longleftrightarrow> dseg h p xs (firsto ys n) \<and> dseg h (lasto p xs) ys n"
  by (induction xs arbitrary: p) auto

lemma dseg_frame: "(\<And>k. k \<in> set ks \<Longrightarrow> h' k = h k) \<Longrightarrow> dseg h' p ks n = dseg h p ks n"
  by (induction ks arbitrary: p) auto

lemma dseg_upd [simp]: "k \<notin> set ks \<Longrightarrow> dseg (h(k := v)) p ks n = dseg h p ks n"
  by (rule dseg_frame) auto

lemma dseg_dom: "dseg h p ks n \<Longrightarrow> set ks \<subseteq> dom h"
  by (induction ks arbitrary: p) auto

text \<open>Relinking the end of a segment writes one field of its last node.\<close>

lemma dseg_relink_next:
  assumes "dseg h p (xs @ [k]) n" "k \<notin> set xs" "h k = Some r"
  shows "dseg (h(k \<mapsto> r\<lparr>o_next := n'\<rparr>)) p (xs @ [k]) n'"
  using assms by auto

lemma dseg_relink_prev:
  assumes "dseg h p (k # ys) n" "k \<notin> set ys" "h k = Some r"
  shows "dseg (h(k \<mapsto> r\<lparr>o_prev := p'\<rparr>)) p' (k # ys) n"
  using assms by auto

subsection \<open>Orders without their links\<close>

record book_order =
  bo_id :: order_id
  bo_account :: account_id
  bo_qty :: qty
  bo_side :: side
  bo_price :: price
  bo_seq :: u64

definition view :: "'k resting_order \<Rightarrow> book_order" where
  "view r = \<lparr>bo_id = o_id r, bo_account = o_account r, bo_qty = o_qty_remaining r,
     bo_side = o_side r, bo_price = o_price r, bo_seq = o_seq r\<rparr>"

lemma view_simps [simp]:
  "bo_id (view r) = o_id r" "bo_account (view r) = o_account r" "bo_qty (view r) = o_qty_remaining r"
  "bo_side (view r) = o_side r" "bo_price (view r) = o_price r" "bo_seq (view r) = o_seq r"
  "view (r\<lparr>o_next := x\<rparr>) = view r" "view (r\<lparr>o_prev := x\<rparr>) = view r"
  "view (r\<lparr>o_qty_remaining := q\<rparr>) = (view r)\<lparr>bo_qty := q\<rparr>"
  by (simp_all add: view_def)

text \<open>\<open>hview h\<close> is the heap with the links left out; the operations on levels change links
  freely and the views only where they mean to.\<close>

definition hview :: "('k \<rightharpoonup> 'k resting_order) \<Rightarrow> 'k \<rightharpoonup> book_order" where
  "hview h k = map_option view (h k)"

lemma hview_upd [simp]: "hview (h(k \<mapsto> r)) = (hview h)(k \<mapsto> view r)" "hview (h(k := None)) = (hview h)(k := None)"
  by (auto simp: hview_def)

lemma hview_Some: "h k = Some r \<Longrightarrow> hview h k = Some (view r)"
  by (simp add: hview_def)

lemma dom_hview [simp]: "dom (hview h) = dom h"
  by (auto simp: hview_def dom_def)

definition queue_of :: "('k \<rightharpoonup> book_order) \<Rightarrow> 'k list \<Rightarrow> book_order list" where
  "queue_of v ks = map (the \<circ> v) ks"

lemma queue_of_simps [simp]:
  "queue_of v [] = []" "queue_of v (k # ks) = the (v k) # queue_of v ks"
  "queue_of v (xs @ ys) = queue_of v xs @ queue_of v ys"
  by (simp_all add: queue_of_def)

lemma queue_of_upd [simp]: "k \<notin> set ks \<Longrightarrow> queue_of (v(k := x)) ks = queue_of v ks"
  by (auto simp: queue_of_def)

definition qsum :: "book_order list \<Rightarrow> qty" where
  "qsum os = sum_list (map bo_qty os)"

lemma qsum_simps [simp]:
  "qsum [] = 0" "qsum (x # xs) = bo_qty x + qsum xs" "qsum (xs @ ys) = qsum xs + qsum ys"
  by (simp_all add: qsum_def)

text \<open>The representation relation of a level: it links exactly \<open>ks\<close>, and its running total is
  the sum of their quantities (modulo the width of \<open>u64\<close>).\<close>

definition level_ok :: "('k \<rightharpoonup> 'k resting_order) \<Rightarrow> 'k price_level \<Rightarrow> 'k list \<Rightarrow> bool" where
  "level_ok h l ks \<longleftrightarrow> distinct ks \<and> dseg h None ks None \<and> l_head l = firsto ks None \<and>
     l_tail l = lasto None ks \<and> l_total_qty l = qsum (queue_of (hview h) ks)"

lemma level_ok_new [simp]: "level_ok h (level_new p) ks \<longleftrightarrow> ks = []"
  by (auto simp: level_ok_def level_new_def) (metis firsto_None)

lemma level_ok_empty: "level_ok h l ks \<Longrightarrow> level_is_empty l \<longleftrightarrow> ks = []"
  by (auto simp: level_ok_def level_is_empty_def)

lemma level_ok_frame:
  assumes "level_ok h l ks" "\<And>k. k \<in> set ks \<Longrightarrow> h' k = h k"
  shows "level_ok h' l ks"
proof -
  have "queue_of (hview h') ks = queue_of (hview h) ks"
    using assms(2) by (auto simp: queue_of_def hview_def)
  moreover have "dseg h' None ks None = dseg h None ks None"
    using assms(2) by (rule dseg_frame)
  ultimately show ?thesis
    using assms(1) by (simp add: level_ok_def)
qed

subsection \<open>The operations are the list operations\<close>

locale order_arena = slot_map sm sm_inv
  for sm :: "('k, 'k resting_order, 's) slotmap_ops" and sm_inv :: "'s \<Rightarrow> bool"
begin

lemma push_back_ok:
  assumes a: "sm_inv a" and l: "level_ok (sm_get sm a) l ks"
    and k: "sm_get sm a k = Some r" "o_next r = None" "o_prev r = None" "k \<notin> set ks"
  obtains l' a' where "push_back sm l k a = Some (l', a')" "sm_inv a'"
    "level_ok (sm_get sm a') l' (ks @ [k])" "l_price l' = l_price l" "sm_capacity sm a' = sm_capacity sm a"
    "hview (sm_get sm a') = hview (sm_get sm a)"
    "\<And>j. j \<notin> set ks \<Longrightarrow> j \<noteq> k \<Longrightarrow> sm_get sm a' j = sm_get sm a j"
proof (cases ks rule: rev_cases)
  case Nil
  show ?thesis
    by (rule that [of "l\<lparr>l_head := Some k, l_tail := Some k, l_total_qty := l_total_qty l + o_qty_remaining r\<rparr>" a])
      (use a l k Nil in \<open>auto simp: push_back_def level_ok_def hview_Some\<close>)
next
  case (snoc xs t)
  let ?h = "sm_get sm a"
  have tl: "l_tail l = Some t" "t \<noteq> k" "t \<notin> set xs" "k \<notin> set xs"
    using l k(4) snoc by (auto simp: level_ok_def)
  obtain rt where rt: "?h t = Some rt"
    using l snoc by (auto simp: level_ok_def)
  define a1 where "a1 = sm_set sm a t (rt\<lparr>o_next := Some k\<rparr>)"
  have a1: "sm_inv a1" "sm_get sm a1 = ?h(t \<mapsto> rt\<lparr>o_next := Some k\<rparr>)" "sm_capacity sm a1 = sm_capacity sm a"
    using a rt by (simp_all add: a1_def sm_set sm_capacity)
  have a1k: "sm_get sm a1 k = Some r"
    using a1 k tl by simp
  define a2 where "a2 = sm_set sm a1 k (r\<lparr>o_prev := Some t\<rparr>)"
  have a2: "sm_inv a2" "sm_get sm a2 = ?h(t \<mapsto> rt\<lparr>o_next := Some k\<rparr>, k \<mapsto> r\<lparr>o_prev := Some t\<rparr>)"
    "sm_capacity sm a2 = sm_capacity sm a"
    using a1 a1k by (simp_all add: a2_def sm_set sm_capacity)
  let ?l = "l\<lparr>l_tail := Some k, l_total_qty := l_total_qty l + o_qty_remaining r\<rparr>"
  have pb: "push_back sm l k a = Some (?l, a2)"
    using k(1) tl(1) rt a1k by (simp add: push_back_def a1_def [symmetric] a2_def [symmetric])
  have hv: "hview (sm_get sm a2) = hview ?h"
    using k(1) rt unfolding a2 by (auto simp: hview_def)
  have "dseg (sm_get sm a2) None (ks @ [k]) None"
    using l k snoc tl rt by (auto simp: level_ok_def a2)
  then have lo: "level_ok (sm_get sm a2) ?l (ks @ [k])"
    using l k hv tl by (simp add: level_ok_def snoc hview_Some)
  have "sm_get sm a2 j = ?h j" if "j \<notin> set ks" "j \<noteq> k" for j
    using that snoc by (simp add: a2)
  with pb a2(1,3) lo hv show ?thesis
    by (intro that [of ?l a2]) simp_all
qed

lemma stitch_prev_ok:
  assumes a: "sm_inv a" and seg: "dseg (sm_get sm a) None xs (Some k)" and dist: "distinct xs"
    and hd: "l_head l = firsto (xs @ [k]) None"
  obtains l' a' where "stitch_prev sm l a (lasto None xs) nxt = Some (l', a')" "sm_inv a'"
    "l' = l\<lparr>l_head := firsto xs nxt\<rparr>" "sm_capacity sm a' = sm_capacity sm a" "dseg (sm_get sm a') None xs nxt"
    "hview (sm_get sm a') = hview (sm_get sm a)" "\<And>j. j \<notin> set xs \<Longrightarrow> sm_get sm a' j = sm_get sm a j"
proof (cases xs rule: rev_cases)
  case Nil
  show ?thesis
    by (rule that [of "l\<lparr>l_head := nxt\<rparr>" a]) (use a Nil in \<open>auto simp: stitch_prev_def\<close>)
next
  case (snoc xs' p)
  let ?h = "sm_get sm a"
  obtain po where po: "?h p = Some po" using seg snoc by auto
  let ?a = "sm_set sm a p (po\<lparr>o_next := nxt\<rparr>)"
  have h1: "sm_inv ?a" "sm_get sm ?a = ?h(p \<mapsto> po\<lparr>o_next := nxt\<rparr>)" "sm_capacity sm ?a = sm_capacity sm a"
    using a po by (simp_all add: sm_set sm_capacity)
  have "dseg (sm_get sm ?a) None xs nxt"
    using dseg_relink_next [of ?h None xs' p "Some k" po nxt] seg dist po by (simp add: snoc h1)
  moreover have "l = l\<lparr>l_head := firsto xs nxt\<rparr>"
    using hd snoc by simp
  moreover have "hview (sm_get sm ?a) = hview ?h"
    using po unfolding h1 by (auto simp: hview_def)
  ultimately show ?thesis
    using that [of l ?a] h1 po snoc by (simp add: stitch_prev_def)
qed

lemma stitch_next_ok:
  assumes a: "sm_inv a" and seg: "dseg (sm_get sm a) (Some k) ys None" and dist: "distinct ys"
    and tl: "l_tail l = lasto (Some k) ys"
  obtains l' a' where "stitch_next sm l a prev (firsto ys None) = Some (l', a')" "sm_inv a'"
    "l' = l\<lparr>l_tail := lasto prev ys\<rparr>" "sm_capacity sm a' = sm_capacity sm a" "dseg (sm_get sm a') prev ys None"
    "hview (sm_get sm a') = hview (sm_get sm a)" "\<And>j. j \<notin> set ys \<Longrightarrow> sm_get sm a' j = sm_get sm a j"
proof (cases ys)
  case Nil
  show ?thesis
    by (rule that [of "l\<lparr>l_tail := prev\<rparr>" a]) (use a Nil in \<open>auto simp: stitch_next_def\<close>)
next
  case (Cons n ys')
  let ?h = "sm_get sm a"
  obtain no where no: "?h n = Some no" using seg Cons by auto
  let ?a = "sm_set sm a n (no\<lparr>o_prev := prev\<rparr>)"
  have h1: "sm_inv ?a" "sm_get sm ?a = ?h(n \<mapsto> no\<lparr>o_prev := prev\<rparr>)" "sm_capacity sm ?a = sm_capacity sm a"
    using a no by (simp_all add: sm_set sm_capacity)
  have "dseg (sm_get sm ?a) prev ys None"
    using dseg_relink_prev [of ?h "Some k" n ys' None no prev] seg dist no by (simp add: Cons h1)
  moreover have "l = l\<lparr>l_tail := lasto prev ys\<rparr>"
    using tl Cons by simp
  moreover have "hview (sm_get sm ?a) = hview ?h"
    using no unfolding h1 by (auto simp: hview_def)
  ultimately show ?thesis
    using that [of l ?a] h1 no Cons by (simp add: stitch_next_def)
qed

lemma level_remove_ok:
  assumes a: "sm_inv a" and l: "level_ok (sm_get sm a) l (xs @ k # ys)"
  obtains l' a' where "level_remove sm l k a = Some (sm_get sm a k, l', a')" "sm_inv a'"
    "level_ok (sm_get sm a') l' (xs @ ys)" "l_price l' = l_price l" "sm_capacity sm a' = sm_capacity sm a"
    "hview (sm_get sm a') = (hview (sm_get sm a))(k := None)"
    "\<And>j. j \<notin> set xs \<Longrightarrow> j \<noteq> k \<Longrightarrow> j \<notin> set ys \<Longrightarrow> sm_get sm a' j = sm_get sm a j"
proof -
  let ?h = "sm_get sm a"
  let ?p = "lasto None xs" and ?n = "firsto ys None"
  obtain r where r: "?h k = Some r" "o_prev r = ?p" "o_next r = ?n"
    using l by (auto simp: level_ok_def)
  have dist: "distinct (xs @ k # ys)" and seg: "dseg ?h None xs (Some k)" "dseg ?h (Some k) ys None"
    using l by (auto simp: level_ok_def)
  obtain l1 a1 where s1: "stitch_prev sm l a ?p ?n = Some (l1, a1)" "sm_inv a1"
    "l1 = l\<lparr>l_head := firsto xs ?n\<rparr>" "dseg (sm_get sm a1) None xs ?n" "hview (sm_get sm a1) = hview ?h"
    "sm_capacity sm a1 = sm_capacity sm a"
    and f1: "\<And>j. j \<notin> set xs \<Longrightarrow> sm_get sm a1 j = ?h j"
    by (rule stitch_prev_ok [of a xs k l ?n]) (use a l dist seg(1) in \<open>auto simp: level_ok_def\<close>)
  have "dseg (sm_get sm a1) (Some k) ys None"
    using seg(2) dist by (subst dseg_frame [where h = ?h]) (auto intro: f1)
  then obtain l2 a2 where s2: "stitch_next sm l1 a1 ?p ?n = Some (l2, a2)" "sm_inv a2"
    "l2 = l1\<lparr>l_tail := lasto ?p ys\<rparr>" "dseg (sm_get sm a2) ?p ys None"
    "hview (sm_get sm a2) = hview (sm_get sm a1)" "sm_capacity sm a2 = sm_capacity sm a1"
    and f2: "\<And>j. j \<notin> set ys \<Longrightarrow> sm_get sm a2 j = sm_get sm a1 j"
    by (rule stitch_next_ok [of a1 k ys l1 ?p, rotated]) (use s1 l dist in \<open>auto simp: level_ok_def\<close>)
  have seg2: "dseg (sm_get sm a2) None xs ?n"
    using s1(4) dist by (subst dseg_frame [where h = "sm_get sm a1"]) (auto intro: f2)
  obtain a3 where a3: "sm_remove sm a2 k = (sm_get sm a2 k, a3)" "sm_inv a3"
      "sm_get sm a3 = (sm_get sm a2)(k := None)" "sm_capacity sm a3 = sm_capacity sm a2"
    using sm_removeE [OF s2(2)] by blast
  have k2: "sm_get sm a2 k = ?h k"
    using dist f1 f2 by simp
  let ?l = "l2\<lparr>l_total_qty := l_total_qty l2 - o_qty_remaining r\<rparr>"
  have "level_remove sm l k a = Some (?h k, ?l, a3)"
    unfolding level_remove_def Let_def using r s1(1) s2(1) a3(1) k2 by simp
  moreover have "level_ok (sm_get sm a3) ?l (xs @ ys)"
    using l dist s1 s2 seg2 r(1) by (simp add: level_ok_def a3 hview_Some)
  moreover have "hview (sm_get sm a3) = (hview ?h)(k := None)"
    using s1(5) s2(5) by (simp add: a3)
  moreover have "sm_get sm a3 j = ?h j" if "j \<notin> set xs" "j \<noteq> k" "j \<notin> set ys" for j
    using that f1 f2 a3(3) by simp
  ultimately show ?thesis
    using that [of ?l a3] a3(2,4) s1(3,6) s2(3,6) by simp
qed

text \<open>A fill below the head's quantity decrements the head in place and keeps every link; a
  fill of all of it takes the head off the queue and out of the arena.\<close>

lemma fill_head_partial:
  assumes a: "sm_inv a" and l: "level_ok (sm_get sm a) l (k # ks)"
    and r: "sm_get sm a k = Some r" and q: "o_qty_remaining r \<noteq> q"
  obtains l' a' where "fill_head sm l q a = Some (False, l', a')" "sm_inv a'"
    "level_ok (sm_get sm a') l' (k # ks)" "l_price l' = l_price l" "sm_capacity sm a' = sm_capacity sm a"
    "hview (sm_get sm a') = (hview (sm_get sm a))(k \<mapsto> (view r)\<lparr>bo_qty := o_qty_remaining r - q\<rparr>)"
    "\<And>j. j \<noteq> k \<Longrightarrow> sm_get sm a' j = sm_get sm a j"
proof -
  let ?r = "r\<lparr>o_qty_remaining := o_qty_remaining r - q\<rparr>"
  let ?a = "sm_set sm a k ?r" and ?l = "l\<lparr>l_total_qty := l_total_qty l - q\<rparr>"
  have h1: "sm_inv ?a" "sm_get sm ?a = (sm_get sm a)(k \<mapsto> ?r)" "sm_capacity sm ?a = sm_capacity sm a"
    using a r by (simp_all add: sm_set sm_capacity)
  have "fill_head sm l q a = Some (False, ?l, ?a)"
    using l r q by (simp add: fill_head_def level_ok_def)
  moreover have "level_ok (sm_get sm ?a) ?l (k # ks)"
    using l r by (auto simp: level_ok_def h1 hview_Some)
  ultimately show ?thesis
    using that [of ?l ?a] h1 by simp
qed

lemma fill_head_full:
  assumes a: "sm_inv a" and l: "level_ok (sm_get sm a) l (k # ks)"
    and r: "sm_get sm a k = Some r" and q: "o_qty_remaining r = q"
  obtains l' a' where "fill_head sm l q a = Some (True, l', a')" "sm_inv a'"
    "level_ok (sm_get sm a') l' ks" "l_price l' = l_price l" "sm_capacity sm a' = sm_capacity sm a"
    "hview (sm_get sm a') = (hview (sm_get sm a))(k := None)"
    "\<And>j. j \<notin> set (k # ks) \<Longrightarrow> sm_get sm a' j = sm_get sm a j"
proof -
  let ?r = "r\<lparr>o_qty_remaining := 0\<rparr>"
  let ?a = "sm_set sm a k ?r"
  have lo: "l_head l = Some k" "l_tail l = lasto (Some k) ks" "o_next r = firsto ks None" "k \<notin> set ks"
    "distinct ks" "dseg (sm_get sm a) (Some k) ks None"
    using l r by (auto simp: level_ok_def)
  have h1: "sm_inv ?a" "sm_get sm ?a = (sm_get sm a)(k \<mapsto> ?r)" "sm_capacity sm ?a = sm_capacity sm a"
    using a r by (simp_all add: sm_set sm_capacity)
  define l1 where "l1 = l\<lparr>l_total_qty := l_total_qty l - q\<rparr>"
  have "dseg (sm_get sm ?a) (Some k) ks None" "l_tail l1 = lasto (Some k) ks"
    using lo by (simp_all add: h1 l1_def)
  then obtain l2 a2 where s: "stitch_next sm l1 ?a None (firsto ks None) = Some (l2, a2)" "sm_inv a2"
    "l2 = l1\<lparr>l_tail := lasto None ks\<rparr>" "dseg (sm_get sm a2) None ks None"
    "hview (sm_get sm a2) = hview (sm_get sm ?a)" "sm_capacity sm a2 = sm_capacity sm ?a"
    and f: "\<And>j. j \<notin> set ks \<Longrightarrow> sm_get sm a2 j = sm_get sm ?a j"
    using stitch_next_ok [OF h1(1) _ lo(5)] by metis
  obtain a3 where a3: "sm_remove sm a2 k = (sm_get sm a2 k, a3)" "sm_inv a3"
      "sm_get sm a3 = (sm_get sm a2)(k := None)" "sm_capacity sm a3 = sm_capacity sm a2"
    using sm_removeE [OF s(2)] by blast
  let ?l = "l2\<lparr>l_head := firsto ks None\<rparr>"
  have "fill_head sm l q a = Some (True, ?l, a3)"
    using lo r q s(1,3) a3(1) h1(2)
    by (cases ks) (auto simp: fill_head_def stitch_next_def l1_def lasto_Some)
  moreover have "level_ok (sm_get sm a3) ?l ks"
    using l s lo r q by (simp add: level_ok_def a3 h1 l1_def hview_Some)
  moreover have "hview (sm_get sm a3) = (hview (sm_get sm a))(k := None)"
    by (simp add: a3 s(5) h1)
  moreover have "sm_get sm a3 j = sm_get sm a j" if "j \<notin> set (k # ks)" for j
    using that f by (simp add: a3 h1)
  ultimately show ?thesis
    using that [of ?l a3] a3(2,4) s(3,6) h1(3) by (simp add: l1_def)
qed

end

interpretation va: order_arena vs_ops vs_inv ..

end
