(* ===== verification/Order_Book.thy ===== *)
theory Order_Book
  imports Price_Level
begin

text \<open>
  The order book of one symbol (\<open>order-book/src/book.rs\<close>): an arena of resting orders, a ladder
  of optional price levels per side indexed by tick, a pointer to the best occupied index of
  each ladder and the reverse lookup from order ids to arena keys.

  After the translated operations come the representation invariant \<open>book_ok\<close>, which relates a
  book to the keys queued at every tick, and the abstraction of a book to two lists of orders in
  price-time priority.
\<close>

subsection \<open>Data\<close>

record book_config =
  bc_symbol :: symbol
  bc_tick_floor :: price
  bc_num_ticks :: nat
  bc_arena_capacity :: nat

type_synonym 'k ladder = "'k price_level option list"

record ('k, 's) order_book =
  b_symbol :: symbol
  b_arena :: 's
  b_bids :: "'k ladder"
  b_asks :: "'k ladder"
  b_best_bid_idx :: "nat option"
  b_best_ask_idx :: "nat option"
  b_tick_floor :: price
  b_id_to_key :: "order_id \<rightharpoonup> 'k"

subsection \<open>Construction and accessors\<close>

definition book_new :: "('k, 's) arena_ops \<Rightarrow> book_config \<Rightarrow> ('k, 's) order_book" where
  "book_new sm cfg =
     (let arena = sm_with_capacity sm (bc_arena_capacity cfg);
          (k, arena) = sm_insert sm arena (resting_order_new 0 0 0 Buy (bc_tick_floor cfg) 0);
          (_, arena) = sm_remove sm arena k
      in \<lparr>b_symbol = bc_symbol cfg, b_arena = arena,
          b_bids = replicate (bc_num_ticks cfg) None, b_asks = replicate (bc_num_ticks cfg) None,
          b_best_bid_idx = None, b_best_ask_idx = None, b_tick_floor = bc_tick_floor cfg,
          b_id_to_key = (\<lambda>_. None)\<rparr>)"

definition open_order_ids_for_account ::
  "('k, 's) arena_ops \<Rightarrow> ('k, 's) order_book \<Rightarrow> account_id \<Rightarrow> order_id list" where
  "open_order_ids_for_account sm b account =
     map o_id (filter (\<lambda>r. o_account r = account) (sm_values sm (b_arena b)))"

definition price_to_idx :: "('k, 's) order_book \<Rightarrow> price \<Rightarrow> nat option" where
  "price_to_idx b price = do {
     offset \<leftarrow> i64_checked_sub price (b_tick_floor b);
     if sint offset < 0 then None
     else let idx = unat offset in
       if length (b_bids b) \<le> idx then None else Some idx
   }"

definition idx_to_price :: "('k, 's) order_book \<Rightarrow> nat \<Rightarrow> price" where
  "idx_to_price b idx = b_tick_floor b + of_nat idx"

text \<open>The ladder a \<open>match side\<close> selects, and writing it back.\<close>

fun ladder :: "('k, 's) order_book \<Rightarrow> side \<Rightarrow> 'k ladder" where
  "ladder b Buy = b_bids b"
| "ladder b Sell = b_asks b"

fun set_ladder :: "('k, 's) order_book \<Rightarrow> side \<Rightarrow> 'k ladder \<Rightarrow> ('k, 's) order_book" where
  "set_ladder b Buy x = b\<lparr>b_bids := x\<rparr>"
| "set_ladder b Sell x = b\<lparr>b_asks := x\<rparr>"

definition level_mut ::
  "('k, 's) order_book \<Rightarrow> side \<Rightarrow> nat \<Rightarrow> ('k price_level \<times> ('k, 's) order_book) option" where
  "level_mut b side idx = do {
     let price = idx_to_price b idx;
     slot \<leftarrow> list_get (ladder b side) idx;
     (case slot of
        Some l \<Rightarrow> Some (l, b)
      | None \<Rightarrow>
          let l = level_new price in Some (l, set_ladder b side ((ladder b side)[idx := Some l])))
   }"

definition refresh_best_bid_up :: "('k, 's) order_book \<Rightarrow> nat \<Rightarrow> ('k, 's) order_book" where
  "refresh_best_bid_up b hint =
     (case b_best_bid_idx b of
        None \<Rightarrow> b\<lparr>b_best_bid_idx := Some hint\<rparr>
      | Some cur \<Rightarrow> if hint > cur then b\<lparr>b_best_bid_idx := Some hint\<rparr> else b)"

definition refresh_best_ask_down :: "('k, 's) order_book \<Rightarrow> nat \<Rightarrow> ('k, 's) order_book" where
  "refresh_best_ask_down b hint =
     (case b_best_ask_idx b of
        None \<Rightarrow> b\<lparr>b_best_ask_idx := Some hint\<rparr>
      | Some cur \<Rightarrow> if hint < cur then b\<lparr>b_best_ask_idx := Some hint\<rparr> else b)"

fun occupied :: "'k price_level option \<Rightarrow> bool" where
  "occupied None \<longleftrightarrow> False"
| "occupied (Some l) \<longleftrightarrow> \<not> level_is_empty l"

text \<open>The two scanning loops. The downward one indexes the ladder from \<open>start\<close>, which may panic;
  the upward one stays below the length.\<close>

fun scan_down :: "'k ladder \<Rightarrow> nat \<Rightarrow> nat option option" where
  "scan_down lad 0 = do {
     slot \<leftarrow> list_get lad 0;
     Some (if occupied slot then Some 0 else None)
   }"
| "scan_down lad (Suc i) = do {
     slot \<leftarrow> list_get lad (Suc i);
     if occupied slot then Some (Some (Suc i)) else scan_down lad i
   }"

function scan_up :: "'k ladder \<Rightarrow> nat \<Rightarrow> nat option" where
  "scan_up lad i =
     (if i < length lad then if occupied (lad ! i) then Some i else scan_up lad (Suc i)
      else None)"
  by pat_completeness auto
termination
  by (relation "measure (\<lambda>(lad, i). length lad - i)") auto

declare scan_up.simps [simp del]

definition scan_best_bid_down :: "('k, 's) order_book \<Rightarrow> ('k, 's) order_book option" where
  "scan_best_bid_down b =
     (case b_best_bid_idx b of
        None \<Rightarrow> Some b
      | Some start \<Rightarrow> do {
          r \<leftarrow> scan_down (b_bids b) start;
          Some (b\<lparr>b_best_bid_idx := r\<rparr>)
        })"

definition scan_best_ask_up :: "('k, 's) order_book \<Rightarrow> ('k, 's) order_book option" where
  "scan_best_ask_up b =
     (case b_best_ask_idx b of
        None \<Rightarrow> Some b
      | Some start \<Rightarrow> Some (b\<lparr>b_best_ask_idx := scan_up (b_asks b) start\<rparr>))"

text \<open>The read accessors. An outer \<open>None\<close> is the panic of an index out of range.\<close>

definition level_price_if_occupied :: "'k price_level option \<Rightarrow> price option" where
  "level_price_if_occupied slot = (if occupied slot then map_option l_price slot else None)"

definition best_bid :: "('k, 's) order_book \<Rightarrow> price option option" where
  "best_bid b =
     (case b_best_bid_idx b of
        None \<Rightarrow> Some None
      | Some i \<Rightarrow> do {
          slot \<leftarrow> list_get (b_bids b) i;
          Some (level_price_if_occupied slot)
        })"

definition best_ask :: "('k, 's) order_book \<Rightarrow> price option option" where
  "best_ask b =
     (case b_best_ask_idx b of
        None \<Rightarrow> Some None
      | Some i \<Rightarrow> do {
          slot \<leftarrow> list_get (b_asks b) i;
          Some (level_price_if_occupied slot)
        })"

definition bid_qty_at :: "('k, 's) order_book \<Rightarrow> price \<Rightarrow> qty option" where
  "bid_qty_at b price =
     (case price_to_idx b price of
        None \<Rightarrow> Some 0
      | Some i \<Rightarrow> do {
          slot \<leftarrow> list_get (b_bids b) i;
          Some (case slot of Some l \<Rightarrow> l_total_qty l | None \<Rightarrow> 0)
        })"

definition ask_qty_at :: "('k, 's) order_book \<Rightarrow> price \<Rightarrow> qty option" where
  "ask_qty_at b price =
     (case price_to_idx b price of
        None \<Rightarrow> Some 0
      | Some i \<Rightarrow> do {
          slot \<leftarrow> list_get (b_asks b) i;
          Some (case slot of Some l \<Rightarrow> l_total_qty l | None \<Rightarrow> 0)
        })"

definition open_order_count :: "('k, 's) arena_ops \<Rightarrow> ('k, 's) order_book \<Rightarrow> nat" where
  "open_order_count sm b = sm_len sm (b_arena b)"

definition get_order ::
  "('k, 's) arena_ops \<Rightarrow> ('k, 's) order_book \<Rightarrow> order_id \<Rightarrow> 'k resting_order option" where
  "get_order sm b oid = Option.bind (b_id_to_key b oid) (sm_get sm (b_arena b))"

subsection \<open>Prices and ladder indexes\<close>

text \<open>A price has a ladder index exactly when it lies that many ticks above the floor and the
  ladder reaches that far; no wrap-around enters the conversion.\<close>

lemma price_to_idx_iff:
  "price_to_idx b p = Some i \<longleftrightarrow>
     i < length (b_bids b) \<and> int i \<le> i64_max \<and> sint p = sint (b_tick_floor b) + int i"
proof
  assume "price_to_idx b p = Some i"
  then obtain d where d: "i64_checked_sub p (b_tick_floor b) = Some d" "0 \<le> sint d" "i = unat d"
      "i < length (b_bids b)"
    by (auto simp: price_to_idx_def Let_def bind_eq_Some_conv split: if_splits)
  then show "i < length (b_bids b) \<and> int i \<le> i64_max \<and> sint p = sint (b_tick_floor b) + int i"
    using i64_checked_sub_Some [OF d(1)] sint_lt [of d] by (simp add: uint_sint_nonneg)
next
  assume r: "i < length (b_bids b) \<and> int i \<le> i64_max \<and> sint p = sint (b_tick_floor b) + int i"
  then have "sint (p - b_tick_floor b) = int i"
    by (simp add: i64_sub_eq sint_i64_of in_i64_def)
  then show "price_to_idx b p = Some i"
    using r uint_sint_nonneg [of "p - b_tick_floor b"]
    by (simp add: price_to_idx_def Let_def i64_checked_sub_def in_i64_def unat_eq_nat_uint)
qed

subsection \<open>The representation invariant\<close>

text \<open>The ghost of the invariant: the keys queued at every tick of each side, oldest first.\<close>

type_synonym 'k queues = "side \<Rightarrow> nat \<Rightarrow> 'k list"

abbreviation num_ticks :: "('k, 's) order_book \<Rightarrow> nat" where
  "num_ticks b \<equiv> length (b_bids b)"

abbreviation upd_queue :: "'k queues \<Rightarrow> side \<Rightarrow> nat \<Rightarrow> 'k list \<Rightarrow> 'k queues" where
  "upd_queue L s i ks \<equiv> L(s := (L s)(i := ks))"

fun best_ptr :: "('k, 's) order_book \<Rightarrow> side \<Rightarrow> nat option" where
  "best_ptr b Buy = b_best_bid_idx b"
| "best_ptr b Sell = b_best_ask_idx b"

fun set_best :: "('k, 's) order_book \<Rightarrow> side \<Rightarrow> nat option \<Rightarrow> ('k, 's) order_book" where
  "set_best b Buy r = b\<lparr>b_best_bid_idx := r\<rparr>"
| "set_best b Sell r = b\<lparr>b_best_ask_idx := r\<rparr>"

fun better :: "side \<Rightarrow> nat \<Rightarrow> nat \<Rightarrow> bool" where
  "better Buy i j \<longleftrightarrow> j < i"
| "better Sell i j \<longleftrightarrow> i < j"

fun slot_ok :: "('k \<rightharpoonup> 'k resting_order) \<Rightarrow> price \<Rightarrow> 'k price_level option \<Rightarrow> 'k list \<Rightarrow> bool" where
  "slot_ok h p None ks \<longleftrightarrow> ks = []"
| "slot_ok h p (Some l) ks \<longleftrightarrow> l_price l = p \<and> level_ok h l ks"

definition ladder_ok :: "('k \<rightharpoonup> 'k resting_order) \<Rightarrow> ('k, 's) order_book \<Rightarrow> 'k queues \<Rightarrow> bool" where
  "ladder_ok h b L \<longleftrightarrow>
     length (b_asks b) = num_ticks b \<and> int (num_ticks b) \<le> i64_max \<and>
     sint (b_tick_floor b) + int (num_ticks b) \<le> 2 ^ 63 \<and>
     (\<forall>s i. if i < num_ticks b then slot_ok h (idx_to_price b i) (ladder b s ! i) (L s i)
            else L s i = [])"

text \<open>Every queued key is a live order of that side and price, and every live order is queued.\<close>

definition owner_ok :: "('k \<rightharpoonup> book_order) \<Rightarrow> ('k, 's) order_book \<Rightarrow> 'k queues \<Rightarrow> bool" where
  "owner_ok v b L \<longleftrightarrow>
     (\<forall>s i k. k \<in> set (L s i) \<longrightarrow>
        (\<exists>x. v k = Some x \<and> bo_side x = s \<and> bo_price x = idx_to_price b i)) \<and>
     (\<forall>k \<in> dom v. \<exists>s i. k \<in> set (L s i))"

definition index_ok :: "('k \<rightharpoonup> book_order) \<Rightarrow> (order_id \<rightharpoonup> 'k) \<Rightarrow> bool" where
  "index_ok v m \<longleftrightarrow> (\<forall>oid k. m oid = Some k \<longleftrightarrow> (\<exists>x. v k = Some x \<and> bo_id x = oid))"

definition best_at :: "(nat \<Rightarrow> 'k list) \<Rightarrow> side \<Rightarrow> nat option \<Rightarrow> bool" where
  "best_at Ls s r \<longleftrightarrow>
     (case r of
        None \<Rightarrow> \<forall>i. Ls i = []
      | Some i \<Rightarrow> Ls i \<noteq> [] \<and> (\<forall>j. better s j i \<longrightarrow> Ls j = []))"

definition book_ok ::
  "('k, 's) arena_ops \<Rightarrow> ('s \<Rightarrow> bool) \<Rightarrow> ('k, 's) order_book \<Rightarrow> 'k queues \<Rightarrow> bool" where
  "book_ok sm sm_inv b L \<longleftrightarrow>
     sm_inv (b_arena b) \<and> ladder_ok (sm_get sm (b_arena b)) b L \<and>
     owner_ok (hview (sm_get sm (b_arena b))) b L \<and>
     index_ok (hview (sm_get sm (b_arena b))) (b_id_to_key b) \<and>
     (\<forall>s. best_at (L s) s (best_ptr b s))"

lemma ladder_simps [simp]:
  "ladder (b\<lparr>b_arena := a\<rparr>) s = ladder b s" "ladder (b\<lparr>b_id_to_key := m\<rparr>) s = ladder b s"
  "ladder (set_ladder b s x) s' = (if s' = s then x else ladder b s')"
  "ladder (set_best b s r) s' = ladder b s'"
  "best_ptr (b\<lparr>b_arena := a\<rparr>) s = best_ptr b s" "best_ptr (b\<lparr>b_id_to_key := m\<rparr>) s = best_ptr b s"
  "best_ptr (set_ladder b s' x) s = best_ptr b s"
  "best_ptr (set_best b s r) s' = (if s' = s then r else best_ptr b s')"
  "b_arena (set_ladder b s x) = b_arena b" "b_arena (set_best b s r) = b_arena b"
  "b_id_to_key (set_ladder b s x) = b_id_to_key b" "b_id_to_key (set_best b s r) = b_id_to_key b"
  "b_tick_floor (set_ladder b s x) = b_tick_floor b" "b_tick_floor (set_best b s r) = b_tick_floor b"
  "b_symbol (set_ladder b s x) = b_symbol b" "b_symbol (set_best b s r) = b_symbol b"
  "b_bids (set_best b s r) = b_bids b" "b_asks (set_best b s r) = b_asks b"
  by (cases s; cases s'; simp)+

lemma idx_to_price_cong [simp]:
  "idx_to_price (b\<lparr>b_arena := a\<rparr>) i = idx_to_price b i"
  "idx_to_price (b\<lparr>b_id_to_key := m\<rparr>) i = idx_to_price b i"
  "idx_to_price (set_ladder b s x) i = idx_to_price b i"
  "idx_to_price (set_best b s r) i = idx_to_price b i"
  by (simp_all add: idx_to_price_def)

lemma better_trans: "better s i j \<Longrightarrow> better s j k \<Longrightarrow> better s i k"
  by (cases s) auto

lemma better_irrefl [simp]: "\<not> better s i i"
  by (cases s) auto

lemma better_total: "i \<noteq> j \<Longrightarrow> better s i j \<or> better s j i"
  by (cases s) auto

lemma better_asym: "better s i j \<Longrightarrow> \<not> better s j i"
  by (cases s) auto

lemma ladder_okD:
  assumes "ladder_ok h b L"
  shows "length (ladder b s) = num_ticks b" "int (num_ticks b) \<le> i64_max"
    "i < num_ticks b \<Longrightarrow> slot_ok h (idx_to_price b i) (ladder b s ! i) (L s i)"
    "L s i \<noteq> [] \<Longrightarrow> i < num_ticks b" "sint (b_tick_floor b) + int (num_ticks b) \<le> 2 ^ 63"
proof -
  show "length (ladder b s) = num_ticks b"
    using assms by (cases s) (simp_all add: ladder_ok_def)
  show "int (num_ticks b) \<le> i64_max" "sint (b_tick_floor b) + int (num_ticks b) \<le> 2 ^ 63"
    using assms unfolding ladder_ok_def by blast+
  show "i < num_ticks b \<Longrightarrow> slot_ok h (idx_to_price b i) (ladder b s ! i) (L s i)"
    using assms by (simp add: ladder_ok_def)
  show "L s i \<noteq> [] \<Longrightarrow> i < num_ticks b"
    using assms by (metis ladder_ok_def)
qed

lemma sint_idx_to_price:
  assumes "ladder_ok h b L" "i < num_ticks b"
  shows "sint (idx_to_price b i) = sint (b_tick_floor b) + int i"
proof -
  have "int i \<le> i64_max"
    using ladder_okD(2) [OF assms(1)] assms(2) by simp
  moreover have "in_i64 (sint (b_tick_floor b) + int i)"
    using ladder_okD(5) [OF assms(1)] assms(2) sint_ge [of "b_tick_floor b"] by (simp add: in_i64_def)
  moreover have "of_nat i = i64_of (int i)"
    by (simp add: i64_of_def)
  ultimately show ?thesis
    by (simp add: idx_to_price_def i64_add_eq sint_i64_of in_i64_def)
qed

lemma price_to_idx_to_price:
  assumes "ladder_ok h b L" "i < num_ticks b"
  shows "price_to_idx b (idx_to_price b i) = Some i"
proof -
  have "int i \<le> i64_max"
    using ladder_okD(2) [OF assms(1)] assms(2) by linarith
  then show ?thesis
    unfolding price_to_idx_iff using sint_idx_to_price [OF assms] assms(2) by blast
qed

lemma idx_to_price_inj:
  assumes "ladder_ok h b L" "i < num_ticks b" "j < num_ticks b" "idx_to_price b i = idx_to_price b j"
  shows "i = j"
proof -
  have "Some i = Some j"
    unfolding price_to_idx_to_price [OF assms(1,2), symmetric] price_to_idx_to_price [OF assms(1,3), symmetric]
    by (simp only: assms(4))
  then show ?thesis by simp
qed

lemma slot_ok_occupied: "slot_ok h p slot ks \<Longrightarrow> occupied slot \<longleftrightarrow> ks \<noteq> []"
  by (cases slot) (auto simp: level_ok_empty)

lemma slot_ok_frame: "slot_ok h p slot ks \<Longrightarrow> (\<And>k. k \<in> set ks \<Longrightarrow> h' k = h k) \<Longrightarrow> slot_ok h' p slot ks"
  using level_ok_frame [of h _ ks h'] by (cases slot) auto

text \<open>A key is queued in one place only: its order's side and price say where.\<close>

lemma owner_unique:
  assumes "ladder_ok h b L" "owner_ok v b L" "k \<in> set (L s i)" "k \<in> set (L s' j)"
  shows "s' = s \<and> j = i"
proof -
  have own: "\<And>s i. k \<in> set (L s i) \<Longrightarrow> \<exists>x. v k = Some x \<and> bo_side x = s \<and> bo_price x = idx_to_price b i"
    using assms(2) by (simp add: owner_ok_def)
  have "s' = s" "idx_to_price b j = idx_to_price b i"
    using own [OF assms(3)] own [OF assms(4)] by auto
  moreover have "i < num_ticks b" "j < num_ticks b"
    using assms(3,4) by (metis empty_iff list.set(1) ladder_okD(4) [OF assms(1)])+
  ultimately show ?thesis
    using idx_to_price_inj [OF assms(1), of j i] by simp
qed

end
