(* ===== verification/Book_Apply.thy ===== *)
theory Book_Apply
  imports Order_Book
begin

text \<open>
  The state transition of the order book (\<open>order-book/src/apply.rs\<close>): new orders are validated,
  checked for full fillability when fill-or-kill, matched against the opposite ladder and rested;
  cancels unlink one order. A result \<open>None\<close> is a panic of the source (an index out of range or a
  dead arena key) or, for the matching loop, not returning.
\<close>

subsection \<open>Helpers\<close>

datatype book_error =
    BePriceOutOfRange price
  | BeInvalidQty qty
  | BeOrderNotFound order_id
  | BeWrongAccount order_id account_id
  | BeArenaFull

definition book_top_event :: "('k, 's) order_book \<Rightarrow> u64 \<Rightarrow> symbol \<Rightarrow> engine_event option" where
  "book_top_event b seq symb = do {
     bid \<leftarrow> best_bid b;
     ask \<leftarrow> best_ask b;
     Some (BookTop seq symb bid ask)
   }"

definition get_level_mut :: "('k, 's) order_book \<Rightarrow> side \<Rightarrow> nat \<Rightarrow> 'k price_level option option" where
  "get_level_mut b side idx = list_get (ladder b side) idx"

definition fill_level_head ::
  "('k, 's) arena_ops \<Rightarrow> ('k, 's) order_book \<Rightarrow> side \<Rightarrow> nat \<Rightarrow> qty \<Rightarrow> (bool \<times> ('k, 's) order_book) option" where
  "fill_level_head sm b side idx fill_qty = do {
     level \<leftarrow> list_get (ladder b side) idx;
     (case level of
        None \<Rightarrow> Some (False, b)
      | Some l \<Rightarrow> do {
          (filled, l, arena) \<leftarrow> fill_head sm l fill_qty (b_arena b);
          Some (filled, set_ladder (b\<lparr>b_arena := arena\<rparr>) side ((ladder b side)[idx := Some l]))
        })
   }"

definition cancel_resting_head ::
  "('k, 's) arena_ops \<Rightarrow> ('k, 's) order_book \<Rightarrow> side \<Rightarrow> nat \<Rightarrow>
   (order_id option \<times> ('k, 's) order_book) option" where
  "cancel_resting_head sm b side idx = do {
     level \<leftarrow> list_get (ladder b side) idx;
     (case level of
        None \<Rightarrow> Some (None, b)
      | Some l \<Rightarrow>
          (case peek_head l of
             None \<Rightarrow> Some (None, b)
           | Some head_key \<Rightarrow> do {
               (removed, l, arena) \<leftarrow> level_remove sm l head_key (b_arena b);
               let b = set_ladder (b\<lparr>b_arena := arena\<rparr>) side ((ladder b side)[idx := Some l]);
               Some (map_option o_id removed, b)
             }))
   }"

definition is_level_empty :: "('k, 's) order_book \<Rightarrow> side \<Rightarrow> nat \<Rightarrow> bool option" where
  "is_level_empty b side idx = do {
     level \<leftarrow> list_get (ladder b side) idx;
     Some (case level of Some l \<Rightarrow> level_is_empty l | None \<Rightarrow> True)
   }"

fun clear_empty_best :: "('k, 's) order_book \<Rightarrow> side \<Rightarrow> nat \<Rightarrow> ('k, 's) order_book option" where
  "clear_empty_best b Buy idx =
     (if b_best_bid_idx b = Some idx then scan_best_bid_down b else Some b)"
| "clear_empty_best b Sell idx =
     (if b_best_ask_idx b = Some idx then scan_best_ask_up b else Some b)"

subsection \<open>The matching loop\<close>

text \<open>One turn of the loop. \<open>Break\<close> leaves it, \<open>Continue\<close> goes round again.\<close>

datatype 'a flow = Break 'a | Continue 'a

fun aggressor_best :: "('k, 's) order_book \<Rightarrow> side \<Rightarrow> order_type \<Rightarrow> price \<Rightarrow> (nat \<times> bool) option" where
  "aggressor_best b Buy order_type price =
     map_option (\<lambda>idx. (idx, order_type = Market \<or> sint (idx_to_price b idx) \<le> sint price))
       (b_best_ask_idx b)"
| "aggressor_best b Sell order_type price =
     map_option (\<lambda>idx. (idx, order_type = Market \<or> sint price \<le> sint (idx_to_price b idx)))
       (b_best_bid_idx b)"

definition match_turn ::
  "('k, 's) arena_ops \<Rightarrow> u64 \<Rightarrow> u64 \<Rightarrow> symbol \<Rightarrow> side \<Rightarrow> price \<Rightarrow> order_id \<Rightarrow> account_id \<Rightarrow> order_type \<Rightarrow>
   qty \<times> ('k, 's) order_book \<times> engine_event list \<Rightarrow>
   (qty \<times> ('k, 's) order_book \<times> engine_event list) flow option" where
  "match_turn sm seq ts_ns symb aggressor_side aggressor_price aggressor_order_id
       aggressor_account order_type st =
     (case st of (qty_remaining, b, events) \<Rightarrow>
      if qty_remaining = 0 then Some (Break st)
      else case aggressor_best b aggressor_side order_type aggressor_price of
        None \<Rightarrow> Some (Break st)
      | Some (best_idx, crosses) \<Rightarrow>
        if \<not> crosses then Some (Break st)
        else do {
          let maker_side = opposite aggressor_side;
          level \<leftarrow> get_level_mut b maker_side best_idx;
          (case level of
             None \<Rightarrow> Some (Break st)
           | Some l \<Rightarrow>
          (case peek_head l of
             None \<Rightarrow> do {
               b \<leftarrow> clear_empty_best b maker_side best_idx;
               Some (Continue (qty_remaining, b, events))
             }
           | Some maker_key \<Rightarrow> do {
               maker \<leftarrow> sm_get sm (b_arena b) maker_key;
               let maker_order_id = o_id maker;
               let maker_account = o_account maker;
               let maker_price = o_price maker;
               if maker_account = aggressor_account then do {
                 (cancelled, b) \<leftarrow> cancel_resting_head sm b maker_side best_idx;
                 let (b, events) =
                   (case cancelled of
                      Some cancelled_id \<Rightarrow>
                        (b\<lparr>b_id_to_key := (b_id_to_key b)(cancelled_id := None)\<rparr>,
                         events @ [Cancelled seq cancelled_id])
                    | None \<Rightarrow> (b, events));
                 emptied \<leftarrow> is_level_empty b maker_side best_idx;
                 b \<leftarrow> (if emptied then clear_empty_best b maker_side best_idx else Some b);
                 Some (Continue (qty_remaining, b, events))
               } else do {
                 let maker_qty = o_qty_remaining maker;
                 let fill_qty = (if qty_remaining < maker_qty then qty_remaining else maker_qty);
                 (maker_fully_filled, b) \<leftarrow> fill_level_head sm b maker_side best_idx fill_qty;
                 let qty_remaining = qty_remaining - fill_qty;
                 let maker_remaining = maker_qty - fill_qty;
                 let events = events @ [Trade
                   \<lparr>tr_seq = seq, tr_ts_ns = ts_ns, tr_symbol = symb, tr_price = maker_price,
                    tr_qty = fill_qty, tr_maker_order = maker_order_id,
                    tr_taker_order = aggressor_order_id, tr_maker_order_id = maker_order_id,
                    tr_taker_order_id = aggressor_order_id, tr_maker_acct = maker_account,
                    tr_taker_acct = aggressor_account, tr_maker_side = maker_side,
                    tr_maker_remaining_qty = maker_remaining,
                    tr_taker_remaining_qty = qty_remaining\<rparr>];
                 b \<leftarrow>
                   (if maker_fully_filled then do {
                      let b = b\<lparr>b_id_to_key := (b_id_to_key b)(maker_order_id := None)\<rparr>;
                      emptied \<leftarrow> is_level_empty b maker_side best_idx;
                      if emptied then clear_empty_best b maker_side best_idx else Some b
                    } else Some b);
                 Some (Continue (qty_remaining, b, events))
               }
             }))
        })"

text \<open>The loop itself; not returning is \<open>None\<close>.\<close>

partial_function (option) match_against_book ::
  "('k, 's) arena_ops \<Rightarrow> u64 \<Rightarrow> u64 \<Rightarrow> symbol \<Rightarrow> side \<Rightarrow> price \<Rightarrow> order_id \<Rightarrow> account_id \<Rightarrow> order_type \<Rightarrow>
   qty \<times> ('k, 's) order_book \<times> engine_event list \<Rightarrow>
   (qty \<times> ('k, 's) order_book \<times> engine_event list) option" where
  [code]: "match_against_book sm seq ts_ns symb aggressor_side aggressor_price aggressor_order_id
       aggressor_account order_type st = do {
     r \<leftarrow> match_turn sm seq ts_ns symb aggressor_side aggressor_price aggressor_order_id
            aggressor_account order_type st;
     (case r of
        Break st \<Rightarrow> Some st
      | Continue st \<Rightarrow> match_against_book sm seq ts_ns symb aggressor_side aggressor_price
          aggressor_order_id aggressor_account order_type st)
   }"

subsection \<open>Fill-or-kill check\<close>

text \<open>The inner loop follows the links of one level, the outer one visits the ladder away from
  the touch.\<close>

partial_function (option) fillable_level ::
  "('k, 's) arena_ops \<Rightarrow> 's \<Rightarrow> account_id \<Rightarrow> u64 \<Rightarrow> 'k option \<Rightarrow> u64 option" where
  [code]: "fillable_level sm arena account remaining cursor =
     (case cursor of
        None \<Rightarrow> Some remaining
      | Some key \<Rightarrow> do {
          order \<leftarrow> sm_get sm arena key;
          if o_account order \<noteq> account then
            let remaining = u64_saturating_sub remaining (o_qty_remaining order) in
            if remaining = 0 then Some remaining
            else fillable_level sm arena account remaining (o_next order)
          else fillable_level sm arena account remaining (o_next order)
        })"

fun crosses_at :: "side \<Rightarrow> order_type \<Rightarrow> price \<Rightarrow> price \<Rightarrow> bool" where
  "crosses_at Buy order_type price level_price \<longleftrightarrow> order_type = Market \<or> sint level_price \<le> sint price"
| "crosses_at Sell order_type price level_price \<longleftrightarrow> order_type = Market \<or> sint price \<le> sint level_price"

fun fillable_steps ::
  "('k, 's) arena_ops \<Rightarrow> ('k, 's) order_book \<Rightarrow> side \<Rightarrow> price \<Rightarrow> account_id \<Rightarrow> order_type \<Rightarrow>
   u64 \<Rightarrow> nat list \<Rightarrow> u64 option" where
  "fillable_steps sm b side price account order_type remaining [] = Some remaining"
| "fillable_steps sm b side price account order_type remaining (step # steps) =
     (if remaining = 0 then Some remaining
      else
        let lad = ladder b (opposite side);
            idx = (case side of Buy \<Rightarrow> step | Sell \<Rightarrow> length lad - 1 - step) in
        if \<not> crosses_at side order_type price (idx_to_price b idx) then Some remaining
        else do {
          slot \<leftarrow> list_get lad idx;
          (case slot of
             None \<Rightarrow> fillable_steps sm b side price account order_type remaining steps
           | Some level \<Rightarrow> do {
               remaining \<leftarrow> fillable_level sm (b_arena b) account remaining (peek_head level);
               fillable_steps sm b side price account order_type remaining steps
             })
        })"

definition can_fully_fill ::
  "('k, 's) arena_ops \<Rightarrow> ('k, 's) order_book \<Rightarrow> side \<Rightarrow> price \<Rightarrow> qty \<Rightarrow> account_id \<Rightarrow> order_type \<Rightarrow>
   bool option" where
  "can_fully_fill sm b side price q account order_type = do {
     remaining \<leftarrow> fillable_steps sm b side price account order_type q
                    [0..<length (ladder b (opposite side))];
     Some (remaining = 0)
   }"

subsection \<open>New orders\<close>

text \<open>Resting the unfilled remainder of a limit order.\<close>

definition rest_order ::
  "('k, 's) arena_ops \<Rightarrow> ('k, 's) order_book \<Rightarrow> u64 \<Rightarrow> u64 \<Rightarrow> account_id \<Rightarrow> client_order_id \<Rightarrow> symbol \<Rightarrow>
   side \<Rightarrow> price \<Rightarrow> nat \<Rightarrow> qty \<Rightarrow> engine_event list \<Rightarrow> (('k, 's) order_book \<times> engine_event list) option" where
  "rest_order sm b seq ts_ns account client_order_id symb side price price_idx qty_remaining events =
     (if sm_capacity sm (b_arena b) \<le> sm_len sm (b_arena b) then
        Some (b, events @ [Rejected seq seq account client_order_id ArenaFull])
      else do {
        let resting = resting_order_new seq account qty_remaining side price seq;
        let (key, arena) = sm_insert sm (b_arena b) resting;
        let b = b\<lparr>b_arena := arena, b_id_to_key := (b_id_to_key b)(seq \<mapsto> key)\<rparr>;
        level_slot \<leftarrow> list_get (ladder b side) price_idx;
        let pl = (case level_slot of Some l \<Rightarrow> l | None \<Rightarrow> level_new price);
        (pl, arena) \<leftarrow> push_back sm pl key (b_arena b);
        let b = set_ladder (b\<lparr>b_arena := arena\<rparr>) side ((ladder b side)[price_idx := Some pl]);
        let b = (case side of
                   Buy \<Rightarrow> refresh_best_bid_up b price_idx
                 | Sell \<Rightarrow> refresh_best_ask_down b price_idx);
        let events = events @ [Accepted seq seq ts_ns symb account client_order_id side price qty_remaining];
        top \<leftarrow> book_top_event b seq symb;
        Some (b, events @ [top])
      })"

definition apply_new_order ::
  "('k, 's) arena_ops \<Rightarrow> ('k, 's) order_book \<Rightarrow> u64 \<Rightarrow> u64 \<Rightarrow> account_id \<Rightarrow> client_order_id \<Rightarrow> symbol \<Rightarrow>
   side \<Rightarrow> price \<Rightarrow> qty \<Rightarrow> order_type \<Rightarrow> time_in_force \<Rightarrow> (('k, 's) order_book \<times> engine_event list) option" where
  "apply_new_order sm b seq ts_ns account client_order_id symb side price q order_type time_in_force =
     (if q = 0 then Some (b, [Rejected seq seq account client_order_id InvalidQty])
      else
        case (if order_type = Limit then price_to_idx b price else Some 0) of
          None \<Rightarrow> Some (b, [Rejected seq seq account client_order_id PriceOutOfRange])
        | Some price_idx \<Rightarrow> do {
            fok_ok \<leftarrow> (if time_in_force = Fok then can_fully_fill sm b side price q account order_type
                       else Some True);
            if \<not> fok_ok then
              Some (b, [Rejected seq seq account client_order_id FokNotFullyFillable])
            else do {
              (qty_remaining, b, events) \<leftarrow>
                match_against_book sm seq ts_ns symb side price seq account order_type (q, b, []);
              if qty_remaining = 0 then do {
                top \<leftarrow> book_top_event b seq symb;
                Some (b, events @ [top])
              }
              else if time_in_force = Ioc \<or> time_in_force = Fok \<or> order_type = Market then do {
                let events = (if qty_remaining < q then events
                              else events @ [Rejected seq seq account client_order_id IocNoMatch]);
                let events = (if qty_remaining < q then events @ [Cancelled seq seq] else events);
                top \<leftarrow> book_top_event b seq symb;
                Some (b, events @ [top])
              }
              else rest_order sm b seq ts_ns account client_order_id symb side price price_idx
                     qty_remaining events
            }
          })"

subsection \<open>Cancels\<close>

definition apply_cancel ::
  "('k, 's) arena_ops \<Rightarrow> ('k, 's) order_book \<Rightarrow> u64 \<Rightarrow> account_id \<Rightarrow> order_id \<Rightarrow>
   (('k, 's) order_book \<times> engine_event list) option" where
  "apply_cancel sm b seq account oid =
     (case b_id_to_key b oid of
        None \<Rightarrow> Some (b, [Rejected seq oid account 0 OrderNotFound])
      | Some key \<Rightarrow> do {
          let b0 = b\<lparr>b_id_to_key := (b_id_to_key b)(oid := None)\<rparr>;
          order \<leftarrow> sm_get sm (b_arena b0) key;
          if o_account order \<noteq> account then
            Some (b0\<lparr>b_id_to_key := (b_id_to_key b0)(oid \<mapsto> key)\<rparr>,
                  [Rejected seq oid account 0 WrongAccount])
          else
            let side = o_side order in
            case price_to_idx b0 (o_price order) of
              None \<Rightarrow> Some (b0, [])
            | Some price_idx \<Rightarrow> do {
                slot \<leftarrow> list_get (ladder b0 side) price_idx;
                b1 \<leftarrow>
                  (case slot of
                     None \<Rightarrow> Some b0
                   | Some level \<Rightarrow> do {
                       (_, level, arena) \<leftarrow> level_remove sm level key (b_arena b0);
                       let b1 = set_ladder (b0\<lparr>b_arena := arena\<rparr>) side
                                  ((ladder b0 side)[price_idx := Some level]);
                       if level_is_empty level then
                         (case side of
                            Buy \<Rightarrow> if b_best_bid_idx b1 = Some price_idx then scan_best_bid_down b1
                                   else Some b1
                          | Sell \<Rightarrow> if b_best_ask_idx b1 = Some price_idx then scan_best_ask_up b1
                                    else Some b1)
                       else Some b1
                     });
                Some (b1, [Cancelled seq oid])
              }
        })"

definition apply_cmd ::
  "('k, 's) arena_ops \<Rightarrow> ('k, 's) order_book \<Rightarrow> sequenced_command \<Rightarrow>
   (('k, 's) order_book \<times> engine_event list) option" where
  "apply_cmd sm b cmd =
     (case sc_cmd cmd of
        NewOrder account client_order_id symb side price q order_type tif \<Rightarrow>
          apply_new_order sm b (sc_seq cmd) (sc_ts_ns cmd) account client_order_id symb side price q
            order_type tif
      | Cancel account oid \<Rightarrow> apply_cancel sm b (sc_seq cmd) account oid
      | Liquidate _ _ \<Rightarrow> Some (b, [])
      | FreezeAccount _ \<Rightarrow> Some (b, []))"

end
