(* ===== verification/Book_Invariant.thy ===== *)
theory Book_Invariant
  imports Book_Apply
begin

text \<open>
  Every primitive step of the book changes the queue at one tick of one side. This theory shows
  what each of them does to the ghost queues of \<open>book_ok\<close>: unlinking or filling the head of the
  best level, unlinking an arbitrary order, and appending a new order, each followed by the code's
  own repair of the best pointers.
\<close>

subsection \<open>Scanning for the best level\<close>

lemma scan_down_ok:
  assumes "\<And>i. i < length lad \<Longrightarrow> occupied (lad ! i) \<longleftrightarrow> Ls i \<noteq> []" "start < length lad"
  shows "\<exists>r. scan_down lad start = Some r \<and>
    (case r of None \<Rightarrow> \<forall>j\<le> start. Ls j = []
     | Some i \<Rightarrow> i \<le> start \<and> Ls i \<noteq> [] \<and> (\<forall>j. i < j \<and> j \<le> start \<longrightarrow> Ls j = []))"
  using assms(2)
proof (induction start)
  case 0
  then show ?case
    using assms(1) [of 0] by auto
next
  case (Suc n)
  then obtain r where r: "scan_down lad n = Some r"
    "case r of None \<Rightarrow> \<forall>j\<le>n. Ls j = []
     | Some i \<Rightarrow> i \<le> n \<and> Ls i \<noteq> [] \<and> (\<forall>j. i < j \<and> j \<le> n \<longrightarrow> Ls j = [])"
    by auto
  show ?case
  proof (cases "occupied (lad ! Suc n)")
    case True
    then show ?thesis
      using assms(1) [of "Suc n"] Suc.prems by auto
  next
    case False
    then have "Ls (Suc n) = []"
      using assms(1) [of "Suc n"] Suc.prems by simp
    then show ?thesis
      using False r Suc.prems by (auto simp: le_Suc_eq split: option.splits)
  qed
qed

lemma scan_up_ok:
  assumes "\<And>i. i < length lad \<Longrightarrow> occupied (lad ! i) \<longleftrightarrow> Ls i \<noteq> []"
  shows "case scan_up lad start of None \<Rightarrow> \<forall>j\<ge> start. j < length lad \<longrightarrow> Ls j = []
     | Some i \<Rightarrow> start \<le> i \<and> i < length lad \<and> Ls i \<noteq> [] \<and> (\<forall>j. start \<le> j \<and> j < i \<longrightarrow> Ls j = [])"
  using assms
proof (induction lad start rule: scan_up.induct)
  case (1 lad i)
  show ?case
  proof (cases "i < length lad \<and> \<not> occupied (lad ! i)")
    case True
    then have i: "Ls i = []"
      using 1(2) by blast
    have "scan_up lad i = scan_up lad (Suc i)"
      using True by (simp add: scan_up.simps [of lad i])
    moreover have "case scan_up lad (Suc i) of None \<Rightarrow> \<forall>j\<ge>Suc i. j < length lad \<longrightarrow> Ls j = []
     | Some k \<Rightarrow> Suc i \<le> k \<and> k < length lad \<and> Ls k \<noteq> [] \<and> (\<forall>j. Suc i \<le> j \<and> j < k \<longrightarrow> Ls j = [])"
      using 1 True by blast
    ultimately show ?thesis
      using i by (auto split: option.splits) (metis le_antisym not_less_eq_eq)+
  next
    case False
    then show ?thesis
      using 1(2) by (auto simp: scan_up.simps [of lad i])
  qed
qed

lemma ladder_ok_occupied:
  "ladder_ok h b L \<Longrightarrow> i < length (ladder b s) \<Longrightarrow> occupied (ladder b s ! i) \<longleftrightarrow> L s i \<noteq> []"
  using ladder_okD(1,3) slot_ok_occupied by metis

text \<open>After the level of the best pointer became empty, the scan puts the pointer on the best
  occupied level, or clears it.\<close>

lemma clear_empty_best_ok:
  assumes ok: "ladder_ok h b L" and i: "best_ptr b s = Some i" "i < num_ticks b"
    and b: "\<And>j. better s j i \<Longrightarrow> L s j = []"
  obtains r where "clear_empty_best b s i = Some (set_best b s r)" "best_at (L s) s r"
proof (cases s)
  case Buy
  obtain r where r: "scan_down (b_bids b) i = Some r"
    "case r of None \<Rightarrow> \<forall>j\<le>i. L Buy j = []
     | Some k \<Rightarrow> k \<le> i \<and> L Buy k \<noteq> [] \<and> (\<forall>j. k < j \<and> j \<le> i \<longrightarrow> L Buy j = [])"
    using scan_down_ok [of "b_bids b" "L Buy" i] ladder_ok_occupied [OF ok, of _ Buy] i(2) by auto
  have "best_at (L Buy) Buy r"
    using r(2) b Buy by (auto simp: best_at_def not_le [symmetric] split: option.splits)
  then show ?thesis
    using that [of r] i(1) r(1) Buy by (simp add: scan_best_bid_down_def)
next
  case Sell
  let ?r = "scan_up (b_asks b) i"
  have r: "case ?r of None \<Rightarrow> \<forall>j\<ge>i. j < length (b_asks b) \<longrightarrow> L Sell j = []
     | Some k \<Rightarrow> i \<le> k \<and> k < length (b_asks b) \<and> L Sell k \<noteq> [] \<and> (\<forall>j. i \<le> j \<and> j < k \<longrightarrow> L Sell j = [])"
    by (rule scan_up_ok) (use ladder_ok_occupied [OF ok, of _ Sell] in simp)
  moreover have "L Sell j = []" if "length (b_asks b) \<le> j" for j
    using ladder_okD(1,4) [OF ok, where s = Sell] that by (metis ladder.simps(2) not_le)
  ultimately have "best_at (L Sell) Sell ?r"
    using b Sell by (auto simp: best_at_def split: option.splits) (metis not_le)+
  then show ?thesis
    using that [of ?r] i(1) Sell by (simp add: scan_best_ask_up_def)
qed

subsection \<open>Changing the queue at one tick\<close>

lemma ladder_ok_upd:
  assumes ok: "ladder_ok h b L" and i: "i < num_ticks b"
    and l: "level_ok h' l ks" "l_price l = idx_to_price b i"
    and frame: "\<And>s' j k. (s', j) \<noteq> (s, i) \<Longrightarrow> k \<in> set (L s' j) \<Longrightarrow> h' k = h k"
    and b': "ladder b' s = (ladder b s)[i := Some l]" "ladder b' (opposite s) = ladder b (opposite s)"
      "b_tick_floor b' = b_tick_floor b"
  shows "ladder_ok h' b' (upd_queue L s i ks)"
proof -
  have len: "length (b_bids b') = num_ticks b" "length (b_asks b') = num_ticks b"
    using b'(1,2) ladder_okD(1) [OF ok, of Buy] ladder_okD(1) [OF ok, of Sell] by (cases s; simp)+
  have ip: "idx_to_price b' j = idx_to_price b j" for j
    using b'(3) by (simp add: idx_to_price_def)
  have "slot_ok h' (idx_to_price b j) (ladder b' s' ! j) (upd_queue L s i ks s' j)" if j: "j < num_ticks b" for s' j
  proof (cases "(s', j) = (s, i)")
    case True
    then show ?thesis
      using l i b'(1) ladder_okD(1) [OF ok, of s] by simp
  next
    case False
    then have "ladder b' s' ! j = ladder b s' ! j"
      using b'(1,2) by (cases s; cases s'; auto)
    then show ?thesis
      using False slot_ok_frame [OF ladder_okD(3) [OF ok j, of s'] frame [of s' j]] by auto
  qed
  moreover have "upd_queue L s i ks s' j = []" if "\<not> j < num_ticks b" for s' j
    using that i ladder_okD(4) [OF ok, of s' j] by auto
  ultimately show ?thesis
    using ladder_okD(2,5) [OF ok] len b'(3) by (simp add: ladder_ok_def ip)
qed

lemma owner_okD:
  assumes "owner_ok v b L"
  shows "k \<in> set (L s i) \<Longrightarrow> \<exists>x. v k = Some x \<and> bo_side x = s \<and> bo_price x = idx_to_price b i"
    and "v k = Some x \<Longrightarrow> \<exists>i. k \<in> set (L (bo_side x) i) \<and> bo_price x = idx_to_price b i"
proof -
  show *: "\<exists>x. v k = Some x \<and> bo_side x = s \<and> bo_price x = idx_to_price b i" if "k \<in> set (L s i)" for s i
    using assms that by (simp add: owner_ok_def)
  assume x: "v k = Some x"
  then obtain s i where "k \<in> set (L s i)"
    using assms unfolding owner_ok_def by blast
  then show "\<exists>i. k \<in> set (L (bo_side x) i) \<and> bo_price x = idx_to_price b i"
    using * [of s i] x by auto
qed

lemma owner_ok_remove:
  assumes lad: "ladder_ok h b L" and own: "owner_ok v b L"
    and L: "L s i = xs @ k # ys" and dist: "distinct (L s i)"
  shows "owner_ok (v(k := None)) b (upd_queue L s i (xs @ ys))"
  unfolding owner_ok_def
proof (intro conjI allI impI ballI)
  fix s' j k'
  assume k': "k' \<in> set (upd_queue L s i (xs @ ys) s' j)"
  then have in_L: "k' \<in> set (L s' j)"
    using L by (auto split: if_splits)
  moreover have "k' \<noteq> k"
    using k' dist owner_unique [OF lad own _ in_L, of s i] L by (auto split: if_splits)
  ultimately show "\<exists>x. (v(k := None)) k' = Some x \<and> bo_side x = s' \<and> bo_price x = idx_to_price b j"
    using own by (simp add: owner_ok_def)
next
  fix k'
  assume "k' \<in> dom (v(k := None))"
  then obtain x where "v k' = Some x" "k' \<noteq> k"
    by (auto split: if_splits)
  then obtain s' j where "k' \<in> set (L s' j)"
    using owner_okD(2) [OF own] by blast
  then have "k' \<in> set (upd_queue L s i (xs @ ys) s' j)"
    using L \<open>k' \<noteq> k\<close> by auto
  then show "\<exists>s' j. k' \<in> set (upd_queue L s i (xs @ ys) s' j)"
    by blast
qed

lemma owner_ok_change:
  assumes own: "owner_ok v b L" and x: "v k = Some x" "bo_side y = bo_side x" "bo_price y = bo_price x"
  shows "owner_ok (v(k \<mapsto> y)) b L"
  unfolding owner_ok_def
proof (intro conjI allI impI ballI)
  fix s i k'
  assume "k' \<in> set (L s i)"
  then show "\<exists>z. (v(k \<mapsto> y)) k' = Some z \<and> bo_side z = s \<and> bo_price z = idx_to_price b i"
    using owner_okD(1) [OF own] x by (metis fun_upd_apply option.inject)
next
  fix k'
  assume "k' \<in> dom (v(k \<mapsto> y))"
  then have "k' \<in> dom v"
    using x(1) by (auto split: if_splits)
  then show "\<exists>s i. k' \<in> set (L s i)"
    using owner_okD(2) [OF own] by blast
qed

lemma owner_ok_push:
  assumes lad: "ladder_ok h b L" and own: "owner_ok v b L" and k: "v k = None"
    and x: "bo_side x = s" "bo_price x = idx_to_price b i"
  shows "owner_ok (v(k \<mapsto> x)) b (upd_queue L s i (L s i @ [k]))"
  unfolding owner_ok_def
proof (intro conjI allI impI ballI)
  fix s' j k'
  assume k': "k' \<in> set (upd_queue L s i (L s i @ [k]) s' j)"
  show "\<exists>z. (v(k \<mapsto> x)) k' = Some z \<and> bo_side z = s' \<and> bo_price z = idx_to_price b j"
  proof (cases "k' \<in> set (L s' j)")
    case True
    then show ?thesis
      using own k unfolding owner_ok_def by (metis fun_upd_other option.distinct(1))
  next
    case False
    then show ?thesis
      using k' x by (auto split: if_splits)
  qed
next
  fix k'
  assume "k' \<in> dom (v(k \<mapsto> x))"
  then consider "k' = k" | "k' \<in> dom v"
    by auto
  then show "\<exists>s' j. k' \<in> set (upd_queue L s i (L s i @ [k]) s' j)"
  proof cases
    case 1
    then show ?thesis
      by (intro exI [of _ s] exI [of _ i]) simp
  next
    case 2
    then obtain s' j where "k' \<in> set (L s' j)"
      using owner_okD(2) [OF own] by blast
    then show ?thesis
      by (intro exI [of _ s'] exI [of _ j]) auto
  qed
qed

lemma owner_ok_cong:
  "b_tick_floor b' = b_tick_floor b \<Longrightarrow> owner_ok v b' L = owner_ok v b L"
  by (simp add: owner_ok_def idx_to_price_def)

lemma index_ok_remove:
  assumes "index_ok v m" "v k = Some x"
  shows "index_ok (v(k := None)) (m(bo_id x := None))"
  using assms unfolding index_ok_def by (auto split: if_splits) (metis option.inject)+

lemma index_ok_change:
  assumes "index_ok v m" "v k = Some x" "bo_id y = bo_id x"
  shows "index_ok (v(k \<mapsto> y)) m"
  using assms unfolding index_ok_def by (auto split: if_splits)

lemma index_ok_push:
  assumes "index_ok v m" "v k = None" "m (bo_id x) = None"
  shows "index_ok (v(k \<mapsto> x)) (m(bo_id x \<mapsto> k))"
  using assms unfolding index_ok_def by (auto split: if_splits) (metis option.distinct(1))+

subsection \<open>The steps\<close>

lemma best_at_other:
  assumes "best_at Ls s r" "r \<noteq> Some i"
  shows "best_at (Ls(i := [])) s r"
  using assms by (auto simp: best_at_def split: option.splits)

lemma best_at_same:
  assumes "best_at Ls s r" "Ls i \<noteq> []" "ks \<noteq> []"
  shows "best_at (Ls(i := ks)) s r"
  using assms by (auto simp: best_at_def split: option.splits)

lemma best_at_insert:
  assumes "best_at Ls s r" "ks \<noteq> []"
  shows "best_at (Ls(i := ks)) s
    (case r of None \<Rightarrow> Some i | Some c \<Rightarrow> if better s i c then Some i else Some c)"
proof (cases r)
  case None
  then show ?thesis
    using assms by (auto simp: best_at_def)
next
  case (Some c)
  then show ?thesis
    using assms better_trans [of s _ i c] better_total [of i c s]
    by (auto simp: best_at_def dest: better_asym)
qed

lemma set_best_same [simp]: "set_best b s (best_ptr b s) = b"
  by (cases s) auto

lemma ok_set_best [simp]:
  "ladder_ok h (set_best b s r) L \<longleftrightarrow> ladder_ok h b L" "owner_ok v (set_best b s r) L \<longleftrightarrow> owner_ok v b L"
  by (simp_all add: ladder_ok_def owner_ok_def)

context order_arena
begin

abbreviation heap :: "('k, 's) order_book \<Rightarrow> 'k \<rightharpoonup> 'k resting_order" where
  "heap b \<equiv> sm_get sm (b_arena b)"

lemma book_okD:
  assumes "book_ok sm sm_inv b L"
  shows "sm_inv (b_arena b)" "ladder_ok (heap b) b L" "owner_ok (hview (heap b)) b L"
    "index_ok (hview (heap b)) (b_id_to_key b)" "best_at (L s) s (best_ptr b s)"
  using assms by (simp_all add: book_ok_def)

lemma book_ok_level:
  assumes ok: "book_ok sm sm_inv b L" and ne: "L s i \<noteq> []"
  obtains l where "i < num_ticks b" "ladder b s ! i = Some l" "l_price l = idx_to_price b i"
    "level_ok (heap b) l (L s i)" "list_get (ladder b s) i = Some (Some l)" "distinct (L s i)"
proof -
  note lad = book_okD(2) [OF ok]
  have i: "i < num_ticks b"
    using ladder_okD(4) [OF lad ne] .
  then have "slot_ok (heap b) (idx_to_price b i) (ladder b s ! i) (L s i)"
    using ladder_okD(3) [OF lad] by simp
  then obtain l where "ladder b s ! i = Some l" "l_price l = idx_to_price b i" "level_ok (heap b) l (L s i)"
    using ne by (cases "ladder b s ! i") auto
  then show ?thesis
    using that i ladder_okD(1) [OF lad, of s] by (simp add: level_ok_def)
qed

text \<open>The part of the invariant every step shares: the new arena and level at one tick.\<close>

lemma ladder_ok_step:
  assumes ok: "book_ok sm sm_inv b L" and i: "i < num_ticks b"
    and l: "level_ok (sm_get sm a) l ks" "l_price l = idx_to_price b i"
    and frame: "\<And>k. k \<in> dom (heap b) \<Longrightarrow> k \<notin> set (L s i) \<Longrightarrow> sm_get sm a k = heap b k"
    and b': "ladder b' s = (ladder b s)[i := Some l]" "ladder b' (opposite s) = ladder b (opposite s)"
      "b_tick_floor b' = b_tick_floor b"
  shows "ladder_ok (sm_get sm a) b' (upd_queue L s i ks)"
proof (rule ladder_ok_upd [OF book_okD(2) [OF ok] i l _ b'])
  fix s' j k
  assume ne: "(s', j) \<noteq> (s, i)" and k: "k \<in> set (L s' j)"
  then have "k \<in> dom (heap b)"
    using owner_okD(1) [OF book_okD(3) [OF ok] k] by (metis domI dom_hview)
  moreover have "k \<notin> set (L s i)"
    using owner_unique [OF book_okD(2,3) [OF ok] k, of s i] ne by auto
  ultimately show "sm_get sm a k = heap b k"
    by (rule frame)
qed

lemma book_unlink:
  assumes ok: "book_ok sm sm_inv b L" and L: "L s i = xs @ k # ys"
    and x: "hview (heap b) k = Some x"
    and a: "sm_inv a" "hview (sm_get sm a) = (hview (heap b))(k := None)"
    and l: "level_ok (sm_get sm a) l (xs @ ys)" "l_price l = idx_to_price b i"
    and frame: "\<And>k. k \<notin> set (L s i) \<Longrightarrow> sm_get sm a k = heap b k"
    and b': "b' = (set_ladder (b\<lparr>b_arena := a\<rparr>) s ((ladder b s)[i := Some l]))
       \<lparr>b_id_to_key := (b_id_to_key b)(bo_id x := None)\<rparr>"
  obtains r where
    "(if level_is_empty l then clear_empty_best b' s i else Some b') = Some (set_best b' s r)"
    "book_ok sm sm_inv (set_best b' s r) (upd_queue L s i (xs @ ys))"
proof -
  have i: "i < num_ticks b" and dist: "distinct (L s i)"
    using book_ok_level [OF ok, of s i] L by auto
  let ?L = "upd_queue L s i (xs @ ys)"
  have lad: "ladder_ok (sm_get sm a) b' ?L"
    by (rule ladder_ok_step [OF ok i l frame]) (auto simp: b')
  have "b_tick_floor b' = b_tick_floor b"
    by (simp add: b')
  then have own: "owner_ok (hview (sm_get sm a)) b' ?L"
    using owner_ok_remove [OF book_okD(2,3) [OF ok] L dist] owner_ok_cong [of b' b] by (simp add: a(2))
  have idx: "index_ok (hview (sm_get sm a)) (b_id_to_key b')"
    using index_ok_remove [OF book_okD(4) [OF ok] x] by (simp add: a b')
  have n: "num_ticks b' = num_ticks b"
    by (cases s) (simp_all add: b')
  have p: "best_ptr b' s' = best_ptr b s'" for s'
    by (simp add: b')
  have fin: "book_ok sm sm_inv (set_best b' s r) ?L" if "best_at (?L s) s r" for r
  proof -
    have "best_at (?L s') s' (best_ptr (set_best b' s r) s')" for s'
      using that book_okD(5) [OF ok, of s'] by (simp add: p)
    moreover have "b_arena b' = a"
      by (simp add: b')
    ultimately show ?thesis
      using idx a(1) lad own by (simp add: book_ok_def)
  qed
  show ?thesis
  proof (cases "xs @ ys = [] \<and> best_ptr b s = Some i")
    case True
    then have "?L s j = []" if "better s j i" for j
      using that book_okD(5) [OF ok, of s] by (auto simp: best_at_def)
    then obtain r where "clear_empty_best b' s i = Some (set_best b' s r)" "best_at (?L s) s r"
      using clear_empty_best_ok [OF lad, of s i] True i n p by auto
    then show ?thesis
      using that [of r] fin True level_ok_empty [OF l(1)] by simp
  next
    case False
    then have "best_at (?L s) s (best_ptr b' s)"
      using best_at_other [OF book_okD(5) [OF ok, of s], of i]
        best_at_same [OF book_okD(5) [OF ok, of s], of i "xs @ ys"] L
      by (cases "xs @ ys = []") (auto simp: p)
    moreover have "(if level_is_empty l then clear_empty_best b' s i else Some b') = Some b'"
      using False level_ok_empty [OF l(1)] p [of s] by (cases s) auto
    ultimately show ?thesis
      using that [of "best_ptr b' s"] fin [of "best_ptr b' s"] by simp
  qed
qed

lemma book_change:
  assumes ok: "book_ok sm sm_inv b L" and L: "L s i = k # ks" and x: "hview (heap b) k = Some x"
    and a: "sm_inv a" "hview (sm_get sm a) = (hview (heap b))(k \<mapsto> x\<lparr>bo_qty := q\<rparr>)"
    and l: "level_ok (sm_get sm a) l (k # ks)" "l_price l = idx_to_price b i"
    and frame: "\<And>j. j \<noteq> k \<Longrightarrow> sm_get sm a j = heap b j"
    and b': "b' = set_ladder (b\<lparr>b_arena := a\<rparr>) s ((ladder b s)[i := Some l])"
  shows "book_ok sm sm_inv b' L"
proof -
  have i: "i < num_ticks b"
    using book_ok_level [OF ok, of s i] L by auto
  have same: "upd_queue L s i (k # ks) = L"
    using L by (auto simp: fun_eq_iff)
  have "ladder_ok (sm_get sm a) b' (upd_queue L s i (k # ks))"
    by (rule ladder_ok_step [OF ok i l frame]) (auto simp: b' L)
  moreover have "b_tick_floor b' = b_tick_floor b"
    by (simp add: b')
  then have "owner_ok (hview (sm_get sm a)) b' L"
    using owner_ok_change [OF book_okD(3) [OF ok] x, of "x\<lparr>bo_qty := q\<rparr>"] owner_ok_cong [of b' b]
    by (simp add: a(2))
  moreover have "index_ok (hview (sm_get sm a)) (b_id_to_key b')"
    using index_ok_change [OF book_okD(4) [OF ok] x, of "x\<lparr>bo_qty := q\<rparr>"] by (simp add: a(2) b')
  moreover have "best_at (L s') s' (best_ptr b' s')" for s'
    using book_okD(5) [OF ok, of s'] by (simp add: b')
  ultimately show ?thesis
    using a(1) by (simp add: book_ok_def same b')
qed

lemma best_price_ok:
  assumes ok: "book_ok sm sm_inv b L"
  shows "best_bid b = Some (map_option (idx_to_price b) (b_best_bid_idx b))"
    and "best_ask b = Some (map_option (idx_to_price b) (b_best_ask_idx b))"
proof -
  have *: "\<exists>l. list_get (ladder b s) i = Some (Some l) \<and> l_price l = idx_to_price b i \<and> \<not> level_is_empty l"
    if "best_ptr b s = Some i" for s i
  proof -
    have ne: "L s i \<noteq> []"
      using book_okD(5) [OF ok, of s] that by (simp add: best_at_def)
    obtain l where "list_get (ladder b s) i = Some (Some l)" "l_price l = idx_to_price b i"
        "level_ok (heap b) l (L s i)"
      using book_ok_level [OF ok ne] by blast
    then show ?thesis
      using ne level_ok_empty by blast
  qed
  show "best_bid b = Some (map_option (idx_to_price b) (b_best_bid_idx b))"
    using * [of Buy] by (auto simp: best_bid_def level_price_if_occupied_def split: option.splits)
  show "best_ask b = Some (map_option (idx_to_price b) (b_best_ask_idx b))"
    using * [of Sell] by (auto simp: best_ask_def level_price_if_occupied_def split: option.splits)
qed

lemma book_top_event_ok:
  assumes "book_ok sm sm_inv b L"
  shows "book_top_event b seq symb = Some (BookTop seq symb
    (map_option (idx_to_price b) (b_best_bid_idx b)) (map_option (idx_to_price b) (b_best_ask_idx b)))"
  by (simp add: book_top_event_def best_price_ok [OF assms])

lemma book_push:
  assumes ok: "book_ok sm sm_inv b L" and i: "i < num_ticks b"
    and k: "heap b k = None" and x: "bo_side x = s" "bo_price x = idx_to_price b i" "b_id_to_key b (bo_id x) = None"
    and a: "sm_inv a" "hview (sm_get sm a) = (hview (heap b))(k \<mapsto> x)"
    and l: "level_ok (sm_get sm a) l (L s i @ [k])" "l_price l = idx_to_price b i"
    and frame: "\<And>j. j \<notin> set (L s i) \<Longrightarrow> j \<noteq> k \<Longrightarrow> sm_get sm a j = heap b j"
    and b': "b_arena b' = a" "ladder b' s = (ladder b s)[i := Some l]"
      "ladder b' (opposite s) = ladder b (opposite s)" "b_tick_floor b' = b_tick_floor b"
      "b_id_to_key b' = (b_id_to_key b)(bo_id x \<mapsto> k)" "best_ptr b' (opposite s) = best_ptr b (opposite s)"
      "best_ptr b' s = (case best_ptr b s of None \<Rightarrow> Some i | Some c \<Rightarrow> if better s i c then Some i else Some c)"
  shows "book_ok sm sm_inv b' (upd_queue L s i (L s i @ [k]))"
proof -
  let ?L = "upd_queue L s i (L s i @ [k])"
  have "sm_get sm a j = heap b j" if "j \<in> dom (heap b)" "j \<notin> set (L s i)" for j
    using that k by (intro frame) auto
  then have lad: "ladder_ok (sm_get sm a) b' ?L"
    using b' by (intro ladder_ok_step [OF ok i l]) auto
  have kv: "hview (heap b) k = None"
    using k by (simp add: hview_def)
  have "owner_ok (hview (sm_get sm a)) b' ?L"
    using owner_ok_push [OF book_okD(2,3) [OF ok] kv x(1,2)] owner_ok_cong [OF b'(4)] by (simp only: a(2))
  moreover have "index_ok (hview (sm_get sm a)) (b_id_to_key b')"
    using index_ok_push [OF book_okD(4) [OF ok] kv x(3)] by (simp add: a(2) b'(5))
  moreover have "best_at (?L s') s' (best_ptr b' s')" for s'
  proof (cases "s' = s")
    case True
    then show ?thesis
      using best_at_insert [OF book_okD(5) [OF ok, of s], of "L s i @ [k]" i] by (simp add: b'(7))
  next
    case False
    then have "s' = opposite s"
      by (cases s; cases s') auto
    then show ?thesis
      using False book_okD(5) [OF ok, of s'] b'(6) by simp
  qed
  ultimately show ?thesis
    using a(1) b'(1) lad by (simp add: book_ok_def)
qed

end

end
