(* ===== verification/Book_Spec.thy ===== *)
theory Book_Spec
  imports Price_Level
begin

text \<open>
  What an order book promises, without arena, ladder or pointers: two queues of orders in
  price-time priority. A new order sweeps the opposite queue from the front; whatever it leaves is
  inserted behind the orders at least as good as it. The theory defines this specification and
  proves the market rules about it; the refinement theory shows that the translated code
  implements it, event for event.
\<close>

subsection \<open>The specification\<close>

record abs_book =
  ab_floor :: price
  ab_ticks :: nat
  ab_cap :: nat
  ab_queue :: "side \<Rightarrow> book_order list"

text \<open>An aggressor of side \<open>s\<close> is willing to trade at price \<open>mp\<close>.\<close>

fun crosses :: "side \<Rightarrow> order_type \<Rightarrow> price \<Rightarrow> price \<Rightarrow> bool" where
  "crosses s Market p mp \<longleftrightarrow> True"
| "crosses Buy Limit p mp \<longleftrightarrow> sint mp \<le> sint p"
| "crosses Sell Limit p mp \<longleftrightarrow> sint p \<le> sint mp"

text \<open>Who is aggressing: the fields of the new order that the sweep needs.\<close>

record aggressor =
  ag_seq :: u64
  ag_ts :: u64
  ag_symbol :: symbol
  ag_side :: side
  ag_price :: price
  ag_account :: account_id
  ag_type :: order_type

definition trade_of :: "aggressor \<Rightarrow> book_order \<Rightarrow> qty \<Rightarrow> qty \<Rightarrow> engine_event" where
  "trade_of ag m f q = Trade
     \<lparr>tr_seq = ag_seq ag, tr_ts_ns = ag_ts ag, tr_symbol = ag_symbol ag, tr_price = bo_price m,
      tr_qty = f, tr_maker_order = bo_id m, tr_taker_order = ag_seq ag, tr_maker_order_id = bo_id m,
      tr_taker_order_id = ag_seq ag, tr_maker_acct = bo_account m, tr_taker_acct = ag_account ag,
      tr_maker_side = opposite (ag_side ag), tr_maker_remaining_qty = bo_qty m - f,
      tr_taker_remaining_qty = q - f\<rparr>"

fun sweep :: "aggressor \<Rightarrow> qty \<Rightarrow> book_order list \<Rightarrow> qty \<times> book_order list \<times> engine_event list" where
  "sweep ag q [] = (q, [], [])"
| "sweep ag q (m # ms) =
     (if q = 0 \<or> \<not> crosses (ag_side ag) (ag_type ag) (ag_price ag) (bo_price m) then (q, m # ms, [])
      else if bo_account m = ag_account ag then
        (case sweep ag q ms of (q', ms', es) \<Rightarrow> (q', ms', Cancelled (ag_seq ag) (bo_id m) # es))
      else if q < bo_qty m then (0, m\<lparr>bo_qty := bo_qty m - q\<rparr> # ms, [trade_of ag m q q])
      else (case sweep ag (q - bo_qty m) ms of
              (q', ms', es) \<Rightarrow> (q', ms', trade_of ag m (bo_qty m) q # es)))"

text \<open>The quantity other accounts offer at prices the aggressor accepts.\<close>

definition fillable :: "aggressor \<Rightarrow> book_order list \<Rightarrow> nat" where
  "fillable ag ms = (\<Sum>m \<leftarrow> filter (\<lambda>m. bo_account m \<noteq> ag_account ag)
     (takeWhile (\<lambda>m. crosses (ag_side ag) (ag_type ag) (ag_price ag) (bo_price m)) ms). unat (bo_qty m))"

text \<open>\<open>ahead s p p'\<close>: a resting order at \<open>p\<close> keeps its place before a newcomer at \<open>p'\<close>.\<close>

fun ahead :: "side \<Rightarrow> price \<Rightarrow> price \<Rightarrow> bool" where
  "ahead Buy p p' \<longleftrightarrow> sint p' \<le> sint p"
| "ahead Sell p p' \<longleftrightarrow> sint p \<le> sint p'"

definition enqueue :: "book_order \<Rightarrow> book_order list \<Rightarrow> book_order list" where
  "enqueue x ms = takeWhile (\<lambda>m. ahead (bo_side x) (bo_price m) (bo_price x)) ms @ x #
     dropWhile (\<lambda>m. ahead (bo_side x) (bo_price m) (bo_price x)) ms"

definition in_range :: "abs_book \<Rightarrow> price \<Rightarrow> bool" where
  "in_range ab p \<longleftrightarrow> sint (ab_floor ab) \<le> sint p \<and> sint p < sint (ab_floor ab) + int (ab_ticks ab)"

definition touch :: "abs_book \<Rightarrow> side \<Rightarrow> price option" where
  "touch ab s = (case ab_queue ab s of [] \<Rightarrow> None | m # _ \<Rightarrow> Some (bo_price m))"

definition top_event :: "abs_book \<Rightarrow> u64 \<Rightarrow> symbol \<Rightarrow> engine_event" where
  "top_event ab seq symb = BookTop seq symb (touch ab Buy) (touch ab Sell)"

definition ab_count :: "abs_book \<Rightarrow> nat" where
  "ab_count ab = length (ab_queue ab Buy) + length (ab_queue ab Sell)"

definition set_queue :: "abs_book \<Rightarrow> side \<Rightarrow> book_order list \<Rightarrow> abs_book" where
  "set_queue ab s ms = ab\<lparr>ab_queue := (ab_queue ab)(s := ms)\<rparr>"

lemma set_queue_simps [simp]:
  "ab_queue (set_queue ab s ms) = (ab_queue ab)(s := ms)" "ab_floor (set_queue ab s ms) = ab_floor ab"
  "ab_ticks (set_queue ab s ms) = ab_ticks ab" "ab_cap (set_queue ab s ms) = ab_cap ab"
  "set_queue (set_queue ab s ms) s ms' = set_queue ab s ms'" "set_queue ab s (ab_queue ab s) = ab"
  by (simp_all add: set_queue_def)

definition fresh_order :: "u64 \<Rightarrow> account_id \<Rightarrow> qty \<Rightarrow> side \<Rightarrow> price \<Rightarrow> book_order" where
  "fresh_order seq acct q s p =
     \<lparr>bo_id = seq, bo_account = acct, bo_qty = q, bo_side = s, bo_price = p, bo_seq = seq\<rparr>"

definition spec_new ::
  "abs_book \<Rightarrow> aggressor \<Rightarrow> client_order_id \<Rightarrow> qty \<Rightarrow> time_in_force \<Rightarrow> abs_book \<times> engine_event list" where
  "spec_new ab ag coid q tif =
     (let seq = ag_seq ag; acct = ag_account ag; opp = opposite (ag_side ag) in
      if q = 0 then (ab, [Rejected seq seq acct coid InvalidQty])
      else if ag_type ag = Limit \<and> \<not> in_range ab (ag_price ag) then
        (ab, [Rejected seq seq acct coid PriceOutOfRange])
      else if tif = Fok \<and> fillable ag (ab_queue ab opp) < unat q then
        (ab, [Rejected seq seq acct coid FokNotFullyFillable])
      else case sweep ag q (ab_queue ab opp) of (q', ms, es) \<Rightarrow>
        let ab1 = set_queue ab opp ms in
        if q' = 0 then (ab1, es @ [top_event ab1 seq (ag_symbol ag)])
        else if tif \<noteq> Gtc \<or> ag_type ag = Market then
          (ab1, es @ [if q' < q then Cancelled seq seq else Rejected seq seq acct coid IocNoMatch,
                      top_event ab1 seq (ag_symbol ag)])
        else if ab_cap ab \<le> ab_count ab1 then (ab1, es @ [Rejected seq seq acct coid ArenaFull])
        else
          let x = fresh_order seq acct q' (ag_side ag) (ag_price ag);
              ab2 = set_queue ab1 (ag_side ag) (enqueue x (ab_queue ab1 (ag_side ag))) in
          (ab2, es @ [Accepted seq seq (ag_ts ag) (ag_symbol ag) acct coid (ag_side ag) (ag_price ag) q',
                      top_event ab2 seq (ag_symbol ag)]))"

definition find_order :: "abs_book \<Rightarrow> order_id \<Rightarrow> book_order option" where
  "find_order ab oid = find (\<lambda>m. bo_id m = oid) (ab_queue ab Buy @ ab_queue ab Sell)"

definition spec_cancel :: "abs_book \<Rightarrow> u64 \<Rightarrow> account_id \<Rightarrow> order_id \<Rightarrow> abs_book \<times> engine_event list" where
  "spec_cancel ab seq acct oid =
     (case find_order ab oid of
        None \<Rightarrow> (ab, [Rejected seq oid acct 0 OrderNotFound])
      | Some m \<Rightarrow>
          if bo_account m \<noteq> acct then (ab, [Rejected seq oid acct 0 WrongAccount])
          else (ab\<lparr>ab_queue := (\<lambda>s. filter (\<lambda>m. bo_id m \<noteq> oid) (ab_queue ab s))\<rparr>, [Cancelled seq oid]))"

definition spec_apply :: "abs_book \<Rightarrow> sequenced_command \<Rightarrow> abs_book \<times> engine_event list" where
  "spec_apply ab cmd =
     (case sc_cmd cmd of
        NewOrder account coid symb side price q order_type tif \<Rightarrow>
          spec_new ab \<lparr>ag_seq = sc_seq cmd, ag_ts = sc_ts_ns cmd, ag_symbol = symb, ag_side = side,
            ag_price = price, ag_account = account, ag_type = order_type\<rparr> coid q tif
      | Cancel account oid \<Rightarrow> spec_cancel ab (sc_seq cmd) account oid
      | Liquidate _ _ \<Rightarrow> (ab, [])
      | FreezeAccount _ \<Rightarrow> (ab, []))"

subsection \<open>Orders on the book\<close>

definition ab_orders :: "abs_book \<Rightarrow> book_order set" where
  "ab_orders ab = set (ab_queue ab Buy) \<union> set (ab_queue ab Sell)"

lemma in_ab_orders: "m \<in> ab_orders ab \<longleftrightarrow> (\<exists>s. m \<in> set (ab_queue ab s))"
  by (auto simp: ab_orders_def) (metis side.exhaust)

lemma sweep_ids:
  "sweep ag q ms = (q', ms', es) \<Longrightarrow> m' \<in> set ms' \<Longrightarrow> \<exists>m \<in> set ms. m' = m\<lparr>bo_qty := bo_qty m'\<rparr>"
  by (induction ag q ms arbitrary: q' ms' es rule: sweep.induct)
    (fastforce split: if_splits prod.splits)+

end
