(* ===== verification/Book_Refine.thy ===== *)
theory Book_Refine
  imports Book_Invariant Book_Spec
begin

text \<open>
  The translated order book implements the specification: on a book that satisfies the
  representation invariant, every command returns (no panic, no endless loop), keeps the
  invariant, and has exactly the events and the abstract effect of \<open>spec_apply\<close>.
\<close>

subsection \<open>The abstraction function\<close>

text \<open>The keys of a level, read off its links; the fuel is the number of live orders, which no
  level can exceed.\<close>

fun walk :: "('k \<rightharpoonup> 'k resting_order) \<Rightarrow> nat \<Rightarrow> 'k option \<Rightarrow> 'k list" where
  "walk h 0 c = []"
| "walk h (Suc n) None = []"
| "walk h (Suc n) (Some k) = (case h k of None \<Rightarrow> [] | Some r \<Rightarrow> k # walk h n (o_next r))"

definition keys_at :: "('k, 's) arena_ops \<Rightarrow> ('k, 's) order_book \<Rightarrow> 'k queues" where
  "keys_at sm b s i =
     (if i < num_ticks b then
        case ladder b s ! i of
          None \<Rightarrow> []
        | Some l \<Rightarrow> walk (sm_get sm (b_arena b)) (sm_len sm (b_arena b)) (l_head l)
      else [])"

fun side_order :: "side \<Rightarrow> nat \<Rightarrow> nat list" where
  "side_order Buy n = rev [0..<n]"
| "side_order Sell n = [0..<n]"

definition side_keys :: "'k queues \<Rightarrow> side \<Rightarrow> nat \<Rightarrow> 'k list" where
  "side_keys L s n = concat (map (L s) (side_order s n))"

definition abs_with :: "('k, 's) arena_ops \<Rightarrow> ('k, 's) order_book \<Rightarrow> 'k queues \<Rightarrow> abs_book" where
  "abs_with sm b L =
     \<lparr>ab_floor = b_tick_floor b, ab_ticks = num_ticks b, ab_cap = sm_capacity sm (b_arena b),
      ab_queue = (\<lambda>s. queue_of (hview (sm_get sm (b_arena b))) (side_keys L s (num_ticks b)))\<rparr>"

definition abs_of :: "('k, 's) arena_ops \<Rightarrow> ('k, 's) order_book \<Rightarrow> abs_book" where
  "abs_of sm b = abs_with sm b (keys_at sm b)"

definition book_inv :: "('k, 's) arena_ops \<Rightarrow> ('s \<Rightarrow> bool) \<Rightarrow> ('k, 's) order_book \<Rightarrow> bool" where
  "book_inv sm sm_inv b \<longleftrightarrow> book_ok sm sm_inv b (keys_at sm b)"

lemma walk_dseg: "dseg h p ks None \<Longrightarrow> length ks \<le> n \<Longrightarrow> walk h n (firsto ks None) = ks"
proof (induction ks arbitrary: p n)
  case Nil
  then show ?case by (cases n) auto
next
  case (Cons k ks)
  then show ?case by (cases n) auto
qed

subsection \<open>Queues in priority order\<close>

lemma side_order_set [simp]: "set (side_order s n) = {..<n}" "distinct (side_order s n)"
  by (cases s; auto)+

lemma side_order_split:
  assumes "i < n"
  obtains pre post where "side_order s n = pre @ i # post"
    "\<And>j. j \<in> set pre \<Longrightarrow> better s j i" "\<And>j. j \<in> set post \<Longrightarrow> better s i j" "i \<notin> set pre" "i \<notin> set post"
proof -
  have up: "[0..<n] = [0..<i] @ i # [Suc i..<n]"
    using assms upt_add_eq_append [of 0 i "n - i"] upt_conv_Cons [of i n] by simp
  show ?thesis
  proof (cases s)
    case Buy
    then show ?thesis
      using that [of "rev [Suc i..<n]" "rev [0..<i]"] up by simp
  next
    case Sell
    then show ?thesis
      using that [of "[0..<i]" "[Suc i..<n]"] up by simp
  qed
qed

lemma in_side_keys: "k \<in> set (side_keys L s n) \<longleftrightarrow> (\<exists>i<n. k \<in> set (L s i))"
  by (auto simp: side_keys_def)

lemma side_keys_other [simp]: "s' \<noteq> s \<Longrightarrow> side_keys (upd_queue L s i ks) s' n = side_keys L s' n"
  by (simp add: side_keys_def)

lemma side_keys_upd:
  assumes "i < n"
  obtains pre post where "\<And>ks. side_keys (upd_queue L s i ks) s n = pre @ ks @ post"
    "\<And>k. k \<in> set pre \<Longrightarrow> \<exists>j<n. better s j i \<and> k \<in> set (L s j)"
    "\<And>k. k \<in> set post \<Longrightarrow> \<exists>j<n. better s i j \<and> k \<in> set (L s j)"
proof -
  obtain pr po where sp: "side_order s n = pr @ i # po" "\<And>j. j \<in> set pr \<Longrightarrow> better s j i"
      "\<And>j. j \<in> set po \<Longrightarrow> better s i j" "i \<notin> set pr" "i \<notin> set po"
    using side_order_split [OF assms, of s] by blast
  have lt: "j < n" if "j \<in> set pr \<union> set po" for j
    using that side_order_set(1) [of s n] sp(1) by auto
  have m: "map ((L s)(i := ks)) pr = map (L s) pr" "map ((L s)(i := ks)) po = map (L s) po" for ks
    using sp(4,5) by auto
  have e: "side_keys (upd_queue L s i ks) s n = concat (map (L s) pr) @ ks @ concat (map (L s) po)" for ks
    by (simp add: side_keys_def sp(1) m)
  show ?thesis
    by (rule that [OF e]) (use sp(2,3) lt in force)+
qed

lemma upd_queue_same [simp]: "upd_queue L s i (L s i) = L"
  by simp

text \<open>The best level is the front of the queue.\<close>

lemma side_keys_best:
  assumes "best_at (L s) s (Some i)" "i < n"
  shows "\<exists>post. (\<forall>ks. side_keys (upd_queue L s i ks) s n = ks @ post) \<and> side_keys L s n = L s i @ post"
proof -
  obtain pre post where p: "\<And>ks. side_keys (upd_queue L s i ks) s n = pre @ ks @ post"
    "\<And>k. k \<in> set pre \<Longrightarrow> \<exists>j<n. better s j i \<and> k \<in> set (L s j)"
    "\<And>k. k \<in> set post \<Longrightarrow> \<exists>j<n. better s i j \<and> k \<in> set (L s j)"
    using side_keys_upd [OF assms(2), of L s] by blast
  have "pre = []"
    using p(2) assms(1) by (cases pre) (force simp: best_at_def)+
  then show ?thesis
    using p(1) p(1) [of "L s i"] by auto
qed

lemma side_keys_none: "best_at (L s) s None \<Longrightarrow> side_keys L s n = []"
  by (simp add: side_keys_def best_at_def)

subsection \<open>The ghost queues are the queues read off the book\<close>

context order_arena
begin

lemma book_ok_queue_len:
  assumes ok: "book_ok sm sm_inv b L"
  shows "length (L s i) \<le> sm_len sm (b_arena b)"
proof (cases "L s i = []")
  case False
  then have "distinct (L s i)"
    using book_ok_level [OF ok False] by blast
  moreover have "set (L s i) \<subseteq> dom (heap b)"
    using owner_okD(1) [OF book_okD(3) [OF ok]] by (metis domI dom_hview subsetI)
  ultimately show ?thesis
    using sm_len [OF book_okD(1) [OF ok]] sm_finite [OF book_okD(1) [OF ok]]
    by (metis card_mono distinct_card)
qed simp

lemma book_ok_keys_at:
  assumes ok: "book_ok sm sm_inv b L"
  shows "keys_at sm b = L"
proof (intro ext)
  fix s i
  show "keys_at sm b s i = L s i"
  proof (cases "L s i = []")
    case True
    have "l_head l = None" if "i < num_ticks b" "ladder b s ! i = Some l" for l
      using ladder_okD(3) [OF book_okD(2) [OF ok] that(1), of s] that(2) True by (simp add: level_ok_def)
    moreover have "walk h n None = []" for h and n
      by (cases n) auto
    ultimately show ?thesis
      using True by (auto simp: keys_at_def split: option.splits)
  next
    case False
    obtain l where l: "i < num_ticks b" "ladder b s ! i = Some l" "level_ok (heap b) l (L s i)"
      using book_ok_level [OF ok False] by blast
    then show ?thesis
      using walk_dseg [of "heap b" None "L s i"] book_ok_queue_len [OF ok]
      by (simp add: keys_at_def level_ok_def)
  qed
qed

lemma book_invI: "book_ok sm sm_inv b L \<Longrightarrow> book_inv sm sm_inv b"
  using book_ok_keys_at [of b L] by (simp add: book_inv_def)

lemma abs_of_eq: "book_ok sm sm_inv b L \<Longrightarrow> abs_of sm b = abs_with sm b L"
  using book_ok_keys_at [of b L] by (simp add: abs_of_def)

subsection \<open>Keys and orders\<close>

lemma side_keys_distinct:
  assumes ok: "book_ok sm sm_inv b L"
  shows "distinct (side_keys L s n)"
proof -
  have d: "distinct (L s i)" for i
    using book_ok_level [OF ok, of s i] by fastforce
  have "distinct (concat (map (L s) js))" if "distinct js" for js
    using that
  proof (induction js)
    case (Cons i js)
    have "set (L s i) \<inter> set (L s j) = {}" if "j \<in> set js" for j
    proof (rule ccontr)
      assume "set (L s i) \<inter> set (L s j) \<noteq> {}"
      then obtain k where "k \<in> set (L s i)" "k \<in> set (L s j)"
        by blast
      then have "j = i"
        using owner_unique [OF book_okD(2,3) [OF ok]] by blast
      then show False
        using Cons.prems that by simp
    qed
    then show ?case
      using Cons d by auto
  qed simp
  then show ?thesis
    by (simp add: side_keys_def)
qed

lemma side_keys_sides:
  assumes ok: "book_ok sm sm_inv b L" and k: "k \<in> set (side_keys L s (num_ticks b))"
  shows "\<exists>x. hview (heap b) k = Some x \<and> bo_side x = s"
  using k owner_okD(1) [OF book_okD(3) [OF ok]] unfolding in_side_keys by blast

lemma side_keys_dom:
  assumes ok: "book_ok sm sm_inv b L"
  shows "set (side_keys L Buy (num_ticks b)) \<union> set (side_keys L Sell (num_ticks b)) = dom (heap b)"
proof
  show "set (side_keys L Buy (num_ticks b)) \<union> set (side_keys L Sell (num_ticks b)) \<subseteq> dom (heap b)"
  proof
    fix k
    assume "k \<in> set (side_keys L Buy (num_ticks b)) \<union> set (side_keys L Sell (num_ticks b))"
    then obtain x where "hview (heap b) k = Some x"
      using side_keys_sides [OF ok, of k] by blast
    then show "k \<in> dom (heap b)"
      by (auto simp: hview_def)
  qed
  show "dom (heap b) \<subseteq> set (side_keys L Buy (num_ticks b)) \<union> set (side_keys L Sell (num_ticks b))"
  proof
    fix k
    assume "k \<in> dom (heap b)"
    then obtain x where "hview (heap b) k = Some x"
      by (auto simp: hview_def)
    then obtain i where i: "k \<in> set (L (bo_side x) i)"
      using owner_okD(2) [OF book_okD(3) [OF ok]] by blast
    then have "i < num_ticks b"
      using ladder_okD(4) [OF book_okD(2) [OF ok]] by (metis empty_iff list.set(1))
    then have "k \<in> set (side_keys L (bo_side x) (num_ticks b))"
      using i by (auto simp: in_side_keys)
    then show "k \<in> set (side_keys L Buy (num_ticks b)) \<union> set (side_keys L Sell (num_ticks b))"
      by (cases "bo_side x") auto
  qed
qed

lemma abs_count:
  assumes ok: "book_ok sm sm_inv b L"
  shows "ab_count (abs_with sm b L) = sm_len sm (b_arena b)"
proof -
  let ?B = "side_keys L Buy (num_ticks b)" and ?S = "side_keys L Sell (num_ticks b)"
  have "set ?B \<inter> set ?S = {}"
    using side_keys_sides [OF ok, of _ Buy] side_keys_sides [OF ok, of _ Sell] by fastforce
  then have "card (dom (heap b)) = length ?B + length ?S"
    unfolding side_keys_dom [OF ok, symmetric]
    by (simp add: card_Un_disjoint distinct_card side_keys_distinct [OF ok])
  then show ?thesis
    by (simp add: ab_count_def abs_with_def sm_len [OF book_okD(1) [OF ok]] queue_of_def)
qed

subsection \<open>Consuming the front of a queue\<close>

abbreviation sideq :: "('k, 's) order_book \<Rightarrow> 'k queues \<Rightarrow> side \<Rightarrow> book_order list" where
  "sideq b L s \<equiv> queue_of (hview (heap b)) (side_keys L s (num_ticks b))"

abbreviation same_shape :: "('k, 's) order_book \<Rightarrow> ('k, 's) order_book \<Rightarrow> bool" where
  "same_shape b b' \<equiv> num_ticks b' = num_ticks b \<and> b_tick_floor b' = b_tick_floor b \<and>
     b_symbol b' = b_symbol b \<and> sm_capacity sm (b_arena b') = sm_capacity sm (b_arena b)"

lemma best_front:
  assumes ok: "book_ok sm sm_inv b L" and i: "best_ptr b s = Some i"
  obtains k ks r l post where "i < num_ticks b" "L s i = k # ks" "heap b k = Some r"
    "list_get (ladder b s) i = Some (Some l)" "peek_head l = Some k" "level_ok (heap b) l (k # ks)"
    "l_price l = idx_to_price b i" "o_price r = idx_to_price b i"
    "side_keys L s (num_ticks b) = k # ks @ post"
    "\<And>ks'. side_keys (upd_queue L s i ks') s (num_ticks b) = ks' @ post"
proof -
  have at: "best_at (L s) s (Some i)"
    using book_okD(5) [OF ok, of s] i by simp
  then obtain k ks where L: "L s i = k # ks"
    by (cases "L s i") (auto simp: best_at_def)
  obtain l where l: "i < num_ticks b" "l_price l = idx_to_price b i"
    "level_ok (heap b) l (L s i)" "list_get (ladder b s) i = Some (Some l)"
    using book_ok_level [OF ok, of s i] L by auto
  obtain r where r: "heap b k = Some r"
    using l(3) L by (auto simp: level_ok_def)
  have "o_price r = idx_to_price b i"
    using owner_okD(1) [OF book_okD(3) [OF ok], of k s i] L r by (simp add: hview_Some)
  moreover obtain post where "\<forall>ks. side_keys (upd_queue L s i ks) s (num_ticks b) = ks @ post"
    "side_keys L s (num_ticks b) = L s i @ post"
    using side_keys_best [where L = L and s = s, OF at l(1)] by blast
  ultimately show ?thesis
    using that [of k ks r l post] l L r by (simp add: peek_head_def level_ok_def)
qed

lemma sideq_unlink:
  assumes ok: "book_ok sm sm_inv b L"
    and keys: "side_keys L s (num_ticks b) = xs @ k # ys" "side_keys L' s (num_ticks b) = xs @ ys"
      "\<And>s'. s' \<noteq> s \<Longrightarrow> side_keys L' s' (num_ticks b) = side_keys L s' (num_ticks b)"
    and b': "hview (heap b') = (hview (heap b))(k := None)" "num_ticks b' = num_ticks b"
  shows "sideq b' L' = (sideq b L)(s := queue_of (hview (heap b)) (xs @ ys))"
proof
  fix s'
  have k: "k \<notin> set (xs @ ys)"
    using side_keys_distinct [OF ok, of s "num_ticks b"] keys(1) by simp
  show "sideq b' L' s' = ((sideq b L)(s := queue_of (hview (heap b)) (xs @ ys))) s'"
  proof (cases "s' = s")
    case True
    then show ?thesis
      using k by (simp add: b' keys(2))
  next
    case False
    then have "k \<notin> set (side_keys L s' (num_ticks b))"
      using side_keys_sides [OF ok, of k s] side_keys_sides [OF ok, of k s'] keys(1) by auto
    then show ?thesis
      using False by (simp add: b' keys(3))
  qed
qed

abbreviation (input) without_id :: "('k, 's) order_book \<Rightarrow> order_id \<Rightarrow> ('k, 's) order_book" where
  "without_id b oid \<equiv> b\<lparr>b_id_to_key := (b_id_to_key b)(oid := None)\<rparr>"

text \<open>What follows once the front order was taken out of its level and the arena: its id is
  dropped, and if the level is empty the best pointer moves on.\<close>

lemma head_unlinked:
  assumes ok: "book_ok sm sm_inv b L" and i: "i < num_ticks b"
    and L: "L s i = k # ks" and r: "heap b k = Some r"
    and a: "sm_inv a" "sm_capacity sm a = sm_capacity sm (b_arena b)"
      "hview (sm_get sm a) = (hview (heap b))(k := None)"
    and l: "level_ok (sm_get sm a) l ks" "l_price l = idx_to_price b i"
    and frame: "\<And>j. j \<notin> set (k # ks) \<Longrightarrow> sm_get sm a j = heap b j"
    and bx: "bx = without_id (set_ladder (b\<lparr>b_arena := a\<rparr>) s ((ladder b s)[i := Some l])) (o_id r)"
  obtains b2 e where "is_level_empty bx s i = Some e"
    "(if e then clear_empty_best bx s i else Some bx) = Some b2"
    "book_ok sm sm_inv b2 (upd_queue L s i ks)" "hview (heap b2) = (hview (heap b))(k := None)"
    "same_shape b b2"
proof -
  have e: "is_level_empty bx s i = Some (level_is_empty l)"
    using i ladder_okD(1) [OF book_okD(2) [OF ok], of s] by (simp add: is_level_empty_def bx)
  obtain q where q: "(if level_is_empty l then clear_empty_best bx s i else Some bx) = Some (set_best bx s q)"
    "book_ok sm sm_inv (set_best bx s q) (upd_queue L s i ([] @ ks))"
  proof (rule book_unlink [OF ok, where s = s and i = i and xs = "[]" and k = k and ys = ks
        and x = "view r" and a = a and l = l and b' = bx])
    show "sm_get sm a j = heap b j" if "j \<notin> set (L s i)" for j
      using that L by (intro frame) auto
  qed (use L r a(1,3) l bx in \<open>simp_all add: hview_Some\<close>)
  have "same_shape b (set_best bx s q)" "b_arena (set_best bx s q) = a"
    using a(2) by (cases s; simp add: bx; fail)+
  then show ?thesis
    using that [OF e q(1)] q(2) a(3) by simp
qed

lemma stp_step:
  assumes ok: "book_ok sm sm_inv b L" and i: "best_ptr b s = Some i"
    and L: "L s i = k # ks" and r: "heap b k = Some r"
  obtains b1 b2 e where "cancel_resting_head sm b s i = Some (Some (o_id r), b1)"
    "is_level_empty (without_id b1 (o_id r)) s i = Some e"
    "(if e then clear_empty_best (without_id b1 (o_id r)) s i else Some (without_id b1 (o_id r))) = Some b2"
    "book_ok sm sm_inv b2 (upd_queue L s i ks)" "hview (heap b2) = (hview (heap b))(k := None)"
    "same_shape b b2"
proof -
  obtain l where l: "i < num_ticks b" "list_get (ladder b s) i = Some (Some l)" "peek_head l = Some k"
    "level_ok (heap b) l (k # ks)" "l_price l = idx_to_price b i"
    using best_front [OF ok i] L by (metis list.inject)
  obtain l' a where rm: "level_remove sm l k (b_arena b) = Some (heap b k, l', a)" "sm_inv a"
    "level_ok (sm_get sm a) l' ks" "l_price l' = l_price l" "sm_capacity sm a = sm_capacity sm (b_arena b)"
    "hview (sm_get sm a) = (hview (heap b))(k := None)"
    and frame: "\<And>j. j \<noteq> k \<Longrightarrow> j \<notin> set ks \<Longrightarrow> sm_get sm a j = heap b j"
    using level_remove_ok [OF book_okD(1) [OF ok], of l "[]" k ks] l(4) by auto
  define b1 where "b1 = set_ladder (b\<lparr>b_arena := a\<rparr>) s ((ladder b s)[i := Some l'])"
  have c: "cancel_resting_head sm b s i = Some (Some (o_id r), b1)"
    using l rm(1) r by (simp add: cancel_resting_head_def b1_def)
  show ?thesis
    by (rule head_unlinked [OF ok l(1) L r rm(2,5,6,3), where bx = "without_id b1 (o_id r)"])
      (use rm(4) l(5) frame that [OF c] in \<open>auto simp: b1_def\<close>)
qed

lemma fill_full_step:
  assumes ok: "book_ok sm sm_inv b L" and i: "best_ptr b s = Some i"
    and L: "L s i = k # ks" and r: "heap b k = Some r" and f: "o_qty_remaining r = f"
  obtains b1 b2 e where "fill_level_head sm b s i f = Some (True, b1)"
    "is_level_empty (without_id b1 (o_id r)) s i = Some e"
    "(if e then clear_empty_best (without_id b1 (o_id r)) s i else Some (without_id b1 (o_id r))) = Some b2"
    "book_ok sm sm_inv b2 (upd_queue L s i ks)" "hview (heap b2) = (hview (heap b))(k := None)"
    "same_shape b b2"
proof -
  obtain l where l: "i < num_ticks b" "list_get (ladder b s) i = Some (Some l)"
    "level_ok (heap b) l (k # ks)" "l_price l = idx_to_price b i"
    using best_front [OF ok i] L by (metis list.inject)
  obtain l' a where rm: "fill_head sm l f (b_arena b) = Some (True, l', a)" "sm_inv a"
    "level_ok (sm_get sm a) l' ks" "l_price l' = l_price l" "sm_capacity sm a = sm_capacity sm (b_arena b)"
    "hview (sm_get sm a) = (hview (heap b))(k := None)"
    and frame: "\<And>j. j \<notin> set (k # ks) \<Longrightarrow> sm_get sm a j = heap b j"
    using fill_head_full [OF book_okD(1) [OF ok] l(3) r f] by auto
  define b1 where "b1 = set_ladder (b\<lparr>b_arena := a\<rparr>) s ((ladder b s)[i := Some l'])"
  have c: "fill_level_head sm b s i f = Some (True, b1)"
    using l rm(1) by (simp add: fill_level_head_def b1_def)
  show ?thesis
    by (rule head_unlinked [OF ok l(1) L r rm(2,5,6,3), where bx = "without_id b1 (o_id r)"])
      (use rm(4) l(4) frame that [OF c] in \<open>auto simp: b1_def\<close>)
qed

lemma fill_part_step:
  assumes ok: "book_ok sm sm_inv b L" and i: "best_ptr b s = Some i"
    and L: "L s i = k # ks" and r: "heap b k = Some r" and f: "o_qty_remaining r \<noteq> f"
  obtains b1 where "fill_level_head sm b s i f = Some (False, b1)"
    "book_ok sm sm_inv b1 L" "same_shape b b1"
    "hview (heap b1) = (hview (heap b))(k \<mapsto> (view r)\<lparr>bo_qty := o_qty_remaining r - f\<rparr>)"
proof -
  obtain l where l: "i < num_ticks b" "list_get (ladder b s) i = Some (Some l)"
    "level_ok (heap b) l (k # ks)" "l_price l = idx_to_price b i"
    using best_front [OF ok i] L by (metis list.inject)
  obtain l' a where rm: "fill_head sm l f (b_arena b) = Some (False, l', a)" "sm_inv a"
    "level_ok (sm_get sm a) l' (k # ks)" "l_price l' = l_price l" "sm_capacity sm a = sm_capacity sm (b_arena b)"
    "hview (sm_get sm a) = (hview (heap b))(k \<mapsto> (view r)\<lparr>bo_qty := o_qty_remaining r - f\<rparr>)"
    and frame: "\<And>j. j \<noteq> k \<Longrightarrow> sm_get sm a j = heap b j"
    using fill_head_partial [OF book_okD(1) [OF ok] l(3) r f] by auto
  define b1 where "b1 = set_ladder (b\<lparr>b_arena := a\<rparr>) s ((ladder b s)[i := Some l'])"
  have "fill_level_head sm b s i f = Some (False, b1)"
    using l rm(1) by (simp add: fill_level_head_def b1_def)
  moreover have "book_ok sm sm_inv b1 L"
    by (rule book_change [OF ok L hview_Some [of "heap b" k r, OF r] rm(2,6,3)]) (use rm(4) l(4) frame in \<open>simp_all add: b1_def\<close>)
  moreover have "same_shape b b1" "b_arena b1 = a"
    using rm(5) by (cases s; simp add: b1_def; fail)+
  ultimately show ?thesis
    using that rm(6) by simp
qed

subsection \<open>The matching loop is the sweep\<close>

abbreviation turn where
  "turn ag st \<equiv> match_turn sm (ag_seq ag) (ag_ts ag) (ag_symbol ag) (ag_side ag) (ag_price ag) (ag_seq ag)
     (ag_account ag) (ag_type ag) st"

abbreviation loop where
  "loop ag st \<equiv> match_against_book sm (ag_seq ag) (ag_ts ag) (ag_symbol ag) (ag_side ag) (ag_price ag)
     (ag_seq ag) (ag_account ag) (ag_type ag) st"

lemma crosses_at_eq: "crosses_at s t p mp = crosses s t p mp"
  by (cases s; cases t) auto

lemma aggressor_best_eq:
  "aggressor_best b s t p = map_option (\<lambda>i. (i, crosses s t p (idx_to_price b i))) (best_ptr b (opposite s))"
  by (cases s; cases t) auto

lemma turn_break:
  assumes ok: "book_ok sm sm_inv b L"
    and stop: "q = 0 \<or> sideq b L (opposite (ag_side ag)) = [] \<or>
      \<not> crosses (ag_side ag) (ag_type ag) (ag_price ag) (bo_price (hd (sideq b L (opposite (ag_side ag)))))"
  shows "turn ag (q, b, es) = Some (Break (q, b, es))"
proof (cases "best_ptr b (opposite (ag_side ag))")
  case None
  then show ?thesis
    by (simp add: match_turn_def aggressor_best_eq)
next
  case (Some i)
  obtain k ks r post where f: "side_keys L (opposite (ag_side ag)) (num_ticks b) = k # ks @ post"
    "heap b k = Some r" "o_price r = idx_to_price b i"
    using best_front [OF ok Some] by metis
  then show ?thesis
    using Some stop by (auto simp: match_turn_def aggressor_best_eq hview_Some)
qed

lemma sideq_change:
  assumes ok: "book_ok sm sm_inv b L" and keys: "side_keys L s (num_ticks b) = k # ks"
    and b': "hview (heap b') = (hview (heap b))(k \<mapsto> y)" "num_ticks b' = num_ticks b"
  shows "sideq b' L = (sideq b L)(s := y # queue_of (hview (heap b)) ks)"
proof
  fix s'
  have k: "k \<notin> set ks"
    using side_keys_distinct [OF ok, of s "num_ticks b"] keys by simp
  show "sideq b' L s' = ((sideq b L)(s := y # queue_of (hview (heap b)) ks)) s'"
  proof (cases "s' = s")
    case True
    then show ?thesis
      using k by (simp add: b' keys)
  next
    case False
    then have "k \<notin> set (side_keys L s' (num_ticks b))"
      using side_keys_sides [OF ok, of k s] side_keys_sides [OF ok, of k s'] keys by auto
    then show ?thesis
      using False by (simp add: b')
  qed
qed

text \<open>The front order an aggressor meets, with what happens to the queues when it is taken out or
  changed.\<close>

lemma turn_front:
  assumes ok: "book_ok sm sm_inv b L" and opp: "opp = opposite (ag_side ag)"
    and ms: "sideq b L opp = m # ms"
    and cr: "crosses (ag_side ag) (ag_type ag) (ag_price ag) (bo_price m)"
  obtains i k ks r l where "best_ptr b opp = Some i" "L opp i = k # ks" "heap b k = Some r"
    "get_level_mut b opp i = Some (Some l)" "peek_head l = Some k" "m = view r"
    "aggressor_best b (ag_side ag) (ag_type ag) (ag_price ag) = Some (i, True)"
    "\<forall>b'. hview (heap b') = (hview (heap b))(k := None) \<and> same_shape b b' \<longrightarrow>
       sideq b' (upd_queue L opp i ks) = (sideq b L)(opp := ms)"
    "\<forall>b' y. hview (heap b') = (hview (heap b))(k \<mapsto> y) \<and> same_shape b b' \<longrightarrow>
       sideq b' L = (sideq b L)(opp := y # ms)"
proof -
  obtain i where i: "best_ptr b opp = Some i"
    using ms side_keys_none [of L opp] book_okD(5) [OF ok, of opp] by (cases "best_ptr b opp") auto
  obtain k ks r l post where f: "L opp i = k # ks" "heap b k = Some r"
    "list_get (ladder b opp) i = Some (Some l)" "peek_head l = Some k" "o_price r = idx_to_price b i"
    "side_keys L opp (num_ticks b) = k # ks @ post"
    "\<And>ks'. side_keys (upd_queue L opp i ks') opp (num_ticks b) = ks' @ post"
    using best_front [OF ok i] by metis
  have m: "m = view r" "ms = queue_of (hview (heap b)) (ks @ post)"
    using ms f(2,6) by (simp_all add: hview_Some)
  have best: "aggressor_best b (ag_side ag) (ag_type ag) (ag_price ag) = Some (i, True)"
    using i cr f(5) m(1) by (simp add: aggressor_best_eq opp)
  have unlinked: "sideq b' (upd_queue L opp i ks) = (sideq b L)(opp := ms)"
    if "hview (heap b') = (hview (heap b))(k := None)" "same_shape b b'" for b'
    using sideq_unlink [OF ok, of opp "[]" k "ks @ post" "upd_queue L opp i ks" b'] that f(6,7) m(2) by simp
  have changed: "sideq b' L = (sideq b L)(opp := y # ms)"
    if "hview (heap b') = (hview (heap b))(k \<mapsto> y)" "same_shape b b'" for b' y
    using sideq_change [OF ok f(6) that(1)] that(2) m(2) by simp
  show ?thesis
    by (rule that [OF i f(1,2) _ f(4) m(1) best]) (use f(3) unlinked changed in \<open>auto simp: get_level_mut_def\<close>)
qed

lemma abs_with_queue: "ab_queue (abs_with sm b L) s = sideq b L s"
  by (simp add: abs_with_def)

lemma abs_withI:
  "sideq b' L' = (sideq b L)(s := ms) \<Longrightarrow> same_shape b b' \<Longrightarrow>
   abs_with sm b' L' = set_queue (abs_with sm b L) s ms"
  by (simp add: abs_with_def set_queue_def)

lemma set_queue_same: "ab_queue ab s = ms \<Longrightarrow> set_queue ab s ms = ab"
  by auto

lemma turn_stp:
  assumes ok: "book_ok sm sm_inv b L" and opp: "opp = opposite (ag_side ag)"
    and ms: "ab_queue (abs_with sm b L) opp = m # ms" and q: "q \<noteq> 0"
    and cr: "crosses (ag_side ag) (ag_type ag) (ag_price ag) (bo_price m)"
    and acc: "bo_account m = ag_account ag"
  shows "\<exists>b' L'. turn ag (q, b, es) = Some (Continue (q, b', es @ [Cancelled (ag_seq ag) (bo_id m)])) \<and>
    book_ok sm sm_inv b' L' \<and> abs_with sm b' L' = set_queue (abs_with sm b L) opp ms"
proof -
  obtain i k ks r l where f: "best_ptr b opp = Some i" "L opp i = k # ks" "heap b k = Some r"
    "get_level_mut b opp i = Some (Some l)" "peek_head l = Some k" "m = view r"
    "aggressor_best b (ag_side ag) (ag_type ag) (ag_price ag) = Some (i, True)"
    and u: "\<forall>b'. hview (heap b') = (hview (heap b))(k := None) \<and> same_shape b b' \<longrightarrow>
       sideq b' (upd_queue L opp i ks) = (sideq b L)(opp := ms)"
    and v: "\<forall>b' y. hview (heap b') = (hview (heap b))(k \<mapsto> y) \<and> same_shape b b' \<longrightarrow>
       sideq b' L = (sideq b L)(opp := y # ms)"
    using turn_front [OF ok opp ms [unfolded abs_with_queue] cr] .
  obtain b1 b2 e where st: "cancel_resting_head sm b opp i = Some (Some (o_id r), b1)"
    "is_level_empty (without_id b1 (o_id r)) opp i = Some e"
    "(if e then clear_empty_best (without_id b1 (o_id r)) opp i else Some (without_id b1 (o_id r))) = Some b2"
    "book_ok sm sm_inv b2 (upd_queue L opp i ks)" "hview (heap b2) = (hview (heap b))(k := None)" "same_shape b b2"
    using stp_step [OF ok f(1,2,3)] .
  have "turn ag (q, b, es) = Some (Continue (q, b2, es @ [Cancelled (ag_seq ag) (bo_id m)]))"
    using q f(3-7) acc st(1,2,3) by (cases e) (simp_all add: match_turn_def opp)
  then show ?thesis
    using st(4,6) abs_withI [of b2] u st(5) by blast
qed

lemma turn_part:
  assumes ok: "book_ok sm sm_inv b L" and opp: "opp = opposite (ag_side ag)"
    and ms: "ab_queue (abs_with sm b L) opp = m # ms" and q: "q \<noteq> 0"
    and cr: "crosses (ag_side ag) (ag_type ag) (ag_price ag) (bo_price m)"
    and acc: "bo_account m \<noteq> ag_account ag" and lt: "q < bo_qty m"
  shows "\<exists>b'. turn ag (q, b, es) = Some (Continue (0, b', es @ [trade_of ag m q q])) \<and>
    book_ok sm sm_inv b' L \<and> 
    abs_with sm b' L = set_queue (abs_with sm b L) opp (m\<lparr>bo_qty := bo_qty m - q\<rparr> # ms)"
proof -
  obtain i k ks r l where f: "best_ptr b opp = Some i" "L opp i = k # ks" "heap b k = Some r"
    "get_level_mut b opp i = Some (Some l)" "peek_head l = Some k" "m = view r"
    "aggressor_best b (ag_side ag) (ag_type ag) (ag_price ag) = Some (i, True)"
    and v: "\<forall>b'. hview (heap b') = (hview (heap b))(k := None) \<and> same_shape b b' \<longrightarrow>
       sideq b' (upd_queue L opp i ks) = (sideq b L)(opp := ms)"
    and u: "\<forall>b' y. hview (heap b') = (hview (heap b))(k \<mapsto> y) \<and> same_shape b b' \<longrightarrow>
       sideq b' L = (sideq b L)(opp := y # ms)"
    using turn_front [OF ok opp ms [unfolded abs_with_queue] cr] .
  have ne: "o_qty_remaining r \<noteq> q"
    using f(6) lt by auto
  obtain b1 where st: "fill_level_head sm b opp i q = Some (False, b1)" "book_ok sm sm_inv b1 L"
    "same_shape b b1" "hview (heap b1) = (hview (heap b))(k \<mapsto> (view r)\<lparr>bo_qty := o_qty_remaining r - q\<rparr>)"
    using fill_part_step [OF ok f(1,2,3) ne] .
  have "turn ag (q, b, es) = Some (Continue (0, b1, es @ [trade_of ag m q q]))"
    using q f(3-7) acc lt st(1) by (simp add: match_turn_def opp trade_of_def Let_def)
  moreover have "abs_with sm b1 L = set_queue (abs_with sm b L) opp (m\<lparr>bo_qty := bo_qty m - q\<rparr> # ms)"
    using u st(4,3) f(6) by (intro abs_withI) simp_all
  ultimately show ?thesis
    using st(2) by blast
qed

lemma turn_full:
  assumes ok: "book_ok sm sm_inv b L" and opp: "opp = opposite (ag_side ag)"
    and ms: "ab_queue (abs_with sm b L) opp = m # ms" and q: "q \<noteq> 0"
    and cr: "crosses (ag_side ag) (ag_type ag) (ag_price ag) (bo_price m)"
    and acc: "bo_account m \<noteq> ag_account ag" and ge: "\<not> q < bo_qty m"
  shows "\<exists>b' L'. turn ag (q, b, es) = Some (Continue (q - bo_qty m, b', es @ [trade_of ag m (bo_qty m) q])) \<and>
    book_ok sm sm_inv b' L' \<and> abs_with sm b' L' = set_queue (abs_with sm b L) opp ms"
proof -
  obtain i k ks r l where f: "best_ptr b opp = Some i" "L opp i = k # ks" "heap b k = Some r"
    "get_level_mut b opp i = Some (Some l)" "peek_head l = Some k" "m = view r"
    "aggressor_best b (ag_side ag) (ag_type ag) (ag_price ag) = Some (i, True)"
    and u: "\<forall>b'. hview (heap b') = (hview (heap b))(k := None) \<and> same_shape b b' \<longrightarrow>
       sideq b' (upd_queue L opp i ks) = (sideq b L)(opp := ms)"
    and v: "\<forall>b' y. hview (heap b') = (hview (heap b))(k \<mapsto> y) \<and> same_shape b b' \<longrightarrow>
       sideq b' L = (sideq b L)(opp := y # ms)"
    using turn_front [OF ok opp ms [unfolded abs_with_queue] cr] .
  obtain b1 b2 e where st: "fill_level_head sm b opp i (o_qty_remaining r) = Some (True, b1)"
    "is_level_empty (without_id b1 (o_id r)) opp i = Some e"
    "(if e then clear_empty_best (without_id b1 (o_id r)) opp i else Some (without_id b1 (o_id r))) = Some b2"
    "book_ok sm sm_inv b2 (upd_queue L opp i ks)" "hview (heap b2) = (hview (heap b))(k := None)" "same_shape b b2"
    using fill_full_step [OF ok f(1,2,3) refl] .
  have "turn ag (q, b, es) = Some (Continue (q - bo_qty m, b2, es @ [trade_of ag m (bo_qty m) q]))"
    using q f(3-7) acc ge st(1,2,3) by (cases e) (simp_all add: match_turn_def opp trade_of_def Let_def)
  then show ?thesis
    using st(4,6) abs_withI [of b2] u st(5) by blast
qed

lemma loop_break: "turn ag st = Some (Break st') \<Longrightarrow> loop ag st = Some st'"
  by (subst match_against_book.simps) simp

lemma loop_continue: "turn ag st = Some (Continue st') \<Longrightarrow> loop ag st = loop ag st'"
  by (subst match_against_book.simps) simp

text \<open>The loop returns on every well-formed book, and does to the queues what the sweep does.\<close>

lemma loop_sweep:
  assumes "book_ok sm sm_inv b L" "opp = opposite (ag_side ag)" "ab_queue (abs_with sm b L) opp = ms"
    "sweep ag q ms = (q', ms', es')"
  shows "\<exists>b' L'. loop ag (q, b, es) = Some (q', b', es @ es') \<and> book_ok sm sm_inv b' L' \<and>
    abs_with sm b' L' = set_queue (abs_with sm b L) opp ms'"
  using assms
proof (induction ms arbitrary: b L q es es' q' ms')
  case Nil
  then have "turn ag (q, b, es) = Some (Break (q, b, es))"
    by (intro turn_break) (auto simp: abs_with_queue)
  then have "loop ag (q, b, es) = Some (q, b, es)"
    by (rule loop_break)
  moreover have "q' = q" "ms' = []" "es' = []"
    using Nil(4) by simp_all
  ultimately show ?case
    using Nil(1) set_queue_same [OF Nil(3)] by (metis append_Nil2)
next
  case (Cons m ms)
  note ok = Cons.prems(1) and opp = Cons.prems(2) and ms = Cons.prems(3) and sw = Cons.prems(4)
  let ?cr = "crosses (ag_side ag) (ag_type ag) (ag_price ag) (bo_price m)"
  have rec: ?case
    if t: "turn ag (q, b, es) = Some (Continue (q1, b1, es @ [e]))" and b1: "book_ok sm sm_inv b1 L1"
      "abs_with sm b1 L1 = set_queue (abs_with sm b L) opp ms"
      and s1: "sweep ag q1 ms = (q', ms', es1)" "es' = e # es1" for q1 b1 L1 e es1
    using Cons.IH [OF b1(1) opp _ s1(1), of "es @ [e]"] s1(2) loop_continue [OF t] by (simp add: b1(2))
  consider "q = 0 \<or> \<not> ?cr" | "q \<noteq> 0" ?cr "bo_account m = ag_account ag"
    | "q \<noteq> 0" ?cr "bo_account m \<noteq> ag_account ag" "q < bo_qty m"
    | "q \<noteq> 0" ?cr "bo_account m \<noteq> ag_account ag" "\<not> q < bo_qty m"
    by blast
  then show ?case
  proof cases
    case 1
    then have "turn ag (q, b, es) = Some (Break (q, b, es))"
      using ms opp by (intro turn_break [OF ok]) (auto simp: abs_with_queue)
    then have "loop ag (q, b, es) = Some (q, b, es)"
      by (rule loop_break)
    moreover have "q' = q" "ms' = m # ms" "es' = []"
      using sw 1 by auto
    ultimately show ?thesis
      using ok set_queue_same [OF ms] by (metis append_Nil2)
  next
    case 2
    then show ?thesis
      using turn_stp [OF ok opp ms 2, of es] sw rec by (auto split: prod.splits)
  next
    case 3
    obtain b1 where b1: "turn ag (q, b, es) = Some (Continue (0, b1, es @ [trade_of ag m q q]))"
      "book_ok sm sm_inv b1 L" "abs_with sm b1 L = set_queue (abs_with sm b L) opp (m\<lparr>bo_qty := bo_qty m - q\<rparr> # ms)"
      using turn_part [OF ok opp ms 3, of es] by blast
    have "loop ag (0, b1, es @ [trade_of ag m q q]) = Some (0, b1, es @ [trade_of ag m q q])"
      by (rule loop_break [OF turn_break [OF b1(2)]]) simp
    then show ?thesis
      using 3 sw b1 loop_continue [OF b1(1)] by (intro exI [of _ b1] exI [of _ L]) simp
  next
    case 4
    then show ?thesis
      using turn_full [OF ok opp ms 4, of es] sw rec by (auto split: prod.splits)
  qed
qed

end

end
