(* ===== verification/Book_Correct.thy ===== *)
theory Book_Correct
  imports Book_Refine
begin

text \<open>
  The command handlers against the specification: the fill-or-kill check computes \<open>fillable\<close>,
  resting an order is \<open>enqueue\<close>, a cancel is a filter, and \<open>apply_cmd\<close> is \<open>spec_apply\<close>.
\<close>

subsection \<open>Fill-or-kill\<close>

definition offered :: "account_id \<Rightarrow> book_order list \<Rightarrow> nat" where
  "offered acct ms = (\<Sum>m \<leftarrow> filter (\<lambda>m. bo_account m \<noteq> acct) ms. unat (bo_qty m))"

lemma offered_simps [simp]:
  "offered acct [] = 0"
  "offered acct (m # ms) = (if bo_account m \<noteq> acct then unat (bo_qty m) else 0) + offered acct ms"
  "offered acct (ms @ ms') = offered acct ms + offered acct ms'"
  by (simp_all add: offered_def)

lemma unat_saturating_sub: "unat (u64_saturating_sub a b) = unat a - unat b"
  by (simp add: u64_saturating_sub_def unat_sub word_less_nat_alt not_less word_le_nat_alt)

lemma takeWhile_all_append: "(\<And>x. x \<in> set xs \<Longrightarrow> P x) \<Longrightarrow> takeWhile P (xs @ ys) = xs @ takeWhile P ys"
  by (rule takeWhile_append2)

lemma rev_upt_map: "rev [0..<n] = map (\<lambda>i. n - 1 - i) [0..<n]"
  by (rule nth_equalityI) (auto simp: rev_nth)

lemma side_order_sorted: "sorted_wrt (better s) (side_order s n)"
proof (cases s)
  case Buy
  have "sorted_wrt (\<lambda>i j. better Buy j i) [0..<n]"
    by (simp add: sorted_wrt_iff_nth_less)
  then show ?thesis
    using Buy by (simp add: sorted_wrt_rev)
next
  case Sell
  then show ?thesis
    by (simp add: sorted_wrt_iff_nth_less)
qed

lemma price_to_idx_cong:
  "b_tick_floor b' = b_tick_floor b \<Longrightarrow> num_ticks b' = num_ticks b \<Longrightarrow> price_to_idx b' p = price_to_idx b p"
  by (simp only: price_to_idx_def)

lemma the_image_dom: "(the \<circ> f) ` dom f = ran f"
proof
  show "(the \<circ> f) ` dom f \<subseteq> ran f"
    by (auto intro: ranI)
  show "ran f \<subseteq> (the \<circ> f) ` dom f"
    unfolding ran_def by (auto intro!: rev_image_eqI)
qed

context order_arena
begin

lemma fillable_level_ok:
  assumes "dseg (sm_get sm a) p ks None"
  shows "\<exists>rem'. fillable_level sm a acct rem (firsto ks None) = Some rem' \<and>
    unat rem' = unat rem - offered acct (queue_of (hview (sm_get sm a)) ks)"
  using assms
proof (induction ks arbitrary: p rem)
  case Nil
  then show ?case
    by (simp add: fillable_level.simps)
next
  case (Cons k ks)
  then obtain r where r: "sm_get sm a k = Some r" "o_next r = firsto ks None"
    by auto
  define rm where "rm = (if o_account r \<noteq> acct then u64_saturating_sub rem (o_qty_remaining r) else rem)"
  have rm: "unat rm = unat rem - (if o_account r \<noteq> acct then unat (o_qty_remaining r) else 0)"
    by (simp add: rm_def unat_saturating_sub)
  obtain rem' where rem': "fillable_level sm a acct rm (firsto ks None) = Some rem'"
    "unat rem' = unat rm - offered acct (queue_of (hview (sm_get sm a)) ks)"
    using Cons.IH [of "Some k" rm] Cons.prems by auto
  show ?case
  proof (cases "o_account r \<noteq> acct \<and> rm = 0")
    case True
    then have "u64_saturating_sub rem (o_qty_remaining r) = 0"
      by (auto simp: rm_def)
    then show ?thesis
      using r True unat_saturating_sub [of rem "o_qty_remaining r"]
      by (subst fillable_level.simps) (simp add: hview_Some)
  next
    case False
    then have "fillable_level sm a acct rem (firsto (k # ks) None) = Some rem'"
      using r rem'(1) by (subst fillable_level.simps) (auto simp: rm_def Let_def)
    then show ?thesis
      using rem'(2) rm r(1) by (simp add: hview_Some)
  qed
qed

lemma crosses_mono:
  assumes "ladder_ok h b L" "i < num_ticks b" "j < num_ticks b" "better (opposite s) i j"
    "crosses s t p (idx_to_price b j)"
  shows "crosses s t p (idx_to_price b i)"
proof -
  have "sint (idx_to_price b i) = sint (b_tick_floor b) + int i" "sint (idx_to_price b j) = sint (b_tick_floor b) + int j"
    using sint_idx_to_price [OF assms(1)] assms(2,3) by blast+
  then show ?thesis
    using assms(4,5) by (cases s; cases t) auto
qed

abbreviation idxs_queue :: "('k, 's) order_book \<Rightarrow> 'k queues \<Rightarrow> side \<Rightarrow> nat list \<Rightarrow> book_order list" where
  "idxs_queue b L s js \<equiv> queue_of (hview (heap b)) (concat (map (L s) js))"

lemma queue_at_price:
  assumes ok: "book_ok sm sm_inv b L" and m: "m \<in> set (queue_of (hview (heap b)) (L s i))"
  shows "bo_price m = idx_to_price b i"
  using m owner_okD(1) [OF book_okD(3) [OF ok], of _ s i] by (force simp: queue_of_def)

lemma not_crossing_level:
  assumes ok: "book_ok sm sm_inv b L" and js: "sorted_wrt (better (opposite s)) (i # js)"
    "\<And>j. j \<in> set (i # js) \<Longrightarrow> j < num_ticks b"
    and cr: "\<not> crosses s t p (idx_to_price b i)"
  shows "takeWhile (\<lambda>m. crosses s t p (bo_price m)) (idxs_queue b L (opposite s) (i # js)) = []"
proof -
  have "\<not> crosses s t p (bo_price m)" if m: "m \<in> set (idxs_queue b L (opposite s) (i # js))" for m
  proof -
    obtain j where j: "j \<in> set (i # js)" "m \<in> set (queue_of (hview (heap b)) (L (opposite s) j))"
      using m by (auto simp: queue_of_def)
    have "\<not> crosses s t p (idx_to_price b j)"
      using crosses_mono [OF book_okD(2) [OF ok], of i j s t p] js cr j(1) by auto
    then show ?thesis
      using queue_at_price [OF ok j(2)] by simp
  qed
  then show ?thesis
    unfolding takeWhile_eq_Nil_iff using hd_in_set by blast
qed

lemma fillable_steps_ok:
  assumes ok: "book_ok sm sm_inv b L"
    and js: "sorted_wrt (better (opposite s)) (map f steps)"
      "\<And>j. j \<in> set steps \<Longrightarrow> f j < num_ticks b"
    and f: "\<And>j. f j = (case s of Buy \<Rightarrow> j | Sell \<Rightarrow> num_ticks b - 1 - j)"
  shows "\<exists>rem'. fillable_steps sm b s p acct t rem steps = Some rem' \<and>
    unat rem' = unat rem - offered acct (takeWhile (\<lambda>m. crosses s t p (bo_price m))
      (idxs_queue b L (opposite s) (map f steps)))"
  using js
proof (induction steps arbitrary: rem)
  case Nil
  then show ?case by simp
next
  case (Cons j steps)
  note lad = book_okD(2) [OF ok]
  have len: "length (ladder b (opposite s)) = num_ticks b"
    using ladder_okD(1) [OF lad] .
  have i: "f j < num_ticks b"
    using Cons.prems(2) by simp
  have idx: "(case s of Buy \<Rightarrow> j | Sell \<Rightarrow> length (ladder b (opposite s)) - 1 - j) = f j"
    using len by (cases s) (simp_all add: f)
  show ?case
  proof (cases "rem = 0 \<or> \<not> crosses s t p (idx_to_price b (f j))")
    case True
    then have "fillable_steps sm b s p acct t rem (j # steps) = Some rem"
      using idx by (auto simp: crosses_at_eq Let_def)
    moreover have "takeWhile (\<lambda>m. crosses s t p (bo_price m)) (idxs_queue b L (opposite s) (map f (j # steps))) = []"
      if "\<not> crosses s t p (idx_to_price b (f j))"
      using not_crossing_level [OF ok _ _ that, of "map f steps"] Cons.prems by auto
    ultimately show ?thesis
      using True by (metis diff_0_eq_0 offered_simps(1) diff_zero unat_0)
  next
    case False
    let ?Q = "queue_of (hview (heap b)) (L (opposite s) (f j))"
    have slot: "slot_ok (heap b) (idx_to_price b (f j)) (ladder b (opposite s) ! f j) (L (opposite s) (f j))"
      using ladder_okD(3) [OF lad i] .
    have tw: "takeWhile (\<lambda>m. crosses s t p (bo_price m)) (idxs_queue b L (opposite s) (map f (j # steps))) =
        ?Q @ takeWhile (\<lambda>m. crosses s t p (bo_price m)) (idxs_queue b L (opposite s) (map f steps))"
      using False queue_at_price [OF ok] by (simp add: takeWhile_all_append)
    obtain rm where rm: "unat rm = unat rem - offered acct ?Q"
      "fillable_steps sm b s p acct t rem (j # steps) = fillable_steps sm b s p acct t rm steps"
    proof (cases "ladder b (opposite s) ! f j")
      case None
      then show ?thesis
        using that [of rem] slot False i len by (simp add: idx crosses_at_eq Let_def)
    next
      case (Some l)
      then show ?thesis
        using slot fillable_level_ok [of "b_arena b" None "L (opposite s) (f j)" acct rem] False i len that
        by (auto simp: idx crosses_at_eq Let_def level_ok_def peek_head_def)
    qed
    then show ?thesis
      using Cons.IH [of rm] Cons.prems tw by auto
  qed
qed

lemma can_fully_fill_ok:
  assumes ok: "book_ok sm sm_inv b L"
  shows "can_fully_fill sm b (ag_side ag) (ag_price ag) q (ag_account ag) (ag_type ag) =
    Some (unat q \<le> fillable ag (ab_queue (abs_with sm b L) (opposite (ag_side ag))))"
proof -
  let ?s = "ag_side ag"
  define f where "f = (\<lambda>j. case ?s of Buy \<Rightarrow> j | Sell \<Rightarrow> num_ticks b - 1 - j)"
  have m: "map f [0..<num_ticks b] = side_order (opposite ?s) (num_ticks b)"
    by (cases ?s) (simp_all add: f_def rev_upt_map)
  have lt: "f j < num_ticks b" if "j \<in> set [0..<num_ticks b]" for j
    using that by (cases ?s) (simp_all add: f_def)
  have srt: "sorted_wrt (better (opposite ?s)) (map f [0..<num_ticks b])"
    by (simp only: m side_order_sorted)
  have fe: "f j = (case ?s of Buy \<Rightarrow> j | Sell \<Rightarrow> num_ticks b - 1 - j)" for j
    by (simp add: f_def)
  obtain r where r: "fillable_steps sm b ?s (ag_price ag) (ag_account ag) (ag_type ag) q [0..<num_ticks b] = Some r"
    "unat r = unat q - offered (ag_account ag) (takeWhile (\<lambda>m. crosses ?s (ag_type ag) (ag_price ag) (bo_price m))
      (idxs_queue b L (opposite ?s) (map f [0..<num_ticks b])))"
    using fillable_steps_ok [OF ok srt lt fe] by blast
  have "unat r = unat q - fillable ag (ab_queue (abs_with sm b L) (opposite ?s))"
    using r(2) by (simp add: m fillable_def offered_def abs_with_queue side_keys_def)
  then have "r = 0 \<longleftrightarrow> unat q \<le> fillable ag (ab_queue (abs_with sm b L) (opposite ?s))"
    by (simp add: unat_eq_0 [symmetric])
  then show ?thesis
    using r(1) ladder_okD(1) [OF book_okD(2) [OF ok]] by (simp add: can_fully_fill_def)
qed

subsection \<open>Resting an order\<close>

lemma ahead_idx:
  assumes "ladder_ok h b L" "i < num_ticks b" "j < num_ticks b"
  shows "ahead s (idx_to_price b j) (idx_to_price b i) \<longleftrightarrow> \<not> better s i j"
  using sint_idx_to_price [OF assms(1,2)] sint_idx_to_price [OF assms(1,3)] by (cases s) auto

lemma enqueue_split:
  assumes "\<And>m. m \<in> set A \<Longrightarrow> ahead (bo_side x) (bo_price m) (bo_price x)"
    "\<And>m. m \<in> set B \<Longrightarrow> \<not> ahead (bo_side x) (bo_price m) (bo_price x)"
  shows "enqueue x (A @ B) = A @ x # B"
proof -
  have "takeWhile (\<lambda>m. ahead (bo_side x) (bo_price m) (bo_price x)) B = []"
    "dropWhile (\<lambda>m. ahead (bo_side x) (bo_price m) (bo_price x)) B = B"
    using assms(2) by (cases B; simp)+
  then show ?thesis
    using assms(1) by (simp add: enqueue_def)
qed

lemma sideq_push:
  assumes ok: "book_ok sm sm_inv b L" and i: "i < num_ticks b" and k: "heap b k = None"
    and x: "bo_side x = s" "bo_price x = idx_to_price b i"
    and b': "hview (heap b') = (hview (heap b))(k \<mapsto> x)" "num_ticks b' = num_ticks b"
  shows "sideq b' (upd_queue L s i (L s i @ [k])) = (sideq b L)(s := enqueue x (sideq b L s))"
proof
  fix s'
  note lad = book_okD(2) [OF ok]
  have kn: "k \<notin> set (side_keys L s' (num_ticks b))" for s'
    using side_keys_dom [OF ok] k by (cases s') auto
  obtain pre post where p: "\<And>ks. side_keys (upd_queue L s i ks) s (num_ticks b) = pre @ ks @ post"
    "\<And>k. k \<in> set pre \<Longrightarrow> \<exists>j<num_ticks b. better s j i \<and> k \<in> set (L s j)"
    "\<And>k. k \<in> set post \<Longrightarrow> \<exists>j<num_ticks b. better s i j \<and> k \<in> set (L s j)"
    using side_keys_upd [OF i, of L s] by blast
  have L: "side_keys L s (num_ticks b) = pre @ L s i @ post"
    using p(1) [of "L s i"] by simp
  let ?v = "hview (heap b)"
  have pr: "ahead s (bo_price (the (?v j))) (bo_price x) \<longleftrightarrow> \<not> better s i i'" if "j \<in> set (L s i')" "i' < num_ticks b" for j i'
    using that owner_okD(1) [OF book_okD(3) [OF ok] that(1)] ahead_idx [OF lad i that(2), of s] x(2) by auto
  have "enqueue x (queue_of ?v (pre @ L s i) @ queue_of ?v post) = queue_of ?v (pre @ L s i) @ x # queue_of ?v post"
    by (rule enqueue_split) (use p(2,3) pr i x(1) better_asym in \<open>force simp: queue_of_def\<close>)+
  then show "sideq b' (upd_queue L s i (L s i @ [k])) s' = ((sideq b L)(s := enqueue x (sideq b L s))) s'"
    using kn [of s'] kn [of s] L by (cases "s' = s") (simp_all add: b' p(1))
qed

lemma price_to_idx_Some:
  assumes "ladder_ok h b L" "price_to_idx b p = Some i"
  shows "i < num_ticks b" "p = idx_to_price b i"
proof -
  show i: "i < num_ticks b"
    using assms(2) by (simp only: price_to_idx_iff)
  have "sint p = sint (idx_to_price b i)"
    using sint_idx_to_price [OF assms(1) i] assms(2) by (simp only: price_to_idx_iff)
  then show "p = idx_to_price b i"
    by (metis i64_of_sint)
qed

lemma touch_eq:
  assumes ok: "book_ok sm sm_inv b L"
  shows "touch (abs_with sm b L) s = map_option (idx_to_price b) (best_ptr b s)"
proof (cases "best_ptr b s")
  case None
  then have "side_keys L s (num_ticks b) = []"
    using book_okD(5) [OF ok, of s] by (simp add: side_keys_none)
  then show ?thesis
    using None by (simp add: touch_def abs_with_queue)
next
  case (Some i)
  obtain k ks r post where "side_keys L s (num_ticks b) = k # ks @ post" "heap b k = Some r"
    "o_price r = idx_to_price b i"
    using best_front [OF ok Some] by metis
  then show ?thesis
    using Some by (simp add: touch_def abs_with_queue hview_Some)
qed

lemma top_event_eq:
  assumes ok: "book_ok sm sm_inv b L"
  shows "book_top_event b seq symb = Some (top_event (abs_with sm b L) seq symb)"
  using touch_eq [OF ok] by (simp add: book_top_event_ok [OF ok] top_event_def)

lemma view_new: "view (resting_order_new seq acct q s p seq) = fresh_order seq acct q s p"
  by (simp add: view_def resting_order_new_def fresh_order_def)

lemma refresh_best:
  "(case s of Buy \<Rightarrow> refresh_best_bid_up b i | Sell \<Rightarrow> refresh_best_ask_down b i) =
   set_best b s (case best_ptr b s of None \<Rightarrow> Some i | Some c \<Rightarrow> if better s i c then Some i else Some c)"
  by (cases s) (auto simp: refresh_best_bid_up_def refresh_best_ask_down_def split: option.splits)

text \<open>The level a new order goes to: the one in the slot, or a new one.\<close>

lemma level_slot_ok:
  assumes ok: "book_ok sm sm_inv b L" and i: "i < num_ticks b"
    and h: "\<And>j. j \<in> set (L s i) \<Longrightarrow> h j = heap b j"
  obtains l where "(case ladder b s ! i of Some l \<Rightarrow> l | None \<Rightarrow> level_new (idx_to_price b i)) = l"
    "level_ok h l (L s i)" "l_price l = idx_to_price b i"
proof -
  have "slot_ok h (idx_to_price b i) (ladder b s ! i) (L s i)"
    using slot_ok_frame [OF ladder_okD(3) [OF book_okD(2) [OF ok] i] h] .
  then show ?thesis
    using that by (cases "ladder b s ! i") (auto simp: level_new_def intro: level_ok_new [THEN iffD2, unfolded level_new_def])
qed

lemma rest_order_ok:
  assumes ok: "book_ok sm sm_inv b L" and cap: "sm_len sm (b_arena b) < sm_capacity sm (b_arena b)"
    and p: "price_to_idx b p = Some i" and fresh: "b_id_to_key b seq = None"
  shows "\<exists>b' L'. rest_order sm b seq ts acct coid symb s p i q es =
      Some (b', es @ [Accepted seq seq ts symb acct coid s p q, top_event (abs_with sm b' L') seq symb]) \<and>
    book_ok sm sm_inv b' L' \<and> abs_with sm b' L' =
      set_queue (abs_with sm b L) s (enqueue (fresh_order seq acct q s p) (ab_queue (abs_with sm b L) s))"
proof -
  note lad = book_okD(2) [OF ok]
  have i: "i < num_ticks b" and pi: "p = idx_to_price b i"
    using price_to_idx_Some [OF lad p] by auto
  let ?r = "resting_order_new seq acct q s p seq"
  obtain k a where a: "sm_insert sm (b_arena b) ?r = (k, a)" "sm_inv a" "heap b k = None"
    "sm_get sm a = (heap b)(k \<mapsto> ?r)"
    using sm_insertE [OF book_okD(1) [OF ok]] by blast
  have kn: "k \<notin> set (L s i)"
    using owner_okD(1) [OF book_okD(3) [OF ok], of k s i] a(3) by (auto simp: hview_def)
  obtain l where l: "(case ladder b s ! i of Some l \<Rightarrow> l | None \<Rightarrow> level_new p) = l"
    "level_ok (sm_get sm a) l (L s i)" "l_price l = idx_to_price b i"
    unfolding pi by (rule level_slot_ok [OF ok i, of s "sm_get sm a"]) (use kn a(4) in auto)
  obtain l' a' where pb: "push_back sm l k a = Some (l', a')" "sm_inv a'"
    "level_ok (sm_get sm a') l' (L s i @ [k])" "l_price l' = l_price l" "sm_capacity sm a' = sm_capacity sm a"
    "hview (sm_get sm a') = hview (sm_get sm a)"
    and frame: "\<And>j. j \<notin> set (L s i) \<Longrightarrow> j \<noteq> k \<Longrightarrow> sm_get sm a' j = sm_get sm a j"
    by (rule push_back_ok [OF a(2) l(2), of k ?r]) (use a(4) kn in \<open>auto simp: resting_order_new_def\<close>)
  define b1 where "b1 = set_ladder (b\<lparr>b_id_to_key := (b_id_to_key b)(seq \<mapsto> k), b_arena := a'\<rparr>) s ((ladder b s)[i := Some l'])"
  define b' where "b' = set_best b1 s (case best_ptr b s of None \<Rightarrow> Some i | Some c \<Rightarrow> if better s i c then Some i else Some c)"
  let ?x = "fresh_order seq acct q s p" and ?L = "upd_queue L s i (L s i @ [k])"
  have hv: "hview (sm_get sm a') = (hview (heap b))(k \<mapsto> ?x)"
    by (simp add: pb(6) a(4) view_new)
  have b'f: "b_arena b' = a'" "num_ticks b' = num_ticks b" "b_tick_floor b' = b_tick_floor b"
    by (cases s; simp add: b'_def b1_def; fail)+
  have ok': "book_ok sm sm_inv b' ?L"
    by (rule book_push [OF ok i a(3), where x = ?x and a = a' and l = l'])
      (use pb l(3) fresh hv frame a(4) pi in \<open>auto simp: b'_def b1_def fresh_order_def\<close>)
  have q': "abs_with sm b' ?L = set_queue (abs_with sm b L) s (enqueue ?x (ab_queue (abs_with sm b L) s))"
    unfolding abs_with_queue
    using sideq_push [OF ok i a(3), of ?x s b'] b'f hv pi pb(5) sm_capacity(2) [OF book_okD(1) [OF ok] cap a(1)]
    by (simp add: abs_with_def set_queue_def fresh_order_def)
  have "rest_order sm b seq ts acct coid symb s p i q es =
      Some (b', es @ [Accepted seq seq ts symb acct coid s p q, top_event (abs_with sm b' ?L) seq symb])"
    using cap a(1) l(1) pb(1) i ladder_okD(1) [OF lad, of s] top_event_eq [OF ok', of seq symb]
    by (simp add: rest_order_def refresh_best b'_def b1_def Let_def)
  then show ?thesis
    using ok' q' by blast
qed

subsection \<open>Order ids\<close>

lemma in_abs_orders:
  assumes ok: "book_ok sm sm_inv b L"
  shows "ab_orders (abs_with sm b L) = ran (hview (heap b))"
proof -
  have "ab_orders (abs_with sm b L) = (the \<circ> hview (heap b)) ` dom (heap b)"
    unfolding side_keys_dom [OF ok, symmetric] by (auto simp: ab_orders_def abs_with_queue queue_of_def)
  also have "\<dots> = ran (hview (heap b))"
    unfolding dom_hview [of "heap b", symmetric] by (rule the_image_dom)
  finally show ?thesis .
qed

lemma id_None:
  assumes ok: "book_ok sm sm_inv b L"
  shows "b_id_to_key b oid = None \<longleftrightarrow> (\<forall>m \<in> ab_orders (abs_with sm b L). bo_id m \<noteq> oid)"
proof -
  have idx: "\<And>k. b_id_to_key b oid = Some k \<longleftrightarrow> (\<exists>x. hview (heap b) k = Some x \<and> bo_id x = oid)"
    using book_okD(4) [OF ok] by (simp add: index_ok_def)
  have "(\<exists>k. b_id_to_key b oid = Some k) \<longleftrightarrow> (\<exists>m \<in> ran (hview (heap b)). bo_id m = oid)"
    unfolding idx ran_def by blast
  then show ?thesis
    unfolding in_abs_orders [OF ok] by (metis option.exhaust option.distinct(1))
qed

lemma id_Some:
  assumes ok: "book_ok sm sm_inv b L" and k: "b_id_to_key b oid = Some k"
  obtains r where "heap b k = Some r" "o_id r = oid"
    "\<And>j y. hview (heap b) j = Some y \<Longrightarrow> bo_id y = oid \<Longrightarrow> j = k"
proof -
  have idx: "\<And>oid k. b_id_to_key b oid = Some k \<longleftrightarrow> (\<exists>x. hview (heap b) k = Some x \<and> bo_id x = oid)"
    using book_okD(4) [OF ok] by (simp add: index_ok_def)
  obtain r where "heap b k = Some r" "o_id r = oid"
    using idx [of oid k] k by (auto simp: hview_def)
  moreover have "j = k" if "hview (heap b) j = Some y" "bo_id y = oid" for j y
    using idx [of oid j] that k by auto
  ultimately show ?thesis
    using that by blast
qed

lemma find_unique:
  assumes "x \<in> set xs" "P x" "\<And>y. y \<in> set xs \<Longrightarrow> P y \<Longrightarrow> y = x"
  shows "find P xs = Some x"
proof -
  have "find P xs \<noteq> None"
    using assms(1,2) by (auto simp: find_None_iff)
  then obtain y where y: "find P xs = Some y"
    by blast
  then have "y \<in> set xs" "P y"
    by (auto simp: find_Some_iff)
  then show ?thesis
    using assms(3) y by blast
qed

lemma find_order_eq:
  assumes ok: "book_ok sm sm_inv b L"
  shows "find_order (abs_with sm b L) oid = Option.bind (b_id_to_key b oid) (hview (heap b))"
proof -
  have mem: "set (ab_queue (abs_with sm b L) Buy @ ab_queue (abs_with sm b L) Sell) = ran (hview (heap b))"
    using in_abs_orders [OF ok] by (simp add: ab_orders_def)
  show ?thesis
  proof (cases "b_id_to_key b oid")
    case None
    then have "find_order (abs_with sm b L) oid = None"
      using id_None [OF ok, of oid] unfolding find_order_def find_None_iff ab_orders_def by auto
    then show ?thesis
      using None by simp
  next
    case (Some k)
    obtain r where r: "heap b k = Some r" "o_id r = oid"
      and u: "\<And>j y. hview (heap b) j = Some y \<Longrightarrow> bo_id y = oid \<Longrightarrow> j = k"
      using id_Some [OF ok Some] by blast
    have "find_order (abs_with sm b L) oid = Some (view r)"
      unfolding find_order_def
    proof (rule find_unique)
      show "view r \<in> set (ab_queue (abs_with sm b L) Buy @ ab_queue (abs_with sm b L) Sell)"
        unfolding mem using hview_Some [of "heap b" k r, OF r(1)] by (rule ranI)
      fix y
      assume y: "y \<in> set (ab_queue (abs_with sm b L) Buy @ ab_queue (abs_with sm b L) Sell)" "bo_id y = oid"
      obtain j where "hview (heap b) j = Some y"
        using y(1) unfolding mem ran_def by blast
      then show "y = view r"
        using u [of j y] y(2) r(1) by (simp add: hview_Some)
    qed (simp add: r)
    then show ?thesis
      using Some r(1) by (simp add: hview_Some)
  qed
qed

lemma in_range_eq:
  assumes ok: "book_ok sm sm_inv b L"
  shows "in_range (abs_with sm b L) p \<longleftrightarrow> price_to_idx b p \<noteq> None"
proof
  assume r: "in_range (abs_with sm b L) p"
  let ?i = "nat (sint p - sint (b_tick_floor b))"
  have "?i < num_ticks b" "sint p = sint (b_tick_floor b) + int ?i"
    using r by (auto simp: in_range_def abs_with_def)
  moreover from this have "int ?i \<le> i64_max"
    using ladder_okD(2) [OF book_okD(2) [OF ok]] by linarith
  ultimately have "price_to_idx b p = Some ?i"
    unfolding price_to_idx_iff by blast
  then show "price_to_idx b p \<noteq> None"
    by simp
next
  assume "price_to_idx b p \<noteq> None"
  then show "in_range (abs_with sm b L) p"
    by (auto simp: price_to_idx_iff in_range_def abs_with_def)
qed

subsection \<open>New orders\<close>

text \<open>What the handler does after the matching loop returned.\<close>

lemma after_sweep:
  assumes ok: "book_ok sm sm_inv b L" and r: "ag_type ag = Limit \<longrightarrow> price_to_idx b (ag_price ag) = Some i"
    and fresh: "\<forall>m \<in> ab_orders (abs_with sm b L). bo_id m \<noteq> ag_seq ag" and q: "q' \<noteq> 0" "tif = Gtc" "ag_type ag = Limit"
  shows "\<exists>b' L' es'. rest_order sm b (ag_seq ag) (ag_ts ag) (ag_account ag) coid (ag_symbol ag) (ag_side ag) (ag_price ag) i q' es =
      Some (b', es @ es') \<and> book_ok sm sm_inv b' L' \<and>
    (if ab_cap (abs_with sm b L) \<le> ab_count (abs_with sm b L)
     then abs_with sm b' L' = abs_with sm b L \<and> es' = [Rejected (ag_seq ag) (ag_seq ag) (ag_account ag) coid ArenaFull]
     else abs_with sm b' L' = set_queue (abs_with sm b L) (ag_side ag)
         (enqueue (fresh_order (ag_seq ag) (ag_account ag) q' (ag_side ag) (ag_price ag)) (ab_queue (abs_with sm b L) (ag_side ag))) \<and>
       es' = [Accepted (ag_seq ag) (ag_seq ag) (ag_ts ag) (ag_symbol ag) (ag_account ag) coid (ag_side ag) (ag_price ag) q',
              top_event (abs_with sm b' L') (ag_seq ag) (ag_symbol ag)])"
proof (cases "ab_cap (abs_with sm b L) \<le> ab_count (abs_with sm b L)")
  case True
  then have full: "sm_capacity sm (b_arena b) \<le> sm_len sm (b_arena b)"
    by (simp add: abs_count [OF ok]) (simp add: abs_with_def)
  show ?thesis
    by (rule exI [of _ b], rule exI [of _ L]) (use True full ok in \<open>simp add: rest_order_def\<close>)
next
  case False
  then have "sm_len sm (b_arena b) < sm_capacity sm (b_arena b)"
    by (simp add: abs_count [OF ok]) (simp add: abs_with_def)
  moreover have "b_id_to_key b (ag_seq ag) = None"
    using fresh id_None [OF ok] by blast
  ultimately show ?thesis
    using rest_order_ok [OF ok _ _ , of "ag_price ag" i "ag_seq ag"] r q(3) False by fastforce
qed

lemma abs_with_fields [simp]:
  "ab_cap (abs_with sm b L) = sm_capacity sm (b_arena b)" "ab_floor (abs_with sm b L) = b_tick_floor b"
  "ab_ticks (abs_with sm b L) = num_ticks b"
  by (simp_all add: abs_with_def)

abbreviation handle_new where
  "handle_new b ag coid q tif \<equiv> apply_new_order sm b (ag_seq ag) (ag_ts ag) (ag_account ag) coid (ag_symbol ag)
     (ag_side ag) (ag_price ag) q (ag_type ag) tif"

lemma fresh_sweep:
  assumes "\<forall>m \<in> ab_orders ab. bo_id m \<noteq> oid" "sweep ag q (ab_queue ab s) = (q', ms, es)"
    "ab' = set_queue ab s ms"
  shows "\<forall>m \<in> ab_orders ab'. bo_id m \<noteq> oid"
proof
  fix m
  assume "m \<in> ab_orders ab'"
  then consider "m \<in> set ms" | "m \<in> ab_orders ab"
    using assms(3) by (auto simp: in_ab_orders split: if_splits)
  then show "bo_id m \<noteq> oid"
  proof cases
    case 1
    then obtain m0 where "m0 \<in> set (ab_queue ab s)" "m = m0\<lparr>bo_qty := bo_qty m\<rparr>"
      using sweep_ids [OF assms(2)] by blast
    then show ?thesis
      using assms(1) by (metis book_order.select_convs(1) book_order.surjective book_order.update_convs(3) in_ab_orders)
  next
    case 2
    then show ?thesis
      using assms(1) by blast
  qed
qed

lemma same_idx:
  assumes "abs_with sm b' L' = set_queue (abs_with sm b L) s ms"
  shows "price_to_idx b' = price_to_idx b"
proof -
  have "b_tick_floor b' = b_tick_floor b" "num_ticks b' = num_ticks b"
    using arg_cong [OF assms, of ab_floor] arg_cong [OF assms, of ab_ticks] by simp_all
  then show ?thesis
    by (intro ext price_to_idx_cong)
qed

lemma new_order_end:
  assumes b1: "book_ok sm sm_inv b1 L1" and r: "ag_type ag = Limit \<longrightarrow> price_to_idx b1 (ag_price ag) = Some i"
    and fresh: "\<forall>m \<in> ab_orders (abs_with sm b1 L1). bo_id m \<noteq> ag_seq ag"
    and handle: "handle_new b ag coid q tif =
      (if q' = 0 then do { top \<leftarrow> book_top_event b1 (ag_seq ag) (ag_symbol ag); Some (b1, es @ [top]) }
       else if tif \<noteq> Gtc \<or> ag_type ag = Market then do {
         top \<leftarrow> book_top_event b1 (ag_seq ag) (ag_symbol ag);
         Some (b1, es @ [if q' < q then Cancelled (ag_seq ag) (ag_seq ag)
           else Rejected (ag_seq ag) (ag_seq ag) (ag_account ag) coid IocNoMatch, top]) }
       else rest_order sm b1 (ag_seq ag) (ag_ts ag) (ag_account ag) coid (ag_symbol ag) (ag_side ag) (ag_price ag) i q' es)"
    and spec: "spec_new ab ag coid q tif =
      (let ab1 = abs_with sm b1 L1; seq = ag_seq ag; acct = ag_account ag in
       if q' = 0 then (ab1, es @ [top_event ab1 seq (ag_symbol ag)])
       else if tif \<noteq> Gtc \<or> ag_type ag = Market then
         (ab1, es @ [if q' < q then Cancelled seq seq else Rejected seq seq acct coid IocNoMatch,
                     top_event ab1 seq (ag_symbol ag)])
       else if ab_cap ab1 \<le> ab_count ab1 then (ab1, es @ [Rejected seq seq acct coid ArenaFull])
       else
         let ab2 = set_queue ab1 (ag_side ag) (enqueue (fresh_order seq acct q' (ag_side ag) (ag_price ag))
                     (ab_queue ab1 (ag_side ag))) in
         (ab2, es @ [Accepted seq seq (ag_ts ag) (ag_symbol ag) acct coid (ag_side ag) (ag_price ag) q',
                     top_event ab2 seq (ag_symbol ag)]))"
  shows "\<exists>b' L' es. handle_new b ag coid q tif = Some (b', es) \<and> book_ok sm sm_inv b' L' \<and>
    spec_new ab ag coid q tif = (abs_with sm b' L', es)"
proof (cases "q' = 0 \<or> tif \<noteq> Gtc \<or> ag_type ag = Market")
  case True
  then show ?thesis
    unfolding handle spec Let_def using b1 top_event_eq [OF b1, of "ag_seq ag" "ag_symbol ag"]
    by (intro exI [of _ b1] exI [of _ L1]) auto
next
  case False
  then have g: "q' \<noteq> 0" "tif = Gtc" "ag_type ag = Limit"
    by (auto intro: order_type.exhaust)
  obtain b' L' es' where "rest_order sm b1 (ag_seq ag) (ag_ts ag) (ag_account ag) coid (ag_symbol ag) (ag_side ag) (ag_price ag) i q' es =
      Some (b', es @ es')" "book_ok sm sm_inv b' L'"
    "if ab_cap (abs_with sm b1 L1) \<le> ab_count (abs_with sm b1 L1)
     then abs_with sm b' L' = abs_with sm b1 L1 \<and> es' = [Rejected (ag_seq ag) (ag_seq ag) (ag_account ag) coid ArenaFull]
     else abs_with sm b' L' = set_queue (abs_with sm b1 L1) (ag_side ag)
         (enqueue (fresh_order (ag_seq ag) (ag_account ag) q' (ag_side ag) (ag_price ag)) (ab_queue (abs_with sm b1 L1) (ag_side ag))) \<and>
       es' = [Accepted (ag_seq ag) (ag_seq ag) (ag_ts ag) (ag_symbol ag) (ag_account ag) coid (ag_side ag) (ag_price ag) q',
              top_event (abs_with sm b' L') (ag_seq ag) (ag_symbol ag)]"
    using after_sweep [OF b1 r fresh g, of coid es] by blast
  then show ?thesis
    unfolding handle spec Let_def using g by (intro exI [of _ b'] exI [of _ L'] exI [of _ "es @ es'"]) (auto split: if_splits)
qed

lemma apply_new_order_ok:
  assumes ok: "book_ok sm sm_inv b L"
    and fresh: "\<forall>m \<in> ab_orders (abs_with sm b L). bo_id m \<noteq> ag_seq ag"
  shows "\<exists>b' L' es. handle_new b ag coid q tif = Some (b', es) \<and> book_ok sm sm_inv b' L' \<and>
    spec_new (abs_with sm b L) ag coid q tif = (abs_with sm b' L', es)"
proof -
  let ?ab = "abs_with sm b L" and ?opp = "opposite (ag_side ag)"
  have ir: "(ag_type ag = Limit \<and> \<not> in_range ?ab (ag_price ag)) =
      ((if ag_type ag = Limit then price_to_idx b (ag_price ag) else Some 0) = None)"
    using in_range_eq [OF ok, of "ag_price ag"] by simp
  have ff: "can_fully_fill sm b (ag_side ag) (ag_price ag) q (ag_account ag) (ag_type ag) =
      Some (\<not> fillable ag (ab_queue ?ab ?opp) < unat q)"
    using can_fully_fill_ok [OF ok, of ag q] by (simp add: not_less)
  have triv: ?thesis if "handle_new b ag coid q tif = Some (b, es)" "spec_new ?ab ag coid q tif = (?ab, es)" for es
    using that ok by blast
  consider (zero) "q = 0" | (range) "q \<noteq> 0" "(if ag_type ag = Limit then price_to_idx b (ag_price ag) else Some 0) = None"
    | (fok) i where "q \<noteq> 0" "(if ag_type ag = Limit then price_to_idx b (ag_price ag) else Some 0) = Some i"
        "tif = Fok \<and> fillable ag (ab_queue ?ab ?opp) < unat q"
    | (go) i where "q \<noteq> 0" "(if ag_type ag = Limit then price_to_idx b (ag_price ag) else Some 0) = Some i"
        "\<not> (tif = Fok \<and> fillable ag (ab_queue ?ab ?opp) < unat q)"
    by fastforce
  then show ?thesis
  proof cases
    case zero
    then show ?thesis
      by (intro triv) (simp_all add: apply_new_order_def spec_new_def Let_def)
  next
    case range
    then show ?thesis
      by (intro triv) (simp_all add: apply_new_order_def spec_new_def Let_def ir)
  next
    case fok
    then show ?thesis
      by (intro triv) (simp_all add: apply_new_order_def spec_new_def Let_def ir ff)
  next
    case go
    obtain q' ms es where sw: "sweep ag q (ab_queue ?ab ?opp) = (q', ms, es)"
      by (metis prod_cases3)
    obtain b1 L1 where b1: "loop ag (q, b, []) = Some (q', b1, es)" "book_ok sm sm_inv b1 L1"
      "abs_with sm b1 L1 = set_queue ?ab ?opp ms"
      using loop_sweep [OF ok refl refl sw, of "[]"] by auto
    have r: "ag_type ag = Limit \<longrightarrow> price_to_idx b1 (ag_price ag) = Some i"
      using go(2) same_idx [OF b1(3)] by (simp split: if_splits)
    show ?thesis
      by (rule new_order_end [OF b1(2) r fresh_sweep [OF fresh sw b1(3)], where q' = q' and es = es])
        (use go b1(1) in \<open>cases tif; simp add: apply_new_order_def Let_def ff\<close>,
         use go in \<open>auto simp: spec_new_def Let_def ir sw b1(3)\<close>)
  qed
qed

subsection \<open>Cancels\<close>

lemma set_ladder_id_comm:
  "set_ladder (b\<lparr>b_id_to_key := m, b_arena := a\<rparr>) s x = (set_ladder (b\<lparr>b_arena := a\<rparr>) s x)\<lparr>b_id_to_key := m\<rparr>"
  by (cases s) simp_all

lemma clear_empty_best_case:
  "(case s of Buy \<Rightarrow> if b_best_bid_idx b = Some i then scan_best_bid_down b else Some b
    | Sell \<Rightarrow> if b_best_ask_idx b = Some i then scan_best_ask_up b else Some b) = clear_empty_best b s i"
  by (cases s) simp_all

lemma sideq_filter:
  assumes ok: "book_ok sm sm_inv b L" and k: "hview (heap b) k = Some x"
  shows "filter (\<lambda>m. bo_id m \<noteq> bo_id x) (sideq b L s) =
    queue_of (hview (heap b)) (filter (\<lambda>j. j \<noteq> k) (side_keys L s (num_ticks b)))"
proof -
  have key: "b_id_to_key b (bo_id x) = Some k"
    using book_okD(4) [OF ok] k by (auto simp: index_ok_def)
  have "bo_id (the (hview (heap b) j)) \<noteq> bo_id x \<longleftrightarrow> j \<noteq> k" if j: "j \<in> set (side_keys L s (num_ticks b))" for j
  proof -
    obtain y where "hview (heap b) j = Some y"
      using side_keys_sides [OF ok j] by blast
    then show ?thesis
      using id_Some [OF ok key] k by (metis option.sel)
  qed
  then show ?thesis
    by (simp add: queue_of_def filter_map comp_def cong: filter_cong)
qed

text \<open>Unlinking an order of a level is filtering its key out of both queues.\<close>

lemma side_keys_filter:
  assumes ok: "book_ok sm sm_inv b L" and L: "L s i = xs @ k # ys" and i: "i < num_ticks b"
  shows "side_keys (upd_queue L s i (xs @ ys)) s' (num_ticks b) =
    filter (\<lambda>j. j \<noteq> k) (side_keys L s' (num_ticks b))"
proof (cases "s' = s")
  case True
  obtain pre post where p: "\<And>ks. side_keys (upd_queue L s i ks) s (num_ticks b) = pre @ ks @ post"
    "\<And>k. k \<in> set pre \<Longrightarrow> \<exists>j<num_ticks b. better s j i \<and> k \<in> set (L s j)"
    "\<And>k. k \<in> set post \<Longrightarrow> \<exists>j<num_ticks b. better s i j \<and> k \<in> set (L s j)"
    using side_keys_upd [OF i, of L s] by blast
  have e: "side_keys L s (num_ticks b) = pre @ (xs @ k # ys) @ post"
    unfolding L [symmetric] using p(1) [of "L s i"] by simp
  then have "k \<notin> set (pre @ xs @ ys @ post)"
    using side_keys_distinct [OF ok, of s "num_ticks b"] by auto
  then have "filter (\<lambda>j. j \<noteq> k) (pre @ xs @ ys @ post) = pre @ xs @ ys @ post"
    by (intro filter_True) auto
  then show ?thesis
    using True p(1) [of "xs @ ys"] e by simp
next
  case False
  have "k \<notin> set (side_keys L s' (num_ticks b))"
    using side_keys_sides [OF ok, of k s'] owner_okD(1) [OF book_okD(3) [OF ok], of k s i] L False by auto
  then have "filter (\<lambda>j. j \<noteq> k) (side_keys L s' (num_ticks b)) = side_keys L s' (num_ticks b)"
    by (intro filter_True) auto
  then show ?thesis
    using False by simp
qed

lemma abs_unlink:
  assumes ok: "book_ok sm sm_inv b L" and L: "L s i = xs @ k # ys" and i: "i < num_ticks b"
    and k: "hview (heap b) k = Some x"
    and b': "hview (heap b') = (hview (heap b))(k := None)" "same_shape b b'"
  shows "abs_with sm b' (upd_queue L s i (xs @ ys)) =
    (abs_with sm b L)\<lparr>ab_queue := \<lambda>s. filter (\<lambda>m. bo_id m \<noteq> bo_id x) (ab_queue (abs_with sm b L) s)\<rparr>"
proof -
  have "sideq b' (upd_queue L s i (xs @ ys)) s' = filter (\<lambda>m. bo_id m \<noteq> bo_id x) (sideq b L s')" for s'
  proof -
    have "k \<notin> set (side_keys (upd_queue L s i (xs @ ys)) s' (num_ticks b))"
      unfolding side_keys_filter [OF ok L i] by simp
    then show ?thesis
      unfolding sideq_filter [OF ok k] side_keys_filter [OF ok L i, symmetric] using b' by simp
  qed
  then show ?thesis
    using b'(2) by (simp add: abs_with_def)
qed

lemma apply_cancel_own:
  assumes ok: "book_ok sm sm_inv b L" and k: "b_id_to_key b oid = Some k"
    and r: "heap b k = Some r" "o_id r = oid" "o_account r = acct"
  shows "\<exists>b' L'. apply_cancel sm b seq acct oid = Some (b', [Cancelled seq oid]) \<and> book_ok sm sm_inv b' L' \<and>
    abs_with sm b' L' = (abs_with sm b L)\<lparr>ab_queue := \<lambda>s. filter (\<lambda>m. bo_id m \<noteq> oid) (ab_queue (abs_with sm b L) s)\<rparr>"
proof -
  note hv = hview_Some [of "heap b" k r, OF r(1)]
  let ?s = "o_side r"
  obtain i where i0: "k \<in> set (L ?s i)" "o_price r = idx_to_price b i"
    using owner_okD(2) [OF book_okD(3) [OF ok] hv] by auto
  then obtain xs ys where L: "L ?s i = xs @ k # ys"
    by (meson split_list)
  then obtain l where l: "i < num_ticks b" "list_get (ladder b ?s) i = Some (Some l)"
    "l_price l = idx_to_price b i" "level_ok (heap b) l (L ?s i)"
    using book_ok_level [OF ok, of ?s i] by auto
  obtain l' a where rm: "level_remove sm l k (b_arena b) = Some (heap b k, l', a)" "sm_inv a"
    "level_ok (sm_get sm a) l' (xs @ ys)" "l_price l' = l_price l" "sm_capacity sm a = sm_capacity sm (b_arena b)"
    "hview (sm_get sm a) = (hview (heap b))(k := None)"
    and frame: "\<And>j. j \<notin> set xs \<Longrightarrow> j \<noteq> k \<Longrightarrow> j \<notin> set ys \<Longrightarrow> sm_get sm a j = heap b j"
    using level_remove_ok [OF book_okD(1) [OF ok], of l xs k ys] l(4) L by auto
  define b1 where "b1 = (set_ladder (b\<lparr>b_arena := a\<rparr>) ?s ((ladder b ?s)[i := Some l']))
      \<lparr>b_id_to_key := (b_id_to_key b)(oid := None)\<rparr>"
  obtain q where q: "(if level_is_empty l' then clear_empty_best b1 ?s i else Some b1) = Some (set_best b1 ?s q)"
    "book_ok sm sm_inv (set_best b1 ?s q) (upd_queue L ?s i (xs @ ys))"
    by (rule book_unlink [OF ok L hv rm(2,6,3), where b' = b1])
      (use rm(4) l(3) L frame r(2) in \<open>auto simp: b1_def\<close>)
  have "same_shape b (set_best b1 ?s q)" "b_arena (set_best b1 ?s q) = a"
    using rm(5) by (cases ?s; simp add: b1_def; fail)+
  then have abs: "abs_with sm (set_best b1 ?s q) (upd_queue L ?s i (xs @ ys)) =
      (abs_with sm b L)\<lparr>ab_queue := \<lambda>s. filter (\<lambda>m. bo_id m \<noteq> oid) (ab_queue (abs_with sm b L) s)\<rparr>"
    using abs_unlink [OF ok L l(1) hv] rm(6) r(2) by simp
  have "price_to_idx (b\<lparr>b_id_to_key := m\<rparr>) p = price_to_idx b p" for m p
    by (rule price_to_idx_cong) simp_all
  then have "apply_cancel sm b seq acct oid = Some (set_best b1 ?s q, [Cancelled seq oid])"
    using k r(1,3) i0(2) l(1,2) rm(1) q(1) price_to_idx_to_price [OF book_okD(2) [OF ok] l(1)]
    by (cases "level_is_empty l'")
      (simp_all add: apply_cancel_def Let_def set_ladder_id_comm clear_empty_best_case b1_def [symmetric])
  then show ?thesis
    using q(2) abs by blast
qed

lemma apply_cancel_ok:
  assumes ok: "book_ok sm sm_inv b L"
  shows "\<exists>b' L' es. apply_cancel sm b seq acct oid = Some (b', es) \<and> book_ok sm sm_inv b' L' \<and>
    spec_cancel (abs_with sm b L) seq acct oid = (abs_with sm b' L', es)"
proof (cases "b_id_to_key b oid")
  case None
  then show ?thesis
    using ok by (auto simp: apply_cancel_def spec_cancel_def find_order_eq [OF ok])
next
  case (Some k)
  obtain r where r: "heap b k = Some r" "o_id r = oid"
    and u: "\<And>j y. hview (heap b) j = Some y \<Longrightarrow> bo_id y = oid \<Longrightarrow> j = k"
    using id_Some [OF ok Some] by blast
  have f: "find_order (abs_with sm b L) oid = Some (view r)"
    using find_order_eq [OF ok] Some r(1) by (simp add: hview_Some)
  show ?thesis
  proof (cases "o_account r = acct")
    case True
    obtain b' L' where b': "apply_cancel sm b seq acct oid = Some (b', [Cancelled seq oid])" "book_ok sm sm_inv b' L'"
      "abs_with sm b' L' = (abs_with sm b L)\<lparr>ab_queue := \<lambda>s. filter (\<lambda>m. bo_id m \<noteq> oid) (ab_queue (abs_with sm b L) s)\<rparr>"
      using apply_cancel_own [OF ok Some r True, of seq] by blast
    have "spec_cancel (abs_with sm b L) seq acct oid = (abs_with sm b' L', [Cancelled seq oid])"
      unfolding b'(3) using f True by (simp add: spec_cancel_def)
    then show ?thesis
      using b'(1,2) by blast
  next
    case False
    have "(b_id_to_key b)(oid := None, oid \<mapsto> k) = b_id_to_key b"
      using Some by auto
    then have "apply_cancel sm b seq acct oid = Some (b, [Rejected seq oid acct 0 WrongAccount])"
      using Some r(1) False by (simp add: apply_cancel_def)
    then show ?thesis
      using ok f False by (auto simp: spec_cancel_def)
  qed
qed

subsection \<open>Every command\<close>

text \<open>A new order needs a sequence number no resting order has as its id.\<close>

lemma apply_cmd_ok:
  assumes ok: "book_ok sm sm_inv b L"
    and fresh: "\<forall>m \<in> ab_orders (abs_with sm b L). bo_id m \<noteq> sc_seq cmd"
  shows "\<exists>b' L' es. apply_cmd sm b cmd = Some (b', es) \<and> book_ok sm sm_inv b' L' \<and>
    spec_apply (abs_with sm b L) cmd = (abs_with sm b' L', es)"
proof (cases "sc_cmd cmd")
  case (NewOrder account coid symb side price q order_type tif)
  let ?ag = "\<lparr>ag_seq = sc_seq cmd, ag_ts = sc_ts_ns cmd, ag_symbol = symb, ag_side = side,
            ag_price = price, ag_account = account, ag_type = order_type\<rparr>"
  show ?thesis
    using apply_new_order_ok [OF ok, of ?ag coid q tif] fresh NewOrder by (simp add: apply_cmd_def spec_apply_def)
next
  case (Cancel account oid)
  then show ?thesis
    using apply_cancel_ok [OF ok] by (simp add: apply_cmd_def spec_apply_def)
qed (use ok in \<open>auto simp: apply_cmd_def spec_apply_def\<close>)

theorem apply_cmd_refines:
  assumes "book_inv sm sm_inv b" "\<forall>m \<in> ab_orders (abs_of sm b). bo_id m \<noteq> sc_seq cmd"
  shows "\<exists>b' es. apply_cmd sm b cmd = Some (b', es) \<and> book_inv sm sm_inv b' \<and>
    spec_apply (abs_of sm b) cmd = (abs_of sm b', es)"
proof -
  have ok: "book_ok sm sm_inv b (keys_at sm b)"
    using assms(1) by (simp add: book_inv_def)
  then obtain b' L' es where "apply_cmd sm b cmd = Some (b', es)" "book_ok sm sm_inv b' L'"
    "spec_apply (abs_of sm b) cmd = (abs_with sm b' L', es)"
    using apply_cmd_ok [OF ok, of cmd] assms(2) unfolding abs_of_def by blast
  then show ?thesis
    using book_invI [of b' L'] abs_of_eq [of b' L'] by auto
qed

text \<open>The empty book.\<close>

lemma book_new_ok:
  assumes "int (bc_num_ticks cfg) \<le> i64_max" "sint (bc_tick_floor cfg) + int (bc_num_ticks cfg) \<le> 2 ^ 63"
  shows "book_ok sm sm_inv (book_new sm cfg) (\<lambda>_ _. [])"
    and "sm_get sm (b_arena (book_new sm cfg)) = (\<lambda>_. None)"
proof -
  let ?r = "resting_order_new 0 0 0 Buy (bc_tick_floor cfg) 0" and ?a = "sm_with_capacity sm (bc_arena_capacity cfg)"
  obtain k a where a: "sm_insert sm ?a ?r = (k, a)" "sm_inv a" "sm_get sm a = (sm_get sm ?a)(k \<mapsto> ?r)"
    using sm_insertE [OF sm_new(1)] by metis
  obtain a' where a': "sm_remove sm a k = (sm_get sm a k, a')" "sm_inv a'" "sm_get sm a' = (sm_get sm a)(k := None)"
    using sm_removeE [OF a(2)] by metis
  have g: "sm_get sm a' = (\<lambda>_. None)"
    using a(3) a'(3) sm_new(2) by (auto simp: fun_eq_iff)
  have b: "book_new sm cfg = \<lparr>b_symbol = bc_symbol cfg, b_arena = a',
      b_bids = replicate (bc_num_ticks cfg) None, b_asks = replicate (bc_num_ticks cfg) None,
      b_best_bid_idx = None, b_best_ask_idx = None, b_tick_floor = bc_tick_floor cfg, b_id_to_key = (\<lambda>_. None)\<rparr>"
    using a(1) a'(1) by (simp add: book_new_def)
  have lad: "ladder (book_new sm cfg) s = replicate (bc_num_ticks cfg) None" for s
    by (cases s) (simp_all add: b)
  have "best_ptr (book_new sm cfg) s = None" for s
    by (cases s) (simp_all add: b)
  then show "book_ok sm sm_inv (book_new sm cfg) (\<lambda>_ _. [])"
    using assms a'(2) lad by (simp add: book_ok_def ladder_ok_def owner_ok_def index_ok_def best_at_def b g hview_def)
  show "sm_get sm (b_arena (book_new sm cfg)) = (\<lambda>_. None)"
    by (simp add: b g)
qed

theorem book_new_refines:
  assumes "int (bc_num_ticks cfg) \<le> i64_max" "sint (bc_tick_floor cfg) + int (bc_num_ticks cfg) \<le> 2 ^ 63"
  shows "book_inv sm sm_inv (book_new sm cfg)" "ab_queue (abs_of sm (book_new sm cfg)) = (\<lambda>_. [])"
    "ab_floor (abs_of sm (book_new sm cfg)) = bc_tick_floor cfg" "ab_ticks (abs_of sm (book_new sm cfg)) = bc_num_ticks cfg"
proof -
  note ok = book_new_ok(1) [OF assms]
  show "book_inv sm sm_inv (book_new sm cfg)"
    by (rule book_invI [OF ok])
  show "ab_queue (abs_of sm (book_new sm cfg)) = (\<lambda>_. [])"
    unfolding abs_of_eq [OF ok] by (simp add: abs_with_def side_keys_none best_at_def)
  show "ab_floor (abs_of sm (book_new sm cfg)) = bc_tick_floor cfg" "ab_ticks (abs_of sm (book_new sm cfg)) = bc_num_ticks cfg"
    by (simp_all add: abs_of_def abs_with_def book_new_def split: prod.splits)
qed

end

end
