(* ===== verification/Book_Rules.thy ===== *)
theory Book_Rules
  imports Book_Spec
begin

text \<open>
  The market rules, proved of the specification: quantity is conserved, trades are never between
  one account and itself and never at a price worse than the taker's limit, the queues stay in
  price-time priority and the book never crosses, fill-or-kill is all or nothing.
\<close>

subsection \<open>What a sweep does to the queue\<close>

text \<open>Induction along a sweep: the queue is exhausted, the sweep stops before an order, skips an
  own order, fills part of an order or takes an order whole.\<close>

lemma sweep_induct [consumes 1, case_names empty stop own part whole]:
  assumes sw: "sweep ag q ms = (q', ms', es)"
    and empty: "\<And>q. P q [] q [] []"
    and stop: "\<And>q m ms. q = 0 \<or> \<not> crosses (ag_side ag) (ag_type ag) (ag_price ag) (bo_price m) \<Longrightarrow>
      P q (m # ms) q (m # ms) []"
    and own: "\<And>q m ms q' ms' es. q \<noteq> 0 \<Longrightarrow> crosses (ag_side ag) (ag_type ag) (ag_price ag) (bo_price m) \<Longrightarrow>
      bo_account m = ag_account ag \<Longrightarrow> P q ms q' ms' es \<Longrightarrow>
      P q (m # ms) q' ms' (Cancelled (ag_seq ag) (bo_id m) # es)"
    and part: "\<And>q m ms. q \<noteq> 0 \<Longrightarrow> crosses (ag_side ag) (ag_type ag) (ag_price ag) (bo_price m) \<Longrightarrow>
      bo_account m \<noteq> ag_account ag \<Longrightarrow> q < bo_qty m \<Longrightarrow>
      P q (m # ms) 0 (m\<lparr>bo_qty := bo_qty m - q\<rparr> # ms) [trade_of ag m q q]"
    and whole: "\<And>q m ms q' ms' es. q \<noteq> 0 \<Longrightarrow> crosses (ag_side ag) (ag_type ag) (ag_price ag) (bo_price m) \<Longrightarrow>
      bo_account m \<noteq> ag_account ag \<Longrightarrow> bo_qty m \<le> q \<Longrightarrow> P (q - bo_qty m) ms q' ms' es \<Longrightarrow>
      P q (m # ms) q' ms' (trade_of ag m (bo_qty m) q # es)"
  shows "P q ms q' ms' es"
  using sw
proof (induction ms arbitrary: q q' ms' es)
  case Nil
  then show ?case using empty by simp
next
  case (Cons m ms)
  let ?cr = "crosses (ag_side ag) (ag_type ag) (ag_price ag) (bo_price m)"
  consider "q = 0 \<or> \<not> ?cr" | "q \<noteq> 0" ?cr "bo_account m = ag_account ag"
    | "q \<noteq> 0" ?cr "bo_account m \<noteq> ag_account ag" "q < bo_qty m"
    | "q \<noteq> 0" ?cr "bo_account m \<noteq> ag_account ag" "\<not> q < bo_qty m"
    by blast
  then show ?case
  proof cases
    case 1
    then show ?thesis using Cons.prems stop by auto
  next
    case 2
    then show ?thesis using Cons own by (auto split: prod.splits)
  next
    case 3
    then show ?thesis using Cons.prems part by auto
  next
    case 4
    obtain q1 ms1 es1 where r: "sweep ag (q - bo_qty m) ms = (q1, ms1, es1)"
      by (rule prod_cases3)
    then show ?thesis
      using whole [OF 4(1,2,3) _ Cons.IH [OF r]] 4 Cons.prems by (simp add: not_less [symmetric])
  qed
qed

lemma sweep_shape:
  assumes "sweep ag q ms = (q', ms', es)"
  shows "\<exists>pre suf. ms = pre @ suf \<and>
    (ms' = suf \<or> (\<exists>m rest f. suf = m # rest \<and> ms' = m\<lparr>bo_qty := bo_qty m - f\<rparr> # rest \<and> f < bo_qty m \<and> q' = 0))"
  using assms
proof (induction rule: sweep_induct)
  case (own q m ms q' ms' es)
  then show ?case by (metis append_Cons)
next
  case (whole q m ms q' ms' es)
  then show ?case by (metis append_Cons)
next
  case (part q m ms)
  then show ?case by (intro exI [of _ "[]"] exI [of _ "m # ms"]) auto
next
  case (stop q m ms)
  then show ?case by (intro exI [of _ "[]"] exI [of _ "m # ms"]) simp
qed simp

lemma sweep_stop:
  "sweep ag q ms = (q', ms', es) \<Longrightarrow> q' \<noteq> 0 \<Longrightarrow>
   ms' = [] \<or> \<not> crosses (ag_side ag) (ag_type ag) (ag_price ag) (bo_price (hd ms'))"
  by (induction rule: sweep_induct) auto

fun event_traded :: "engine_event \<Rightarrow> nat" where
  "event_traded (Trade t) = unat (tr_qty t)"
| "event_traded _ = 0"

definition traded :: "engine_event list \<Rightarrow> nat" where
  "traded es = (\<Sum>e \<leftarrow> es. event_traded e)"

lemma traded_simps [simp]:
  "traded [] = 0" "traded (e # es) = event_traded e + traded es" "traded (es @ es') = traded es + traded es'"
  "event_traded (trade_of ag m f q) = unat f"
  by (simp_all add: traded_def trade_of_def)

text \<open>No quantity is lost or made: what the taker no longer wants was traded.\<close>

lemma unat_diff: "(b :: u64) \<le> a \<Longrightarrow> unat (a - b) = unat a - unat b \<and> unat b \<le> unat a"
  by (simp add: unat_sub word_le_nat_alt)

lemma sweep_conserves: "sweep ag q ms = (q', ms', es) \<Longrightarrow> unat q = unat q' + traded es"
proof (induction rule: sweep_induct)
  case (whole q m ms q' ms' es)
  then show ?case using unat_diff [of "bo_qty m" q] by auto
qed simp_all

definition qtys :: "book_order list \<Rightarrow> nat" where
  "qtys ms = (\<Sum>m \<leftarrow> ms. unat (bo_qty m))"

lemma qtys_simps [simp]: "qtys [] = 0" "qtys (m # ms) = unat (bo_qty m) + qtys ms" "qtys (a @ b) = qtys a + qtys b"
  by (simp_all add: qtys_def)

text \<open>The makers that the sweep takes out whole, and those of them that belong to the aggressor.\<close>

definition stp_ids :: "engine_event list \<Rightarrow> order_id list" where
  "stp_ids es = List.map_filter (\<lambda>e. case e of Cancelled _ oid \<Rightarrow> Some oid | _ \<Rightarrow> None) es"

lemma stp_ids_simps [simp]:
  "stp_ids [] = []" "stp_ids (Cancelled sq oid # es) = oid # stp_ids es" "stp_ids (trade_of ag m f q # es) = stp_ids es"
  by (simp_all add: stp_ids_def trade_of_def)

text \<open>Every event of a sweep is the cancellation of an own order, or a trade with another
  account's order at that order's price, which the aggressor accepts.\<close>

definition sweep_event :: "aggressor \<Rightarrow> book_order list \<Rightarrow> engine_event \<Rightarrow> bool" where
  "sweep_event ag ms e \<longleftrightarrow> (\<exists>m \<in> set ms.
     crosses (ag_side ag) (ag_type ag) (ag_price ag) (bo_price m) \<and>
     (if bo_account m = ag_account ag then e = Cancelled (ag_seq ag) (bo_id m)
      else \<exists>q. e = trade_of ag m (min (bo_qty m) q) q \<and> q \<noteq> 0))"

lemma sweep_event_Cons: "sweep_event ag ms e \<Longrightarrow> sweep_event ag (m # ms) e"
  by (auto simp: sweep_event_def)

lemma sweep_events: "sweep ag q ms = (q', ms', es) \<Longrightarrow> \<forall>e \<in> set es. sweep_event ag ms e"
proof (induction rule: sweep_induct)
  case (own q m ms q' ms' es)
  moreover have "sweep_event ag (m # ms) (Cancelled (ag_seq ag) (bo_id m))"
    using own by (auto simp: sweep_event_def)
  ultimately show ?case using sweep_event_Cons by auto
next
  case (part q m ms)
  then show ?case by (auto simp: sweep_event_def min_def intro!: exI [of _ q])
next
  case (whole q m ms q' ms' es)
  moreover have "sweep_event ag (m # ms) (trade_of ag m (bo_qty m) q)"
    using whole by (auto simp: sweep_event_def min_def intro!: exI [of _ q])
  ultimately show ?case using sweep_event_Cons by auto
qed simp_all

text \<open>The fill-or-kill check is exact: the sweep fills the order completely iff the other accounts
  offer enough at acceptable prices.\<close>

lemma fillable_Cons:
  "fillable ag (m # ms) = (if crosses (ag_side ag) (ag_type ag) (ag_price ag) (bo_price m)
     then (if bo_account m \<noteq> ag_account ag then unat (bo_qty m) else 0) + fillable ag ms else 0)"
  by (simp add: fillable_def)

lemma sweep_fillable:
  "sweep ag q ms = (q', ms', es) \<Longrightarrow> q' = 0 \<longleftrightarrow> unat q \<le> fillable ag ms"
proof (induction rule: sweep_induct)
  case (empty q)
  then show ?case by (simp add: fillable_def unat_eq_0)
next
  case (stop q m ms)
  then show ?case by (auto simp: fillable_Cons unat_eq_0)
next
  case (part q m ms)
  then show ?case by (simp add: fillable_Cons word_less_nat_alt)
next
  case (whole q m ms q' ms' es)
  then show ?case using unat_diff [of "bo_qty m" q] by (auto simp: fillable_Cons)
qed (simp add: fillable_Cons)

subsection \<open>Price-time priority\<close>

text \<open>\<open>before s x y\<close>: of two resting orders of side \<open>s\<close>, \<open>x\<close> is to be served first.\<close>

fun before :: "side \<Rightarrow> book_order \<Rightarrow> book_order \<Rightarrow> bool" where
  "before Buy x y \<longleftrightarrow> sint (bo_price y) < sint (bo_price x) \<or> bo_price x = bo_price y \<and> bo_seq x < bo_seq y"
| "before Sell x y \<longleftrightarrow> sint (bo_price x) < sint (bo_price y) \<or> bo_price x = bo_price y \<and> bo_seq x < bo_seq y"

text \<open>The invariant of the specification. The last clause says the book is not crossed.\<close>

definition queue_ok :: "abs_book \<Rightarrow> side \<Rightarrow> book_order list \<Rightarrow> bool" where
  "queue_ok ab s ms \<longleftrightarrow> sorted_wrt (before s) ms \<and>
     (\<forall>m \<in> set ms. bo_side m = s \<and> bo_qty m \<noteq> 0 \<and> in_range ab (bo_price m) \<and> bo_id m = bo_seq m)"

definition uncrossed :: "book_order list \<Rightarrow> book_order list \<Rightarrow> bool" where
  "uncrossed bids asks \<longleftrightarrow> (\<forall>x \<in> set bids. \<forall>y \<in> set asks. sint (bo_price x) < sint (bo_price y))"

definition ab_ok :: "abs_book \<Rightarrow> bool" where
  "ab_ok ab \<longleftrightarrow> (\<forall>s. queue_ok ab s (ab_queue ab s)) \<and> uncrossed (ab_queue ab Buy) (ab_queue ab Sell) \<and>
     ab_count ab \<le> ab_cap ab"

lemma in_range_cong: "ab_floor ab' = ab_floor ab \<Longrightarrow> ab_ticks ab' = ab_ticks ab \<Longrightarrow> in_range ab' p = in_range ab p"
  by (simp add: in_range_def)

lemma queue_ok_cong: "ab_floor ab' = ab_floor ab \<Longrightarrow> ab_ticks ab' = ab_ticks ab \<Longrightarrow> queue_ok ab' s ms = queue_ok ab s ms"
  by (simp add: queue_ok_def in_range_def)

lemma queue_ok_filter: "queue_ok ab s ms \<Longrightarrow> queue_ok ab s (filter P ms)"
  by (auto simp: queue_ok_def sorted_wrt_filter)

lemma before_qty: "before s (x\<lparr>bo_qty := q\<rparr>) y = before s x y" "before s x (y\<lparr>bo_qty := q\<rparr>) = before s x y"
  by (cases s; simp)+

lemma queue_ok_sweep:
  assumes sw: "sweep ag q ms = (q', ms', es)" and ok: "queue_ok ab s ms"
  shows "queue_ok ab s ms'"
proof -
  obtain pre suf where ms: "ms = pre @ suf"
    and ms': "ms' = suf \<or> (\<exists>m rest f. suf = m # rest \<and> ms' = m\<lparr>bo_qty := bo_qty m - f\<rparr> # rest \<and> f < bo_qty m \<and> q' = 0)"
    using sweep_shape [OF sw] by blast
  have suf: "queue_ok ab s suf"
    using ok by (auto simp: queue_ok_def ms sorted_wrt_append)
  show ?thesis
    using ms'
  proof
    assume "\<exists>m rest f. suf = m # rest \<and> ms' = m\<lparr>bo_qty := bo_qty m - f\<rparr> # rest \<and> f < bo_qty m \<and> q' = 0"
    then obtain m rest f where "suf = m # rest" "ms' = m\<lparr>bo_qty := bo_qty m - f\<rparr> # rest" "f < bo_qty m"
      by blast
    then show ?thesis
      using suf by (auto simp: queue_ok_def before_qty)
  qed (use suf in simp)
qed

lemma sweep_subset:
  assumes "sweep ag q ms = (q', ms', es)" "m' \<in> set ms'"
  shows "\<exists>m \<in> set ms. bo_price m' = bo_price m \<and> bo_seq m' = bo_seq m \<and> bo_id m' = bo_id m \<and> bo_account m' = bo_account m"
proof -
  obtain m where "m \<in> set ms" "m' = m\<lparr>bo_qty := bo_qty m'\<rparr>"
    using sweep_ids [OF assms] by blast
  then show ?thesis
    by (metis book_order.select_convs(1,2,5,6) book_order.surjective book_order.update_convs(3))
qed

lemma sweep_length: "sweep ag q ms = (q', ms', es) \<Longrightarrow> length ms' \<le> length ms"
  using sweep_shape by fastforce

text \<open>The front of a sorted queue has its best price, so an order that does not cross the front
  crosses nothing.\<close>

lemma front_best:
  assumes "sorted_wrt (before (opposite s)) ms" "ms = [] \<or> \<not> crosses s t p (bo_price (hd ms))" "m \<in> set ms"
  shows "\<not> crosses s t p (bo_price m)"
  using assms by (cases ms; cases s; cases t) auto

lemma enqueue_sorted:
  assumes "queue_ok ab s ms" "\<And>m. m \<in> set ms \<Longrightarrow> bo_seq m < bo_seq x" "bo_side x = s"
  shows "sorted_wrt (before s) (enqueue x ms)"
proof -
  let ?P = "\<lambda>m. ahead s (bo_price m) (bo_price x)"
  have srt: "sorted_wrt (before s) ms"
    using assms(1) by (simp add: queue_ok_def)
  have srt': "sorted_wrt (before s) (takeWhile ?P ms @ dropWhile ?P ms)"
    using srt by simp
  have front: "before s m x" if "m \<in> set (takeWhile ?P ms)" for m
  proof -
    have "?P m" "bo_seq m < bo_seq x"
      using that set_takeWhileD [of m ?P ms] assms(2) by auto
    moreover have "sint (bo_price m) = sint (bo_price x) \<Longrightarrow> bo_price m = bo_price x"
      by (metis i64_of_sint)
    ultimately show ?thesis
      by (cases s) (auto simp: less_le)
  qed
  have rear: "before s x m" if "m \<in> set (dropWhile ?P ms)" for m
  proof (cases "dropWhile ?P ms")
    case (Cons d ds)
    then have "\<not> ?P d"
      using hd_dropWhile [of ?P ms] by auto
    moreover have "m = d \<or> before s d m"
      using that srt' Cons by (auto simp: sorted_wrt_append)
    ultimately show ?thesis
      by (cases s) auto
  next
    case Nil
    then show ?thesis
      using that by (metis empty_iff list.set(1))
  qed
  show ?thesis
    using srt' [unfolded sorted_wrt_append] front rear unfolding enqueue_def assms(3) sorted_wrt_append
    by (metis list.set_cases set_ConsD sorted_wrt.simps(2))
qed

lemma set_enqueue: "set (enqueue x ms) = insert x (set ms)"
  using takeWhile_dropWhile_id [of "\<lambda>m. ahead (bo_side x) (bo_price m) (bo_price x)" ms]
  unfolding enqueue_def by (metis Un_insert_right list.simps(15) set_append)

lemma length_enqueue [simp]: "length (enqueue x ms) = Suc (length ms)"
  unfolding enqueue_def by (metis add_Suc_right length_Cons length_append takeWhile_dropWhile_id)

subsection \<open>Every command keeps the invariant\<close>

text \<open>\<open>uncrossed_at ab s\<close>: the same statement with the sides named from \<open>s\<close>.\<close>

lemma uncrossed_sides:
  "uncrossed (ab_queue ab Buy) (ab_queue ab Sell) \<longleftrightarrow>
   (\<forall>x \<in> set (ab_queue ab s). \<forall>y \<in> set (ab_queue ab (opposite s)). \<not> crosses s Limit (bo_price x) (bo_price y))"
  by (cases s) (auto simp: uncrossed_def not_le)

lemma ab_ok_sweep:
  assumes ok: "ab_ok ab" and sw: "sweep ag q (ab_queue ab s) = (q', ms, es)"
  shows "ab_ok (set_queue ab s ms)"
proof -
  let ?ab = "set_queue ab s ms"
  have "queue_ok ?ab s' (ab_queue ?ab s')" for s'
    using ok queue_ok_sweep [OF sw] queue_ok_cong [of ?ab ab] by (simp add: ab_ok_def)
  moreover have "uncrossed (ab_queue ?ab Buy) (ab_queue ?ab Sell)"
    using ok sweep_subset [OF sw] by (cases s) (fastforce simp: ab_ok_def uncrossed_def)+
  moreover have "ab_count ?ab \<le> ab_cap ?ab"
    using ok sweep_length [OF sw] by (cases s) (auto simp: ab_ok_def ab_count_def)
  ultimately show ?thesis
    by (simp add: ab_ok_def)
qed

lemma ab_ok_enqueue:
  assumes ok: "ab_ok ab" and x: "bo_side x = s" "bo_qty x \<noteq> 0" "in_range ab (bo_price x)" "bo_id x = bo_seq x"
    and seq: "\<And>m. m \<in> set (ab_queue ab s) \<Longrightarrow> bo_seq m < bo_seq x"
    and cr: "\<And>m. m \<in> set (ab_queue ab (opposite s)) \<Longrightarrow> \<not> crosses s Limit (bo_price x) (bo_price m)"
    and cap: "ab_count ab < ab_cap ab"
  shows "ab_ok (set_queue ab s (enqueue x (ab_queue ab s)))"
proof -
  let ?ab = "set_queue ab s (enqueue x (ab_queue ab s))"
  have q: "queue_ok ab s' (ab_queue ab s')" for s'
    using ok by (simp add: ab_ok_def)
  have "queue_ok ab s (enqueue x (ab_queue ab s))"
    using enqueue_sorted [OF q seq x(1)] q [of s] x by (auto simp: queue_ok_def set_enqueue)
  then have "queue_ok ?ab s' (ab_queue ?ab s')" for s'
    using q queue_ok_cong [of ?ab ab] by simp
  moreover have "uncrossed (ab_queue ?ab Buy) (ab_queue ?ab Sell)"
    using ok cr unfolding ab_ok_def uncrossed_sides [of _ s] by (auto simp: set_enqueue)
  moreover have "ab_count ?ab \<le> ab_cap ?ab"
    using cap by (cases s) (auto simp: ab_count_def)
  ultimately show ?thesis
    by (simp add: ab_ok_def)
qed

lemma spec_new_ab_ok:
  assumes ok: "ab_ok ab" and seq: "\<forall>m \<in> ab_orders ab. bo_seq m < ag_seq ag"
  shows "ab_ok (fst (spec_new ab ag coid q tif))"
proof -
  let ?opp = "opposite (ag_side ag)"
  obtain q' ms es where sw: "sweep ag q (ab_queue ab ?opp) = (q', ms, es)"
    by (rule prod_cases3)
  let ?ab = "set_queue ab ?opp ms"
  have ab1: "ab_ok ?ab"
    using ab_ok_sweep [OF ok sw] .
  have rest: "ab_ok (set_queue ?ab (ag_side ag) (enqueue (fresh_order (ag_seq ag) (ag_account ag) q' (ag_side ag) (ag_price ag)) (ab_queue ?ab (ag_side ag))))"
    if q: "q' \<noteq> 0" and lim: "ag_type ag = Limit" and r: "in_range ab (ag_price ag)" "ab_count ?ab < ab_cap ?ab"
  proof (rule ab_ok_enqueue [OF ab1])
    show "bo_seq m < bo_seq (fresh_order (ag_seq ag) (ag_account ag) q' (ag_side ag) (ag_price ag))"
      if "m \<in> set (ab_queue ?ab (ag_side ag))" for m
      using that seq by (auto simp: fresh_order_def in_ab_orders)
    show "\<not> crosses (ag_side ag) Limit (bo_price (fresh_order (ag_seq ag) (ag_account ag) q' (ag_side ag) (ag_price ag))) (bo_price m)"
      if m: "m \<in> set (ab_queue ?ab ?opp)" for m
    proof -
      have "queue_ok ?ab ?opp (ab_queue ?ab ?opp)"
        using ab1 unfolding ab_ok_def by blast
      then have "sorted_wrt (before ?opp) ms"
        by (simp add: queue_ok_def)
      then show ?thesis
        using front_best [of "ag_side ag" ms Limit "ag_price ag" m] sweep_stop [OF sw q] m lim
        by (simp add: fresh_order_def)
    qed
  qed (use q r in_range_cong [of ?ab ab] in \<open>simp_all add: fresh_order_def\<close>)
  have "ag_type ag = Limit \<or> ag_type ag = Market"
    by (cases "ag_type ag") auto
  then show ?thesis
    using ok ab1 rest sw by (auto simp: spec_new_def Let_def not_le)
qed

lemma spec_cancel_ab_ok: "ab_ok ab \<Longrightarrow> ab_ok (fst (spec_cancel ab seq acct oid))"
proof -
  assume ok: "ab_ok ab"
  let ?ab = "ab\<lparr>ab_queue := \<lambda>s. filter (\<lambda>m. bo_id m \<noteq> oid) (ab_queue ab s)\<rparr>"
  have "queue_ok ?ab s (ab_queue ?ab s)" for s
    using ok queue_ok_filter queue_ok_cong [of ?ab ab] by (simp add: ab_ok_def)
  moreover have "uncrossed (ab_queue ?ab Buy) (ab_queue ?ab Sell)"
    using ok by (simp add: ab_ok_def uncrossed_def)
  moreover have "ab_count ?ab \<le> ab_cap ?ab"
    using ok add_mono [OF length_filter_le [of "\<lambda>m. bo_id m \<noteq> oid" "ab_queue ab Buy"]
        length_filter_le [of "\<lambda>m. bo_id m \<noteq> oid" "ab_queue ab Sell"]]
    by (simp add: ab_ok_def ab_count_def)
  ultimately have "ab_ok ?ab"
    by (simp add: ab_ok_def)
  then show ?thesis
    using ok by (auto simp: spec_cancel_def split: option.splits)
qed

lemma spec_apply_ab_ok:
  assumes "ab_ok ab" "\<forall>m \<in> ab_orders ab. bo_seq m < sc_seq cmd"
  shows "ab_ok (fst (spec_apply ab cmd))"
  using assms spec_new_ab_ok spec_cancel_ab_ok by (auto simp: spec_apply_def split: inbound_command.splits)

subsection \<open>Which makers a sweep meets\<close>

text \<open>The orders an event list names as counterparty or as cancelled by self-trade prevention, in
  order; the aggressor's own id \<open>seq\<close> is not one of them.\<close>

definition maker_ids :: "u64 \<Rightarrow> engine_event list \<Rightarrow> order_id list" where
  "maker_ids seq es = List.map_filter
     (\<lambda>e. case e of Trade t \<Rightarrow> Some (tr_maker_order t)
       | Cancelled _ oid \<Rightarrow> if oid = seq then None else Some oid | _ \<Rightarrow> None) es"

lemma maker_ids_simps [simp]:
  "maker_ids seq [] = []" "maker_ids seq (Trade t # es) = tr_maker_order t # maker_ids seq es"
  "maker_ids seq (Cancelled sq oid # es) = (if oid = seq then maker_ids seq es else oid # maker_ids seq es)"
  "maker_ids seq (Rejected sq oid acct coid rs # es) = maker_ids seq es"
  "maker_ids seq (Accepted sq oid ts symb acct coid sd pr qy # es) = maker_ids seq es"
  "maker_ids seq (BookTop sq symb bid ask # es) = maker_ids seq es"
  "maker_ids seq (trade_of ag m f q # es) = bo_id m # maker_ids seq es"
  "maker_ids seq (es @ es') = maker_ids seq es @ maker_ids seq es'"
  by (simp_all add: maker_ids_def trade_of_def List.map_filter_def)

lemma sweep_maker_ids:
  "sweep ag q ms = (q', ms', es) \<Longrightarrow> \<forall>m \<in> set ms. bo_id m \<noteq> seq \<Longrightarrow>
   maker_ids seq es = map bo_id (take (length (maker_ids seq es)) ms)"
  by (induction rule: sweep_induct) auto

text \<open>The makers' side of the ledger: what they offered is still there, was traded, or was withdrawn
  by self-trade prevention.\<close>

lemma sweep_makers:
  "sweep ag q ms = (q', ms', es) \<Longrightarrow> \<exists>own. set own \<subseteq> set ms \<and> (\<forall>m \<in> set own. bo_account m = ag_account ag) \<and>
     map bo_id own = stp_ids es \<and> qtys ms = qtys ms' + traded es + qtys own"
proof (induction rule: sweep_induct)
  case (own q m ms q' ms' es)
  then obtain ow where "set ow \<subseteq> set ms" "\<forall>m \<in> set ow. bo_account m = ag_account ag"
    "map bo_id ow = stp_ids es" "qtys ms = qtys ms' + traded es + qtys ow"
    by blast
  then show ?case
    using own by (intro exI [of _ "m # ow"]) auto
next
  case (part q m ms)
  have "unat (bo_qty m - q) + unat q = unat (bo_qty m)"
    using unat_diff [of q "bo_qty m"] part by simp
  then show ?case
    by (intro exI [of _ "[]"]) simp
next
  case (whole q m ms q' ms' es)
  then obtain ow where "set ow \<subseteq> set ms" "\<forall>m \<in> set ow. bo_account m = ag_account ag"
    "map bo_id ow = stp_ids es" "qtys ms = qtys ms' + traded es + qtys ow"
    by blast
  then show ?case
    by (intro exI [of _ ow]) auto
qed simp_all

subsection \<open>The orders after a command\<close>

lemma enqueue_orders: "ab_orders (set_queue ab s (enqueue x (ab_queue ab s))) = insert x (ab_orders ab)"
  by (cases s) (auto simp: ab_orders_def set_enqueue)

lemma sweep_orders:
  assumes "sweep ag q (ab_queue ab s) = (q', ms, es)" "m \<in> ab_orders (set_queue ab s ms)"
  shows "\<exists>m0 \<in> ab_orders ab. bo_seq m = bo_seq m0 \<and> bo_id m = bo_id m0 \<and> bo_account m = bo_account m0"
proof (cases "m \<in> set ms")
  case True
  then obtain m0 where "m0 \<in> set (ab_queue ab s)" "bo_seq m = bo_seq m0" "bo_id m = bo_id m0" "bo_account m = bo_account m0"
    using sweep_subset [OF assms(1) True] by metis
  moreover from this have "m0 \<in> ab_orders ab"
    by (auto simp: in_ab_orders)
  ultimately show ?thesis
    by blast
next
  case False
  then have "m \<in> ab_orders ab"
    using assms(2) by (auto simp: in_ab_orders split: if_splits)
  then show ?thesis
    by blast
qed

lemma spec_apply_orders:
  assumes "m \<in> ab_orders (fst (spec_apply ab cmd))"
  shows "bo_seq m = sc_seq cmd \<or> (\<exists>m0 \<in> ab_orders ab. bo_seq m = bo_seq m0)"
proof (cases "sc_cmd cmd")
  case (NewOrder account coid symb side price q order_type tif)
  let ?ag = "\<lparr>ag_seq = sc_seq cmd, ag_ts = sc_ts_ns cmd, ag_symbol = symb, ag_side = side,
    ag_price = price, ag_account = account, ag_type = order_type\<rparr>"
  obtain q' ms es where sw: "sweep ?ag q (ab_queue ab (opposite side)) = (q', ms, es)"
    by (rule prod_cases3)
  let ?ab = "set_queue ab (opposite side) ms"
  have "fst (spec_apply ab cmd) \<in> {ab, ?ab,
      set_queue ?ab side (enqueue (fresh_order (sc_seq cmd) account q' side price) (ab_queue ?ab side))}"
    using NewOrder sw by (auto simp: spec_apply_def spec_new_def Let_def)
  then have "m = fresh_order (sc_seq cmd) account q' side price \<or> m \<in> ab_orders ab \<or> m \<in> ab_orders ?ab"
    using assms by (auto simp only: enqueue_orders insert_iff empty_iff)
  then show ?thesis
    using sweep_orders [OF sw, of m] by (auto simp: fresh_order_def)
next
  case (Cancel account oid)
  then have "fst (spec_apply ab cmd) \<in> {ab, ab\<lparr>ab_queue := \<lambda>s. filter (\<lambda>m. bo_id m \<noteq> oid) (ab_queue ab s)\<rparr>}"
    by (auto simp: spec_apply_def spec_cancel_def split: option.splits)
  then have "m \<in> ab_orders ab"
    using assms by (auto simp: ab_orders_def)
  then show ?thesis
    by blast
qed (use assms in \<open>auto simp: spec_apply_def\<close>)

subsection \<open>The outcomes of a new order\<close>

text \<open>Every new order is turned away at the door, or sweeps the opposite queue and is then filled,
  dropped, turned away by the full arena, or put on the book.\<close>

definition door_reject :: "aggressor \<Rightarrow> client_order_id \<Rightarrow> engine_event list \<Rightarrow> bool" where
  "door_reject ag coid es \<longleftrightarrow> (\<exists>rs \<in> {InvalidQty, PriceOutOfRange, FokNotFullyFillable}.
     es = [Rejected (ag_seq ag) (ag_seq ag) (ag_account ag) coid rs])"

lemma spec_new_cases [consumes 1, case_names door filled dropped full rested]:
  assumes "spec_new ab ag coid q tif = (ab', es)"
  obtains (door) "ab' = ab" "door_reject ag coid es"
      "es = [Rejected (ag_seq ag) (ag_seq ag) (ag_account ag) coid FokNotFullyFillable] \<longleftrightarrow>
       q \<noteq> 0 \<and> (ag_type ag = Limit \<longrightarrow> in_range ab (ag_price ag)) \<and> tif = Fok \<and> fillable ag (ab_queue ab (opposite (ag_side ag))) < unat q"
    | (filled) ms es1 where "sweep ag q (ab_queue ab (opposite (ag_side ag))) = (0, ms, es1)" "q \<noteq> 0"
        "ab' = set_queue ab (opposite (ag_side ag)) ms" "es = es1 @ [top_event ab' (ag_seq ag) (ag_symbol ag)]"
    | (dropped) q' ms es1 where "sweep ag q (ab_queue ab (opposite (ag_side ag))) = (q', ms, es1)" "q \<noteq> 0" "q' \<noteq> 0"
        "tif \<noteq> Gtc \<or> ag_type ag = Market" "tif = Fok \<longrightarrow> unat q \<le> fillable ag (ab_queue ab (opposite (ag_side ag)))"
        "ab' = set_queue ab (opposite (ag_side ag)) ms"
        "es = es1 @ [if q' < q then Cancelled (ag_seq ag) (ag_seq ag)
                else Rejected (ag_seq ag) (ag_seq ag) (ag_account ag) coid IocNoMatch,
               top_event ab' (ag_seq ag) (ag_symbol ag)]"
    | (full) q' ms es1 where "sweep ag q (ab_queue ab (opposite (ag_side ag))) = (q', ms, es1)" "q \<noteq> 0" "q' \<noteq> 0"
        "tif = Gtc" "ag_type ag = Limit" "ab_cap ab \<le> ab_count (set_queue ab (opposite (ag_side ag)) ms)"
        "ab' = set_queue ab (opposite (ag_side ag)) ms"
        "es = es1 @ [Rejected (ag_seq ag) (ag_seq ag) (ag_account ag) coid ArenaFull]"
    | (rested) q' ms es1 ab1 x where "sweep ag q (ab_queue ab (opposite (ag_side ag))) = (q', ms, es1)" "q \<noteq> 0" "q' \<noteq> 0"
        "tif = Gtc" "ag_type ag = Limit" "ab1 = set_queue ab (opposite (ag_side ag)) ms"
        "x = fresh_order (ag_seq ag) (ag_account ag) q' (ag_side ag) (ag_price ag)"
        "ab' = set_queue ab1 (ag_side ag) (enqueue x (ab_queue ab1 (ag_side ag)))"
        "es = es1 @ [Accepted (ag_seq ag) (ag_seq ag) (ag_ts ag) (ag_symbol ag) (ag_account ag) coid (ag_side ag) (ag_price ag) q',
               top_event ab' (ag_seq ag) (ag_symbol ag)]"
proof -
  let ?opp = "opposite (ag_side ag)"
  have lim: "ag_type ag = Limit" if "ag_type ag \<noteq> Market"
    using that by (cases "ag_type ag") auto
  obtain q' ms es1 where sw: "sweep ag q (ab_queue ab ?opp) = (q', ms, es1)"
    by (rule prod_cases3)
  consider "q = 0" | "q \<noteq> 0" "ag_type ag = Limit \<and> \<not> in_range ab (ag_price ag)"
    | "q \<noteq> 0" "\<not> (ag_type ag = Limit \<and> \<not> in_range ab (ag_price ag))" "tif = Fok \<and> fillable ag (ab_queue ab ?opp) < unat q"
    | "q \<noteq> 0" "\<not> (ag_type ag = Limit \<and> \<not> in_range ab (ag_price ag))" "\<not> (tif = Fok \<and> fillable ag (ab_queue ab ?opp) < unat q)"
    by blast
  then show ?thesis
  proof cases
    case 4
    consider "q' = 0" | "q' \<noteq> 0" "tif \<noteq> Gtc \<or> ag_type ag = Market"
      | "q' \<noteq> 0" "\<not> (tif \<noteq> Gtc \<or> ag_type ag = Market)" "ab_cap ab \<le> ab_count (set_queue ab ?opp ms)"
      | "q' \<noteq> 0" "\<not> (tif \<noteq> Gtc \<or> ag_type ag = Market)" "\<not> ab_cap ab \<le> ab_count (set_queue ab ?opp ms)"
      by blast
    then show ?thesis
    proof cases
      case 1
      then show ?thesis
        using 4 sw assms by (intro filled [of ms es1]) (auto simp: spec_new_def Let_def)
    next
      case 2
      then show ?thesis
        using 4 sw assms by (intro dropped [of q' ms es1]) (auto simp: spec_new_def Let_def not_less)
    next
      case 3
      then show ?thesis
        using 4 sw assms lim by (intro full [of q' ms es1]) (auto simp: spec_new_def Let_def)
    next
      case 5: 4
      then show ?thesis
        using 4 sw assms lim by (intro rested [of q' ms es1]) (auto simp: spec_new_def Let_def)
    qed
  qed (use assms in \<open>auto simp: spec_new_def Let_def door_reject_def intro!: door\<close>)
qed

end
