(* ===== verification/Book_Props.thy ===== *)
theory Book_Props
  imports Book_Correct Book_Rules
begin

text \<open>
  The properties of the order book, stated of the translated code. The arena \<open>sm\<close> is any slot map
  that satisfies the laws of \<open>slot_map\<close> (as an \<open>order_arena\<close>); the witnesses use the versioned slots
  of the theory \<open>Slot_Map\<close>.
\<close>

subsection \<open>Books the code can be in\<close>

text \<open>\<open>book_ready sm sm_inv b seq\<close>: the representation is sound, the queues obey the market rules, and
  every resting order is older than the sequence number \<open>seq\<close> of the command to come. The sequencer
  numbers commands upwards, so this holds before every command (\<open>book_log_total\<close> below).\<close>

definition book_ready :: "('k, 's) arena_ops \<Rightarrow> ('s \<Rightarrow> bool) \<Rightarrow> ('k, 's) order_book \<Rightarrow> u64 \<Rightarrow> bool" where
  "book_ready sm sm_inv b seq \<longleftrightarrow> book_inv sm sm_inv b \<and> ab_ok (abs_of sm b) \<and>
     (\<forall>m \<in> ab_orders (abs_of sm b). bo_seq m < seq)"

lemma ab_ok_id: "ab_ok ab \<Longrightarrow> m \<in> ab_orders ab \<Longrightarrow> bo_id m = bo_seq m"
  unfolding in_ab_orders ab_ok_def queue_ok_def by blast

lemma ready_step:
  assumes ar: "order_arena sm sm_inv" and rd: "book_ready sm sm_inv b (sc_seq cmd)"
  shows "\<exists>b' es. apply_cmd sm b cmd = Some (b', es) \<and> spec_apply (abs_of sm b) cmd = (abs_of sm b', es) \<and>
    book_inv sm sm_inv b' \<and> ab_ok (abs_of sm b') \<and> (\<forall>m \<in> ab_orders (abs_of sm b'). bo_seq m \<le> sc_seq cmd)"
proof -
  have inv: "book_inv sm sm_inv b" and ok: "ab_ok (abs_of sm b)"
    and sq: "\<forall>m \<in> ab_orders (abs_of sm b). bo_seq m < sc_seq cmd"
    using rd by (auto simp: book_ready_def)
  have "\<forall>m \<in> ab_orders (abs_of sm b). bo_id m \<noteq> sc_seq cmd"
    using sq ab_ok_id [OF ok] by force
  then obtain b' es where b': "apply_cmd sm b cmd = Some (b', es)" "book_inv sm sm_inv b'"
    "spec_apply (abs_of sm b) cmd = (abs_of sm b', es)"
    using order_arena.apply_cmd_refines [OF ar inv] by blast
  moreover have "ab_ok (abs_of sm b')"
    using spec_apply_ab_ok [OF ok sq] b'(3) by simp
  moreover have "bo_seq m \<le> sc_seq cmd" if "m \<in> ab_orders (abs_of sm b')" for m
    using spec_apply_orders [of m "abs_of sm b" cmd] that sq b'(3) by force
  ultimately show ?thesis
    by blast
qed

lemma ready_apply:
  assumes "order_arena sm sm_inv" "book_ready sm sm_inv b (sc_seq cmd)" "apply_cmd sm b cmd = Some (b', es)"
  shows "spec_apply (abs_of sm b) cmd = (abs_of sm b', es)" "book_inv sm sm_inv b'" "ab_ok (abs_of sm b')"
    "\<forall>m \<in> ab_orders (abs_of sm b'). bo_seq m \<le> sc_seq cmd"
  using ready_step [OF assms(1,2)] assms(3) by auto

subsection \<open>Command logs\<close>

fun run_book ::
  "('k, 's) arena_ops \<Rightarrow> ('k, 's) order_book \<Rightarrow> sequenced_command list \<Rightarrow>
   (('k, 's) order_book \<times> engine_event list) option" where
  "run_book sm b [] = Some (b, [])"
| "run_book sm b (c # cs) = do {
     (b, es) \<leftarrow> apply_cmd sm b c;
     (b, es') \<leftarrow> run_book sm b cs;
     Some (b, es @ es')
   }"

fun spec_run :: "abs_book \<Rightarrow> sequenced_command list \<Rightarrow> abs_book \<times> engine_event list" where
  "spec_run ab [] = (ab, [])"
| "spec_run ab (c # cs) =
     (case spec_apply ab c of (ab, es) \<Rightarrow> case spec_run ab cs of (ab, es') \<Rightarrow> (ab, es @ es'))"

definition config_ok :: "book_config \<Rightarrow> bool" where
  "config_ok cfg \<longleftrightarrow> int (bc_num_ticks cfg) \<le> i64_max \<and>
     sint (bc_tick_floor cfg) + int (bc_num_ticks cfg) \<le> 2 ^ 63"

lemma new_ready:
  assumes "order_arena sm sm_inv" "config_ok cfg"
  shows "book_ready sm sm_inv (book_new sm cfg) seq"
proof -
  have c: "int (bc_num_ticks cfg) \<le> i64_max" "sint (bc_tick_floor cfg) + int (bc_num_ticks cfg) \<le> 2 ^ 63"
    using assms(2) unfolding config_ok_def by blast+
  note r = order_arena.book_new_refines [OF assms(1) c]
  show ?thesis
    using r(1,2) by (simp add: book_ready_def ab_ok_def queue_ok_def uncrossed_def ab_orders_def ab_count_def)
qed

lemma run_ready:
  assumes ar: "order_arena sm sm_inv" and srt: "sorted_wrt (<) (map sc_seq cs)"
    and rd: "book_inv sm sm_inv b" "ab_ok (abs_of sm b)"
      "\<forall>m \<in> ab_orders (abs_of sm b). \<forall>c \<in> set cs. bo_seq m < sc_seq c"
  shows "\<exists>b' es. run_book sm b cs = Some (b', es) \<and> spec_run (abs_of sm b) cs = (abs_of sm b', es) \<and>
    (\<forall>n. (\<forall>c \<in> set cs. sc_seq c < n) \<and> (\<forall>m \<in> ab_orders (abs_of sm b). bo_seq m < n) \<longrightarrow> book_ready sm sm_inv b' n)"
  using srt rd
proof (induction cs arbitrary: b)
  case Nil
  then show ?case
    by (simp add: book_ready_def)
next
  case (Cons c cs)
  have rc: "book_ready sm sm_inv b (sc_seq c)"
    using Cons.prems by (simp add: book_ready_def)
  obtain b1 es1 where b1: "apply_cmd sm b c = Some (b1, es1)" "spec_apply (abs_of sm b) c = (abs_of sm b1, es1)"
    "book_inv sm sm_inv b1" "ab_ok (abs_of sm b1)" "\<forall>m \<in> ab_orders (abs_of sm b1). bo_seq m \<le> sc_seq c"
    using ready_step [OF ar rc] by blast
  have "\<forall>m \<in> ab_orders (abs_of sm b1). \<forall>c \<in> set cs. bo_seq m < sc_seq c"
    using b1(5) Cons.prems(1) by (auto intro: le_less_trans)
  then obtain b' es where b': "run_book sm b1 cs = Some (b', es)" "spec_run (abs_of sm b1) cs = (abs_of sm b', es)"
    "\<And>n. (\<forall>c \<in> set cs. sc_seq c < n) \<Longrightarrow> (\<forall>m \<in> ab_orders (abs_of sm b1). bo_seq m < n) \<Longrightarrow> book_ready sm sm_inv b' n"
    using Cons.IH [of b1] Cons.prems(1) b1(3,4) by auto
  have "book_ready sm sm_inv b' n" if "\<forall>c \<in> set (c # cs). sc_seq c < n" for n
    using that b1(5) by (intro b'(3)) (auto intro: le_less_trans)
  then show ?case
    using b1(1,2) b'(1,2) by simp
qed

subsection \<open>The book implements its specification\<close>

text \<open>C1: On every book the code can be in, every command returns (no panic, no endless matching
  loop) and has exactly the events and the effect of the specification: the two queues of the book
  after the command are the specified ones. The new book is again one the code can be in.\<close>

theorem apply_implements_spec:
  assumes "order_arena sm sm_inv" "book_ready sm sm_inv b (sc_seq cmd)" "sc_seq cmd < seq'"
  shows "\<exists>b' es. apply_cmd sm b cmd = Some (b', es) \<and> spec_apply (abs_of sm b) cmd = (abs_of sm b', es) \<and>
    book_ready sm sm_inv b' seq'"
proof -
  obtain b' es where "apply_cmd sm b cmd = Some (b', es)" "spec_apply (abs_of sm b) cmd = (abs_of sm b', es)"
    "book_inv sm sm_inv b'" "ab_ok (abs_of sm b')" "\<forall>m \<in> ab_orders (abs_of sm b'). bo_seq m \<le> sc_seq cmd"
    using ready_step [OF assms(1,2)] by blast
  then show ?thesis
    using assms(3) by (auto simp: book_ready_def intro: le_less_trans)
qed

text \<open>C2: From an empty book, every log of commands with increasing sequence numbers runs to the end,
  with the events and the final queues of the specification, and leaves a book that is ready for the
  next command.\<close>

theorem book_log_total:
  assumes "order_arena sm sm_inv" "config_ok cfg" "sorted_wrt (<) (map sc_seq cs)" "\<forall>c \<in> set cs. sc_seq c < seq'"
  shows "\<exists>b es. run_book sm (book_new sm cfg) cs = Some (b, es) \<and>
    spec_run (abs_of sm (book_new sm cfg)) cs = (abs_of sm b, es) \<and> book_ready sm sm_inv b seq'"
proof -
  have r: "book_ready sm sm_inv (book_new sm cfg) seq" for seq
    by (rule new_ready [OF assms(1,2)])
  show ?thesis
    using run_ready [OF assms(1,3), of "book_new sm cfg"] r assms(4) unfolding book_ready_def by metis
qed

subsection \<open>Examples\<close>

text \<open>A small book over the versioned slots: two asks, one bid, three accounts.\<close>

definition ex_cfg :: book_config where
  "ex_cfg = \<lparr>bc_symbol = 1, bc_tick_floor = 100, bc_num_ticks = 10, bc_arena_capacity = 4\<rparr>"

definition mk_cmd :: "u64 \<Rightarrow> inbound_command \<Rightarrow> sequenced_command" where
  "mk_cmd seq c = \<lparr>sc_term = 1, sc_seq = seq, sc_ts_ns = 0, sc_cmd = c\<rparr>"

definition ex_log :: "sequenced_command list" where
  "ex_log = [mk_cmd 1 (NewOrder 7 1 1 Sell 105 10 Limit Gtc), mk_cmd 2 (NewOrder 8 1 1 Sell 104 5 Limit Gtc),
     mk_cmd 3 (NewOrder 7 1 1 Buy 101 4 Limit Gtc)]"

type_synonym slot_book = "(slot_key, slot_key resting_order vslots) order_book"

definition ex_book :: slot_book where
  "ex_book = (case run_book vs_ops (book_new vs_ops ex_cfg) ex_log of
     Some (b, _) \<Rightarrow> b | None \<Rightarrow> book_new vs_ops ex_cfg)"

lemma vs_arena: "order_arena (vs_ops :: (slot_key, slot_key resting_order vslots) arena_ops) vs_inv"
  by (rule va.order_arena_axioms)

lemma ex_config_ok: "config_ok ex_cfg"
  by (simp add: config_ok_def ex_cfg_def)

lemma ex_book_ready: "4 \<le> seq \<Longrightarrow> book_ready vs_ops vs_inv ex_book seq"
proof -
  assume seq: "4 \<le> seq"
  have new: "book_ready vs_ops vs_inv (book_new vs_ops ex_cfg :: slot_book) n" for n
    by (rule new_ready [OF vs_arena ex_config_ok])
  then have no: "m \<notin> ab_orders (abs_of vs_ops (book_new vs_ops ex_cfg :: slot_book))" for m
    unfolding book_ready_def by (metis not_less_iff_gr_or_eq word_not_simps(1))
  have "sorted_wrt (<) (map sc_seq ex_log)" "\<forall>c \<in> set ex_log. sc_seq c < seq"
    using seq by (simp_all add: ex_log_def mk_cmd_def less_le_trans [OF _ seq])
  then show ?thesis
    using run_ready [OF vs_arena, of ex_log "book_new vs_ops ex_cfg"] new no
    unfolding book_ready_def ex_book_def by (metis (no_types, lifting) option.simps(5) prod.simps(2))
qed

theorem apply_implements_spec_witness:
  "\<exists>b' es. apply_cmd vs_ops ex_book (mk_cmd 4 (NewOrder 9 1 1 Buy 105 12 Limit Gtc)) = Some (b', es) \<and>
     spec_apply (abs_of vs_ops ex_book) (mk_cmd 4 (NewOrder 9 1 1 Buy 105 12 Limit Gtc)) = (abs_of vs_ops b', es) \<and>
     book_ready vs_ops vs_inv b' 5"
  by (rule apply_implements_spec [OF vs_arena]) (simp_all add: mk_cmd_def ex_book_ready)

theorem book_log_total_witness:
  "\<exists>b es. run_book vs_ops (book_new vs_ops ex_cfg) ex_log = Some (b :: slot_book, es) \<and>
     spec_run (abs_of vs_ops (book_new vs_ops ex_cfg :: slot_book)) ex_log = (abs_of vs_ops b, es) \<and> book_ready vs_ops vs_inv b 4"
  by (rule book_log_total [OF vs_arena ex_config_ok]) (simp_all add: ex_log_def mk_cmd_def)

end
