(* ===== verification/Book_Market.thy ===== *)
theory Book_Market
  imports Book_Props
begin

text \<open>
  The market rules of the translated book: what its events and its queues promise the participants.
  Each is carried from the specification to the code by the refinement of \<open>Book_Props\<close>.
\<close>

subsection \<open>New orders\<close>

text \<open>The aggressor of a new-order command.\<close>

definition aggressor_of ::
  "sequenced_command \<Rightarrow> account_id \<Rightarrow> symbol \<Rightarrow> side \<Rightarrow> price \<Rightarrow> order_type \<Rightarrow> aggressor" where
  "aggressor_of cmd acct symb s p t = \<lparr>ag_seq = sc_seq cmd, ag_ts = sc_ts_ns cmd, ag_symbol = symb,
     ag_side = s, ag_price = p, ag_account = acct, ag_type = t\<rparr>"

lemma aggressor_of_simps [simp]:
  "ag_seq (aggressor_of cmd acct symb s p t) = sc_seq cmd" "ag_ts (aggressor_of cmd acct symb s p t) = sc_ts_ns cmd"
  "ag_symbol (aggressor_of cmd acct symb s p t) = symb" "ag_side (aggressor_of cmd acct symb s p t) = s"
  "ag_price (aggressor_of cmd acct symb s p t) = p" "ag_account (aggressor_of cmd acct symb s p t) = acct"
  "ag_type (aggressor_of cmd acct symb s p t) = t"
  by (simp_all add: aggressor_of_def)

text \<open>What the events before the final report (\<open>Rejected\<close>, \<open>Accepted\<close>, \<open>BookTop\<close>, the aggressor's own
  \<open>Cancelled\<close>) are, and what became of the order.\<close>

lemma new_order_sweep:
  assumes "spec_new ab ag coid q tif = (ab', es)"
  obtains (door) "ab' = ab" "door_reject ag coid es"
    | (swept) q' ms es1 es2 where "sweep ag q (ab_queue ab (opposite (ag_side ag))) = (q', ms, es1)" "es = es1 @ es2" "q \<noteq> 0"
        "ab_queue ab' (opposite (ag_side ag)) = ms" "traded es2 = 0" "maker_ids (ag_seq ag) es2 = []"
        "stp_ids es2 \<in> {[], [ag_seq ag]}" "\<And>t. Trade t \<notin> set es2"
        "q' \<noteq> 0 \<longrightarrow> tif = Gtc \<and> ag_type ag = Limit \<and> (\<exists>m \<in> set (ab_queue ab' (ag_side ag)). bo_id m = ag_seq ag \<and> bo_qty m = q')
           \<or> (\<exists>e \<in> set es2. e = Cancelled (ag_seq ag) (ag_seq ag) \<or> (\<exists>rs. e = Rejected (ag_seq ag) (ag_seq ag) (ag_account ag) coid rs))"
  using assms
proof (cases rule: spec_new_cases)
  case door
  then show ?thesis using that(1) by blast
next
  case (filled ms es1)
  then show ?thesis
    by (intro that(2) [of 0 ms es1 "[top_event ab' (ag_seq ag) (ag_symbol ag)]"]) (auto simp: top_event_def stp_ids_def)
next
  case (dropped q' ms es1)
  then show ?thesis
    by (intro that(2) [of q' ms es1 "[if q' < q then Cancelled (ag_seq ag) (ag_seq ag)
          else Rejected (ag_seq ag) (ag_seq ag) (ag_account ag) coid IocNoMatch, top_event ab' (ag_seq ag) (ag_symbol ag)]"])
      (auto simp: top_event_def stp_ids_def)
next
  case (full q' ms es1)
  then show ?thesis
    by (intro that(2) [of q' ms es1 "[Rejected (ag_seq ag) (ag_seq ag) (ag_account ag) coid ArenaFull]"])
      (auto simp: stp_ids_def)
next
  case (rested q' ms es1 ab1 x)
  then show ?thesis
    by (intro that(2) [of q' ms es1 "[Accepted (ag_seq ag) (ag_seq ag) (ag_ts ag) (ag_symbol ag) (ag_account ag) coid (ag_side ag) (ag_price ag) q',
          top_event ab' (ag_seq ag) (ag_symbol ag)]"])
      (auto simp: top_event_def stp_ids_def set_enqueue fresh_order_def)
qed

lemma spec_apply_new:
  "sc_cmd cmd = NewOrder acct coid symb s p q t tif \<Longrightarrow>
   spec_apply ab cmd = spec_new ab (aggressor_of cmd acct symb s p t) coid q tif"
  by (simp add: spec_apply_def aggressor_of_def)

fun is_trade :: "engine_event \<Rightarrow> bool" where
  "is_trade (Trade t) = True"
| "is_trade _ = False"

lemma is_trade_iff: "is_trade e \<longleftrightarrow> (\<exists>t. e = Trade t)"
  by (cases e) auto

lemma stp_ids_append: "stp_ids (es @ es') = stp_ids es @ stp_ids es'"
  by (simp add: stp_ids_def List.map_filter_def)

lemma door_reject_events:
  assumes "door_reject ag coid es"
  shows "traded es = 0" "maker_ids (ag_seq ag) es = []" "stp_ids es = []" "Trade t \<notin> set es"
    "\<exists>e \<in> set es. \<exists>rs. e = Rejected (ag_seq ag) (ag_seq ag) (ag_account ag) coid rs"
  using assms by (auto simp: door_reject_def stp_ids_def)

text \<open>C3: Every trade of a command is a fair one. The maker is an order that was resting on the opposite
  side, of another account than the taker's; the price is the maker's and one the taker accepts; the
  quantity is positive and no more than the maker had, and the report of what the maker keeps is exact.
  The README says that accounts can match against themselves; in the code they do not.\<close>

theorem trades_fair:
  assumes "order_arena sm sm_inv" "book_ready sm sm_inv b (sc_seq cmd)" "apply_cmd sm b cmd = Some (b', es)"
    "sc_cmd cmd = NewOrder acct coid symb s p q t tif" "Trade tr \<in> set es"
  shows "\<exists>m \<in> set (ab_queue (abs_of sm b) (opposite s)). tr_maker_order tr = bo_id m \<and> tr_maker_acct tr = bo_account m \<and>
    tr_taker_acct tr = acct \<and> bo_account m \<noteq> acct \<and> tr_price tr = bo_price m \<and> crosses s t p (tr_price tr) \<and>
    tr_qty tr \<noteq> 0 \<and> tr_qty tr \<le> bo_qty m \<and> tr_maker_remaining_qty tr = bo_qty m - tr_qty tr \<and>
    tr_taker_order tr = sc_seq cmd \<and> tr_maker_side tr = opposite s"
proof -
  let ?ag = "aggressor_of cmd acct symb s p t" and ?ab = "abs_of sm b"
  have "spec_new ?ab ?ag coid q tif = (abs_of sm b', es)"
    using ready_apply(1) [OF assms(1-3)] spec_apply_new [OF assms(4)] by simp
  then show ?thesis
  proof (cases rule: new_order_sweep)
    case door
    then show ?thesis using assms(5) door_reject_events(4) by blast
  next
    case (swept q' ms es1 es2)
    have "sweep_event ?ag (ab_queue ?ab (opposite s)) (Trade tr)"
      using sweep_events [OF swept(1)] swept(2,8) assms(5) by auto
    then obtain m q1 where m: "m \<in> set (ab_queue ?ab (opposite s))" "crosses s t p (bo_price m)" "bo_account m \<noteq> acct"
      "Trade tr = trade_of ?ag m (min (bo_qty m) q1) q1" "q1 \<noteq> 0"
      by (auto simp: sweep_event_def trade_of_def split: if_splits)
    have "queue_ok ?ab (opposite s) (ab_queue ?ab (opposite s))"
      using assms(2) by (simp add: book_ready_def ab_ok_def)
    then have "bo_qty m \<noteq> 0"
      using m(1) by (simp add: queue_ok_def)
    then show ?thesis
      using m by (intro bexI [of _ m]) (auto simp: trade_of_def min_def)
  qed
qed

theorem trades_fair_witness:
  "\<exists>b' es tr. apply_cmd vs_ops ex_book (mk_cmd 4 (NewOrder 9 1 1 Buy 105 12 Limit Gtc)) = Some (b', es) \<and> Trade tr \<in> set es \<and>
     (\<exists>m \<in> set (ab_queue (abs_of vs_ops ex_book) Sell). tr_maker_order tr = bo_id m \<and> tr_maker_acct tr = bo_account m \<and>
       bo_account m \<noteq> 9 \<and> tr_price tr = bo_price m \<and> tr_qty tr \<noteq> 0)"
proof -
  let ?c = "mk_cmd 4 (NewOrder 9 1 1 Buy 105 12 Limit Gtc)"
  have "map_option (\<lambda>(_, es). list_ex is_trade es) (apply_cmd vs_ops ex_book ?c) = Some True"
    by code_simp
  then obtain b' es tr where r: "apply_cmd vs_ops ex_book ?c = Some (b', es)" "Trade tr \<in> set es"
    by (auto simp: list_ex_iff is_trade_iff)
  then show ?thesis
    using trades_fair [OF vs_arena _ r(1), of 9 1 1 Buy 105 12 Limit Gtc tr] ex_book_ready [of 4]
    by (auto simp: mk_cmd_def)
qed

text \<open>C4: No quantity is lost or made. What the new order asked for is what it traded plus a remainder, and a
  positive remainder is either on the book under the order's id or reported as cancelled or rejected.
  What the makers offered is still offered, was traded, or belonged to the taker's own account and was
  cancelled by self-trade prevention.\<close>

theorem quantity_conserved:
  assumes "order_arena sm sm_inv" "book_ready sm sm_inv b (sc_seq cmd)" "apply_cmd sm b cmd = Some (b', es)"
    "sc_cmd cmd = NewOrder acct coid symb s p q t tif"
  shows "(\<exists>rest. unat q = traded es + unat rest \<and> (rest \<noteq> 0 \<longrightarrow>
        (\<exists>m \<in> set (ab_queue (abs_of sm b') s). bo_id m = sc_seq cmd \<and> bo_qty m = rest) \<or>
        Cancelled (sc_seq cmd) (sc_seq cmd) \<in> set es \<or> (\<exists>rs. Rejected (sc_seq cmd) (sc_seq cmd) acct coid rs \<in> set es))) \<and>
    (\<exists>own. set own \<subseteq> set (ab_queue (abs_of sm b) (opposite s)) \<and> (\<forall>m \<in> set own. bo_account m = acct) \<and>
        set (map bo_id own) \<subseteq> set (stp_ids es) \<and>
        qtys (ab_queue (abs_of sm b) (opposite s)) = qtys (ab_queue (abs_of sm b') (opposite s)) + traded es + qtys own)"
proof -
  let ?ag = "aggressor_of cmd acct symb s p t" and ?ab = "abs_of sm b"
  have "spec_new ?ab ?ag coid q tif = (abs_of sm b', es)"
    using ready_apply(1) [OF assms(1-3)] spec_apply_new [OF assms(4)] by simp
  then show ?thesis
  proof (cases rule: new_order_sweep)
    case door
    then show ?thesis
      using door_reject_events(1,5) [OF door(2)] by (intro conjI exI [of _ q] exI [of _ "[]"]) auto
  next
    case (swept q' ms es1 es2)
    obtain own where "set own \<subseteq> set (ab_queue ?ab (opposite s))" "\<forall>m \<in> set own. bo_account m = acct"
      "map bo_id own = stp_ids es1" "qtys (ab_queue ?ab (opposite s)) = qtys ms + traded es1 + qtys own"
      using sweep_makers [OF swept(1)] by auto
    moreover have "stp_ids es = stp_ids es1 @ stp_ids es2"
      using swept(2) by (simp add: stp_ids_append)
    ultimately have "\<exists>own. set own \<subseteq> set (ab_queue ?ab (opposite s)) \<and> (\<forall>m \<in> set own. bo_account m = acct) \<and>
        set (map bo_id own) \<subseteq> set (stp_ids es) \<and>
        qtys (ab_queue ?ab (opposite s)) = qtys (ab_queue (abs_of sm b') (opposite s)) + traded es + qtys own"
      using swept(2,4,5) by (intro exI [of _ own]) auto
    moreover have "unat q = traded es + unat q'"
      using sweep_conserves [OF swept(1)] swept(2,5) by simp
    ultimately show ?thesis
      using swept(2,9) by (intro conjI exI [of _ q']) auto
  qed
qed

theorem quantity_conserved_witness:
  "\<exists>b' es rest. apply_cmd vs_ops ex_book (mk_cmd 4 (NewOrder 8 1 1 Buy 105 20 Limit Gtc)) = Some (b', es) \<and>
     unat (20 :: qty) = traded es + unat (rest :: qty) \<and> traded es = 10"
proof -
  let ?c = "mk_cmd 4 (NewOrder 8 1 1 Buy 105 20 Limit Gtc)"
  have "map_option (\<lambda>(_, es). traded es) (apply_cmd vs_ops ex_book ?c) = Some 10"
    by code_simp
  then obtain b' es where r: "apply_cmd vs_ops ex_book ?c = Some (b', es)" "traded es = 10"
    by auto
  then show ?thesis
    using quantity_conserved [OF vs_arena _ r(1), of 8 1 1 Buy 105 20 Limit Gtc] ex_book_ready [of 4]
    by (auto simp: mk_cmd_def)
qed

text \<open>C5: Price-time priority. The queues are sorted by price, then by sequence number, and the orders that a
  command trades with (or cancels as the taker's own) are a prefix of the opposite queue, in its order.\<close>

theorem price_time_priority:
  assumes "order_arena sm sm_inv" "book_ready sm sm_inv b (sc_seq cmd)" "apply_cmd sm b cmd = Some (b', es)"
    "sc_cmd cmd = NewOrder acct coid symb s p q t tif"
  shows "sorted_wrt (before s') (ab_queue (abs_of sm b) s') \<and>
    maker_ids (sc_seq cmd) es = map bo_id (take (length (maker_ids (sc_seq cmd) es)) (ab_queue (abs_of sm b) (opposite s)))"
proof
  let ?ag = "aggressor_of cmd acct symb s p t" and ?ab = "abs_of sm b"
  have ok: "ab_ok ?ab" and sq: "\<forall>m \<in> ab_orders ?ab. bo_seq m < sc_seq cmd"
    using assms(2) by (auto simp: book_ready_def)
  show "sorted_wrt (before s') (ab_queue ?ab s')"
    using ok by (simp add: ab_ok_def queue_ok_def)
  have fresh: "\<forall>m \<in> set (ab_queue ?ab (opposite s)). bo_id m \<noteq> sc_seq cmd"
    using sq ab_ok_id [OF ok] by (force simp: in_ab_orders)
  have "spec_new ?ab ?ag coid q tif = (abs_of sm b', es)"
    using ready_apply(1) [OF assms(1-3)] spec_apply_new [OF assms(4)] by simp
  then show "maker_ids (sc_seq cmd) es = map bo_id (take (length (maker_ids (sc_seq cmd) es)) (ab_queue ?ab (opposite s)))"
  proof (cases rule: new_order_sweep)
    case door
    then show ?thesis
      using door_reject_events(2) [OF door(2)] by simp
  next
    case (swept q' ms es1 es2)
    then show ?thesis
      using sweep_maker_ids [OF swept(1), of "sc_seq cmd"] fresh by simp
  qed
qed

theorem price_time_priority_witness:
  "\<exists>b' es. apply_cmd vs_ops ex_book (mk_cmd 4 (NewOrder 9 1 1 Buy 105 12 Limit Gtc)) = Some (b', es) \<and>
     maker_ids 4 es = [2, 1] \<and> map bo_id (take 2 (ab_queue (abs_of vs_ops ex_book) Sell)) = [2, 1]"
proof -
  let ?c = "mk_cmd 4 (NewOrder 9 1 1 Buy 105 12 Limit Gtc)"
  have "map_option (\<lambda>(_, es). maker_ids 4 es) (apply_cmd vs_ops ex_book ?c) = Some [2, 1]"
    by code_simp
  then obtain b' es where r: "apply_cmd vs_ops ex_book ?c = Some (b', es)" "maker_ids 4 es = [2, 1]"
    by auto
  then show ?thesis
    using price_time_priority [OF vs_arena _ r(1), of 9 1 1 Buy 105 12 Limit Gtc] ex_book_ready [of 4]
    by (simp add: mk_cmd_def numeral_2_eq_2)
qed

text \<open>C6: Fill-or-kill is all or nothing. The order trades its whole quantity, or nothing is traded, the queues stay
  as they were and it is rejected. It is killed for want of quantity exactly when the other accounts
  offer less than it asks at prices it accepts. The README's table of order types says that fill-or-kill is
  treated as good-till-cancelled; in the code it is not.\<close>

theorem fok_all_or_nothing:
  assumes "order_arena sm sm_inv" "book_ready sm sm_inv b (sc_seq cmd)" "apply_cmd sm b cmd = Some (b', es)"
    "sc_cmd cmd = NewOrder acct coid symb s p q t Fok"
  shows "(traded es = unat q \<and> q \<noteq> 0 \<or>
      traded es = 0 \<and> abs_of sm b' = abs_of sm b \<and> (\<exists>rs. es = [Rejected (sc_seq cmd) (sc_seq cmd) acct coid rs])) \<and>
    (es = [Rejected (sc_seq cmd) (sc_seq cmd) acct coid FokNotFullyFillable] \<longleftrightarrow>
      q \<noteq> 0 \<and> (t = Limit \<longrightarrow> in_range (abs_of sm b) p) \<and>
      fillable (aggressor_of cmd acct symb s p t) (ab_queue (abs_of sm b) (opposite s)) < unat q)"
proof -
  let ?ag = "aggressor_of cmd acct symb s p t" and ?ab = "abs_of sm b"
  have "spec_new ?ab ?ag coid q Fok = (abs_of sm b', es)"
    using ready_apply(1) [OF assms(1-3)] spec_apply_new [OF assms(4)] by simp
  then show ?thesis
  proof (cases rule: spec_new_cases)
    case door
    then show ?thesis
      using door_reject_events(1) [OF door(2)] by (auto simp: door_reject_def)
  next
    case (filled ms es1)
    moreover have "unat q \<le> fillable ?ag (ab_queue ?ab (opposite s))"
      using sweep_fillable [OF filled(1)] by simp
    ultimately show ?thesis
      using sweep_conserves [OF filled(1)] by (auto simp: top_event_def)
  next
    case (dropped q' ms es1)
    then show ?thesis
      using sweep_fillable [OF dropped(1)] by simp
  qed simp_all
qed

theorem fok_all_or_nothing_witness:
  "\<exists>b'. apply_cmd vs_ops ex_book (mk_cmd 4 (NewOrder 9 1 1 Buy 105 16 Limit Fok)) = Some (b', [Rejected 4 4 9 1 FokNotFullyFillable]) \<and>
     abs_of vs_ops b' = abs_of vs_ops ex_book \<and>
     fillable (aggressor_of (mk_cmd 4 (NewOrder 9 1 1 Buy 105 16 Limit Fok)) 9 1 Buy 105 Limit) (ab_queue (abs_of vs_ops ex_book) Sell) < 16"
proof -
  let ?c = "mk_cmd 4 (NewOrder 9 1 1 Buy 105 16 Limit Fok)"
  have "map_option snd (apply_cmd vs_ops ex_book ?c) = Some [Rejected 4 4 9 1 FokNotFullyFillable]"
    by code_simp
  then obtain b' where r: "apply_cmd vs_ops ex_book ?c = Some (b', [Rejected 4 4 9 1 FokNotFullyFillable])"
    by auto
  then show ?thesis
    using fok_all_or_nothing [OF vs_arena _ r, of 9 1 1 Buy 105 16 Limit] ex_book_ready [of 4]
    by (auto simp: mk_cmd_def)
qed

lemma get_order_view:
  assumes "order_arena sm sm_inv" "book_inv sm sm_inv b"
  shows "map_option view (get_order sm b oid) = find_order (abs_of sm b) oid"
proof -
  have ok: "book_ok sm sm_inv b (keys_at sm b)"
    using assms(2) by (simp add: book_inv_def)
  show ?thesis
    unfolding abs_of_def order_arena.find_order_eq [OF assms(1) ok] get_order_def
    by (cases "b_id_to_key b oid") (simp_all add: hview_def)
qed

lemma find_by_id:
  assumes "order_arena sm sm_inv" "book_inv sm sm_inv b" "m \<in> ab_orders (abs_of sm b)"
  shows "find_order (abs_of sm b) (bo_id m) = Some m"
proof -
  have ok: "book_ok sm sm_inv b (keys_at sm b)"
    using assms(2) by (simp add: book_inv_def)
  obtain k where k: "hview (sm_get sm (b_arena b)) k = Some m"
    using assms(3) order_arena.in_abs_orders [OF assms(1) ok] by (auto simp: abs_of_def ran_def)
  moreover have "b_id_to_key b (bo_id m) = Some k"
    using order_arena.book_okD(4) [OF assms(1) ok] k by (auto simp: index_ok_def)
  ultimately show ?thesis
    unfolding abs_of_def order_arena.find_order_eq [OF assms(1) ok] by simp
qed

lemma find_order_None: "find_order ab oid = None \<longleftrightarrow> (\<forall>m \<in> ab_orders ab. bo_id m \<noteq> oid)"
  by (auto simp: find_order_def find_None_iff ab_orders_def)

text \<open>C7: An immediate-or-cancel, fill-or-kill or market order never stays on the book: after the command its
  id is unknown, and no order was added on its own side. The README's table of order types says otherwise
  of fill-or-kill and of market orders.\<close>

theorem immediate_never_rests:
  assumes "order_arena sm sm_inv" "book_ready sm sm_inv b (sc_seq cmd)" "apply_cmd sm b cmd = Some (b', es)"
    "sc_cmd cmd = NewOrder acct coid symb s p q t tif" "tif \<noteq> Gtc \<or> t = Market"
  shows "get_order sm b' (sc_seq cmd) = None \<and> ab_queue (abs_of sm b') s = ab_queue (abs_of sm b) s"
proof -
  let ?ag = "aggressor_of cmd acct symb s p t" and ?ab = "abs_of sm b"
  have ok: "ab_ok ?ab" and sq: "\<forall>m \<in> ab_orders ?ab. bo_seq m < sc_seq cmd"
    using assms(2) by (auto simp: book_ready_def)
  have fresh: "\<forall>m \<in> ab_orders ?ab. bo_id m \<noteq> sc_seq cmd"
    using sq ab_ok_id [OF ok] by force
  have opp: "opposite s \<noteq> s"
    by (cases s) auto
  have "spec_new ?ab ?ag coid q tif = (abs_of sm b', es)"
    using ready_apply(1) [OF assms(1-3)] spec_apply_new [OF assms(4)] by simp
  then have "(\<forall>m \<in> ab_orders (abs_of sm b'). bo_id m \<noteq> sc_seq cmd) \<and> ab_queue (abs_of sm b') s = ab_queue ?ab s"
  proof (cases rule: spec_new_cases)
    case (filled ms es1)
    then show ?thesis
      using sweep_orders [OF filled(1)] fresh opp by fastforce
  next
    case (dropped q' ms es1)
    then show ?thesis
      using sweep_orders [OF dropped(1)] fresh opp by fastforce
  qed (use fresh assms(5) in simp_all)
  then show ?thesis
    using get_order_view [OF assms(1) ready_apply(2) [OF assms(1-3)], of "sc_seq cmd"]
    by (simp add: find_order_None [THEN iffD2])
qed

theorem immediate_never_rests_witness:
  "\<exists>b' es. apply_cmd vs_ops ex_book (mk_cmd 4 (NewOrder 9 1 1 Buy 104 12 Limit Ioc)) = Some (b', es) \<and>
     get_order vs_ops b' 4 = None \<and> ab_queue (abs_of vs_ops b') Buy = ab_queue (abs_of vs_ops ex_book) Buy"
proof -
  let ?c = "mk_cmd 4 (NewOrder 9 1 1 Buy 104 12 Limit Ioc)"
  have "apply_cmd vs_ops ex_book ?c \<noteq> None"
    by code_simp
  then obtain b' es where r: "apply_cmd vs_ops ex_book ?c = Some (b', es)"
    by auto
  then show ?thesis
    using immediate_never_rests [OF vs_arena _ r, of 9 1 1 Buy 104 12 Limit Ioc] ex_book_ready [of 4]
    by (auto simp: mk_cmd_def)
qed

lemma best_prices_touch:
  assumes "order_arena sm sm_inv" "book_inv sm sm_inv b"
  shows "best_bid b = Some (touch (abs_of sm b) Buy)" "best_ask b = Some (touch (abs_of sm b) Sell)"
proof -
  have ok: "book_ok sm sm_inv b (keys_at sm b)"
    using assms(2) by (simp add: book_inv_def)
  show "best_bid b = Some (touch (abs_of sm b) Buy)" "best_ask b = Some (touch (abs_of sm b) Sell)"
    unfolding abs_of_def order_arena.touch_eq [OF assms(1) ok]
    by (simp_all add: order_arena.best_price_ok [OF assms(1) ok])
qed

lemma touch_None: "touch ab s = None \<longleftrightarrow> ab_queue ab s = []"
  by (simp add: touch_def split: list.splits)

lemma touch_Some:
  assumes "ab_ok ab" "touch ab s = Some p"
  shows "\<exists>m \<in> set (ab_queue ab s). bo_price m = p" "\<forall>m \<in> set (ab_queue ab s). ahead s p (bo_price m)"
proof -
  have "sorted_wrt (before s) (ab_queue ab s)"
    using assms(1) by (simp add: ab_ok_def queue_ok_def)
  then show "\<exists>m \<in> set (ab_queue ab s). bo_price m = p" "\<forall>m \<in> set (ab_queue ab s). ahead s p (bo_price m)"
    using assms(2) by (cases s; auto simp: touch_def split: list.splits)+
qed

text \<open>C8: The quoted best prices are exact and never cross: \<open>best_bid\<close> is the highest price of a resting bid,
  \<open>best_ask\<close> the lowest of a resting ask, absent exactly when that side is empty, and the best bid is
  below the best ask.\<close>

theorem best_prices_exact:
  assumes "order_arena sm sm_inv" "book_ready sm sm_inv b seq"
  shows "\<exists>bid ask. best_bid b = Some bid \<and> best_ask b = Some ask \<and>
    (bid = None \<longleftrightarrow> ab_queue (abs_of sm b) Buy = []) \<and> (ask = None \<longleftrightarrow> ab_queue (abs_of sm b) Sell = []) \<and>
    (\<forall>x. bid = Some x \<longrightarrow> (\<exists>m \<in> set (ab_queue (abs_of sm b) Buy). bo_price m = x) \<and> (\<forall>m \<in> set (ab_queue (abs_of sm b) Buy). sint (bo_price m) \<le> sint x)) \<and>
    (\<forall>y. ask = Some y \<longrightarrow> (\<exists>m \<in> set (ab_queue (abs_of sm b) Sell). bo_price m = y) \<and> (\<forall>m \<in> set (ab_queue (abs_of sm b) Sell). sint y \<le> sint (bo_price m))) \<and>
    (\<forall>x y. bid = Some x \<and> ask = Some y \<longrightarrow> sint x < sint y)"
proof -
  let ?ab = "abs_of sm b"
  have inv: "book_inv sm sm_inv b" and ok: "ab_ok ?ab"
    using assms(2) by (auto simp: book_ready_def)
  have "sint x < sint y" if "touch ?ab Buy = Some x" "touch ?ab Sell = Some y" for x y
    using touch_Some(1) [OF ok that(1)] touch_Some(1) [OF ok that(2)] ok by (auto simp: ab_ok_def uncrossed_def)
  then show ?thesis
    using best_prices_touch [OF assms(1) inv] touch_Some [OF ok] touch_Some(2) [OF ok, of Buy] touch_Some(2) [OF ok, of Sell]
    by (intro exI [of _ "touch ?ab Buy"] exI [of _ "touch ?ab Sell"]) (simp add: touch_None)
qed

theorem best_prices_exact_witness:
  "\<exists>m \<in> set (ab_queue (abs_of vs_ops ex_book) Sell). bo_price m = 104 \<and> sint (101 :: price) < sint (104 :: price)"
proof -
  have r: "best_bid ex_book = Some (Some 101)" "best_ask ex_book = Some (Some 104)"
    by code_simp+
  then show ?thesis
    using best_prices_exact [OF vs_arena ex_book_ready [of 4]] by force
qed

definition qty_at :: "('k, 's) order_book \<Rightarrow> side \<Rightarrow> price \<Rightarrow> qty option" where
  "qty_at b s p = (case s of Buy \<Rightarrow> bid_qty_at b p | Sell \<Rightarrow> ask_qty_at b p)"

lemma queue_of_append: "queue_of v (xs @ ys) = queue_of v xs @ queue_of v ys"
  by (simp add: queue_of_def)

lemma level_queue:
  assumes ar: "order_arena sm sm_inv" and inv: "book_inv sm sm_inv b" and i: "price_to_idx b p = Some i"
  shows "filter (\<lambda>m. bo_price m = p) (ab_queue (abs_of sm b) s) =
    queue_of (hview (sm_get sm (b_arena b))) (keys_at sm b s i)"
proof -
  let ?L = "keys_at sm b" and ?v = "hview (sm_get sm (b_arena b))"
  have ok: "book_ok sm sm_inv b ?L"
    using inv by (simp add: book_inv_def)
  note lad = order_arena.book_okD(2) [OF ar ok]
  have i': "i < num_ticks b" "p = idx_to_price b i"
    using order_arena.price_to_idx_Some [OF ar lad i] by blast+
  obtain pre post where p: "\<And>ks. side_keys (upd_queue ?L s i ks) s (num_ticks b) = pre @ ks @ post"
    "\<And>k. k \<in> set pre \<Longrightarrow> \<exists>j<num_ticks b. better s j i \<and> k \<in> set (?L s j)"
    "\<And>k. k \<in> set post \<Longrightarrow> \<exists>j<num_ticks b. better s i j \<and> k \<in> set (?L s j)"
    using side_keys_upd [OF i'(1), of ?L s] by metis
  have level: "bo_price m = idx_to_price b j" if "m \<in> set (queue_of ?v (?L s j))" for m j
    using order_arena.queue_at_price [OF ar ok that] .
  have other: "bo_price m \<noteq> p" if m: "m \<in> set (queue_of ?v ks)" and js: "\<forall>k \<in> set ks. \<exists>j<num_ticks b. j \<noteq> i \<and> k \<in> set (?L s j)" for m ks
  proof -
    obtain k where k: "k \<in> set ks" "m = the (?v k)"
      using m by (auto simp: queue_of_def)
    then obtain j where j: "j < num_ticks b" "j \<noteq> i" "k \<in> set (?L s j)"
      using js by blast
    then have "bo_price m = idx_to_price b j"
      using k(2) by (intro level) (auto simp: queue_of_def)
    then show ?thesis
      using idx_to_price_inj [OF lad j(1) i'(1)] j(2) i'(2) by metis
  qed
  have split: "side_keys ?L s (num_ticks b) = pre @ ?L s i @ post"
    using p(1) [of "?L s i"] by simp
  have ne_pre: "\<forall>k \<in> set pre. \<exists>j<num_ticks b. j \<noteq> i \<and> k \<in> set (?L s j)"
    and ne_post: "\<forall>k \<in> set post. \<exists>j<num_ticks b. j \<noteq> i \<and> k \<in> set (?L s j)"
    using p(2,3) better_irrefl by blast+
  have "filter (\<lambda>m. bo_price m = p) (queue_of ?v pre) = []"
    unfolding filter_empty_conv using other [of _ pre] ne_pre by blast
  moreover have "filter (\<lambda>m. bo_price m = p) (queue_of ?v post) = []"
    unfolding filter_empty_conv using other [of _ post] ne_post by blast
  moreover have "filter (\<lambda>m. bo_price m = p) (queue_of ?v (?L s i)) = queue_of ?v (?L s i)"
    using level [of _ i] i'(2) by (simp add: filter_id_conv)
  ultimately show ?thesis
    by (simp add: abs_of_def abs_with_def split queue_of_append)
qed

text \<open>C9: The level totals are exact: the quantity reported at a price is the sum of the quantities resting
  there on that side, in 64-bit arithmetic, and 0 off the ladder.\<close>

theorem level_totals_exact:
  assumes "order_arena sm sm_inv" "book_ready sm sm_inv b seq"
  shows "qty_at b s p = Some (qsum (filter (\<lambda>m. bo_price m = p) (ab_queue (abs_of sm b) s)))"
proof -
  have inv: "book_inv sm sm_inv b" and ab: "ab_ok (abs_of sm b)"
    using assms(2) by (auto simp: book_ready_def)
  then have ok: "book_ok sm sm_inv b (keys_at sm b)"
    by (simp add: book_inv_def)
  note lad = order_arena.book_okD(2) [OF assms(1) ok]
  show ?thesis
  proof (cases "price_to_idx b p")
    case None
    have "in_range (abs_of sm b) (bo_price m)" if "m \<in> set (ab_queue (abs_of sm b) s)" for m
      using ab that by (simp add: ab_ok_def queue_ok_def)
    then have "\<forall>m \<in> set (ab_queue (abs_of sm b) s). bo_price m \<noteq> p"
      using None order_arena.in_range_eq [OF assms(1) ok, of p] by (auto simp: abs_of_def)
    then have "filter (\<lambda>m. bo_price m = p) (ab_queue (abs_of sm b) s) = []"
      by (simp add: filter_empty_conv)
    then show ?thesis
      using None by (cases s) (simp_all add: qty_at_def bid_qty_at_def ask_qty_at_def qsum_def)
  next
    case (Some i)
    have i: "i < num_ticks b" "p = idx_to_price b i"
      using order_arena.price_to_idx_Some [OF assms(1) lad Some] by blast+
    have get: "list_get (ladder b s) i = Some (ladder b s ! i)"
      using i(1) ladder_okD(1) [OF lad, of s] by (simp add: list_get_def)
    have "qty_at b s p = Some (case ladder b s ! i of Some l \<Rightarrow> l_total_qty l | None \<Rightarrow> 0)"
      using Some get by (cases s) (simp_all add: qty_at_def bid_qty_at_def ask_qty_at_def)
    moreover have "(case ladder b s ! i of Some l \<Rightarrow> l_total_qty l | None \<Rightarrow> 0) =
        qsum (queue_of (hview (sm_get sm (b_arena b))) (keys_at sm b s i))"
      using ladder_okD(3) [OF lad i(1), of s]
      by (cases "ladder b s ! i") (auto simp: level_ok_def qsum_def queue_of_def)
    ultimately show ?thesis
      using level_queue [OF assms(1) inv Some, of s] by simp
  qed
qed

theorem level_totals_exact_witness:
  "qty_at ex_book Sell 104 = Some 5 \<and>
     qsum (filter (\<lambda>m. bo_price m = 104) (ab_queue (abs_of vs_ops ex_book) Sell)) = 5"
proof -
  have "qty_at ex_book Sell 104 = Some 5"
    by code_simp
  then show ?thesis
    using level_totals_exact [OF vs_arena ex_book_ready [of 4], of Sell 104] by simp
qed

subsection \<open>Cancels and lookups\<close>

text \<open>C10: A cancel removes exactly the named order when the account owns it, and otherwise changes nothing:
  an id that is not on the book and an order of another account are rejected with the reason.\<close>

theorem cancel_exact:
  assumes "order_arena sm sm_inv" "book_ready sm sm_inv b (sc_seq cmd)" "sc_cmd cmd = Cancel acct oid"
  shows "\<exists>b'. case get_order sm b oid of
      None \<Rightarrow> apply_cmd sm b cmd = Some (b', [Rejected (sc_seq cmd) oid acct 0 OrderNotFound]) \<and> abs_of sm b' = abs_of sm b
    | Some r \<Rightarrow>
        if o_account r \<noteq> acct then
          apply_cmd sm b cmd = Some (b', [Rejected (sc_seq cmd) oid acct 0 WrongAccount]) \<and> abs_of sm b' = abs_of sm b
        else apply_cmd sm b cmd = Some (b', [Cancelled (sc_seq cmd) oid]) \<and> get_order sm b' oid = None \<and>
          (\<forall>s. ab_queue (abs_of sm b') s = filter (\<lambda>m. bo_id m \<noteq> oid) (ab_queue (abs_of sm b) s))"
proof -
  obtain b' es where b': "apply_cmd sm b cmd = Some (b', es)" "spec_apply (abs_of sm b) cmd = (abs_of sm b', es)"
    "book_inv sm sm_inv b'"
    using ready_step [OF assms(1,2)] by blast
  have inv: "book_inv sm sm_inv b"
    using assms(2) by (simp add: book_ready_def)
  note look = get_order_view [OF assms(1) inv, of oid] get_order_view [OF assms(1) b'(3), of oid]
  have sp: "spec_cancel (abs_of sm b) (sc_seq cmd) acct oid = (abs_of sm b', es)"
    using b'(2) assms(3) by (simp add: spec_apply_def)
  show ?thesis
  proof (cases "get_order sm b oid")
    case None
    then show ?thesis
      using look(1) sp b'(1) by (intro exI [of _ b']) (simp add: spec_cancel_def)
  next
    case (Some r)
    then have f: "find_order (abs_of sm b) oid = Some (view r)"
      using look(1) by simp
    show ?thesis
    proof (cases "o_account r = acct")
      case False
      then show ?thesis
        using f Some sp b'(1) by (intro exI [of _ b']) (simp add: spec_cancel_def view_def)
    next
      case True
      then have e: "es = [Cancelled (sc_seq cmd) oid]" and
        q: "abs_of sm b' = (abs_of sm b)\<lparr>ab_queue := (\<lambda>s. filter (\<lambda>m. bo_id m \<noteq> oid) (ab_queue (abs_of sm b) s))\<rparr>"
        using f sp by (simp_all add: spec_cancel_def view_def)
      have "find_order (abs_of sm b') oid = None"
        unfolding find_order_None by (auto simp: q ab_orders_def)
      then show ?thesis
        using True Some e q b'(1) look(2) by (intro exI [of _ b']) simp
    qed
  qed
qed

theorem cancel_exact_witness:
  "\<exists>b'. apply_cmd vs_ops ex_book (mk_cmd 4 (Cancel 7 1)) = Some (b', [Cancelled 4 1]) \<and> get_order vs_ops b' 1 = None"
proof -
  have "map_option o_account (get_order vs_ops ex_book 1) = Some 7"
    by code_simp
  then obtain r where "get_order vs_ops ex_book 1 = Some r" "o_account r = 7"
    by auto
  then show ?thesis
    using cancel_exact [OF vs_arena, of ex_book "mk_cmd 4 (Cancel 7 1)" 7 1] ex_book_ready [of 4]
    by (auto simp: mk_cmd_def)
qed

lemma account_order_ids:
  assumes "order_arena sm sm_inv" "book_ready sm sm_inv b seq"
  shows "set (open_order_ids_for_account sm b acct) = {bo_id m |m. m \<in> ab_orders (abs_of sm b) \<and> bo_account m = acct} \<and>
    distinct (open_order_ids_for_account sm b acct) \<and> open_order_count sm b = ab_count (abs_of sm b)"
proof -
  have ok: "book_ok sm sm_inv b (keys_at sm b)"
    using assms(2) by (simp add: book_ready_def book_inv_def)
  let ?h = "sm_get sm (b_arena b)"
  have sinv: "sm_inv (b_arena b)"
    by (rule order_arena.book_okD(1) [OF assms(1) ok])
  have slot: "slot_map sm sm_inv"
    using assms(1) by (rule order_arena.axioms)
  obtain ks where ks: "distinct ks" "set ks = dom ?h" "sm_values sm (b_arena b) = map (the \<circ> ?h) ks"
    using slot_map.sm_values [OF slot sinv] by blast
  have ids: "open_order_ids_for_account sm b acct = map (o_id \<circ> the \<circ> ?h) (filter (\<lambda>k. o_account (the (?h k)) = acct) ks)"
    by (simp add: open_order_ids_for_account_def ks(3) filter_map o_def)
  have idx: "\<And>oid k. b_id_to_key b oid = Some k \<longleftrightarrow> (\<exists>x. hview ?h k = Some x \<and> bo_id x = oid)"
    using order_arena.book_okD(4) [OF assms(1) ok] by (simp add: index_ok_def)
  have key: "b_id_to_key b (o_id (the (?h k))) = Some k" if "k \<in> dom ?h" for k
    using that idx by (auto simp: hview_def view_def)
  have "inj_on (o_id \<circ> the \<circ> ?h) (dom ?h)"
    by (rule inj_onI) (metis key comp_apply option.inject)
  then have "distinct (open_order_ids_for_account sm b acct)"
    unfolding ids using ks(1,2) by (auto simp: distinct_map intro: inj_on_subset)
  moreover have "set (open_order_ids_for_account sm b acct) = {bo_id m |m. m \<in> ab_orders (abs_of sm b) \<and> bo_account m = acct}"
    unfolding ids abs_of_def order_arena.in_abs_orders [OF assms(1) ok]
    using ks(2) by (force simp: ran_def hview_def view_def)
  moreover have "open_order_count sm b = ab_count (abs_of sm b)"
    using order_arena.abs_count [OF assms(1) ok] by (simp add: abs_of_def open_order_count_def)
  ultimately show ?thesis
    by blast
qed

text \<open>C11: The liquidation scan is complete and names each order once: \<open>open_order_ids_for_account\<close> lists exactly
  the ids of the account's resting orders, and \<open>open_order_count\<close> counts the resting orders.\<close>

theorem account_orders_complete:
  assumes "order_arena sm sm_inv" "book_ready sm sm_inv b seq"
  shows "set (open_order_ids_for_account sm b acct) = {bo_id m |m. m \<in> ab_orders (abs_of sm b) \<and> bo_account m = acct} \<and>
    distinct (open_order_ids_for_account sm b acct) \<and> open_order_count sm b = ab_count (abs_of sm b)"
  by (rule account_order_ids [OF assms])

theorem account_orders_complete_witness:
  "open_order_count vs_ops ex_book = 3 \<and> ab_count (abs_of vs_ops ex_book) = 3 \<and>
     set [1, 3] = {bo_id m |m. m \<in> ab_orders (abs_of vs_ops ex_book) \<and> bo_account m = 7}"
proof -
  have "open_order_count vs_ops ex_book = 3" "set (open_order_ids_for_account vs_ops ex_book 7) = set [1, 3]"
    by code_simp+
  then show ?thesis
    using account_orders_complete [OF vs_arena ex_book_ready [of 4], of 7] by simp
qed

text \<open>C12: An accepted order can be looked up: after an \<open>Accepted\<close> event, \<open>get_order\<close> on the id it carries finds
  an order with the account, side, price and remaining quantity of the event.\<close>

theorem accepted_is_found:
  assumes "order_arena sm sm_inv" "book_ready sm sm_inv b (sc_seq cmd)" "apply_cmd sm b cmd = Some (b', es)"
    "Accepted sq oid ts symb acct coid s p q \<in> set es"
  shows "oid = sc_seq cmd \<and> (\<exists>r. get_order sm b' oid = Some r \<and> o_account r = acct \<and> o_side r = s \<and> o_price r = p \<and> o_qty_remaining r = q)"
proof -
  have sp: "spec_apply (abs_of sm b) cmd = (abs_of sm b', es)" and inv: "book_inv sm sm_inv b'" and ok: "ab_ok (abs_of sm b')"
    using ready_apply [OF assms(1-3)] by blast+
  obtain coid' q0 t tif where c: "sc_cmd cmd = NewOrder acct coid' symb s p q0 t tif" "oid = sc_seq cmd"
    "fresh_order oid acct q s p \<in> ab_orders (abs_of sm b')"
  proof (cases "sc_cmd cmd")
    case (NewOrder account coid1 symb1 side1 price1 q1 t1 tif1)
    let ?ag = "aggressor_of cmd account symb1 side1 price1 t1"
    have na: "Accepted sq oid ts symb acct coid s p q \<notin> set es1" if "sweep ?ag q1 ms0 = (q', ms, es1)" for q' ms es1 ms0
      using sweep_events [OF that] by (auto simp: sweep_event_def trade_of_def split: if_splits)
    have "spec_new (abs_of sm b) ?ag coid1 q1 tif1 = (abs_of sm b', es)"
      using sp spec_apply_new [OF NewOrder] by simp
    then show ?thesis
    proof (cases rule: spec_new_cases)
      case door
      then show ?thesis using assms(4) by (auto simp: door_reject_def)
    next
      case (filled ms es1)
      then show ?thesis using assms(4) na [OF filled(1)] by (auto simp: top_event_def)
    next
      case (dropped q' ms es1)
      then show ?thesis using assms(4) na [OF dropped(1)] by (auto simp: top_event_def split: if_splits)
    next
      case (full q' ms es1)
      then show ?thesis using assms(4) na [OF full(1)] by auto
    next
      case (rested q' ms es1 ab1 x)
      then have "oid = sc_seq cmd" "acct = account" "s = side1" "p = price1" "q = q'" "symb = symb1"
        using assms(4) na [OF rested(1)] by (auto simp: top_event_def)
      then show ?thesis
        using rested(7,8) NewOrder by (intro that) (auto simp: enqueue_orders)
    qed
  next
    case (Cancel a i)
    then show ?thesis
      using sp assms(4) by (auto simp: spec_apply_def spec_cancel_def split: option.splits if_splits)
  qed (use sp assms(4) in \<open>auto simp: spec_apply_def\<close>)
  have "find_order (abs_of sm b') oid = Some (fresh_order oid acct q s p)"
    using find_by_id [OF assms(1) inv c(3)] by (simp add: fresh_order_def)
  then have "map_option view (get_order sm b' oid) = Some (fresh_order oid acct q s p)"
    using get_order_view [OF assms(1) inv, of oid] by simp
  then show ?thesis
    using c(2) by (auto simp: view_def fresh_order_def)
qed

theorem accepted_is_found_witness:
  "\<exists>b' es r. apply_cmd vs_ops ex_book (mk_cmd 4 (NewOrder 9 1 1 Buy 104 12 Limit Gtc)) = Some (b', es) \<and>
     get_order vs_ops b' 4 = Some r \<and> o_account r = 9 \<and> o_qty_remaining r = 7"
proof -
  let ?c = "mk_cmd 4 (NewOrder 9 1 1 Buy 104 12 Limit Gtc)"
  have "map_option (\<lambda>(_, es). Accepted 4 4 0 1 9 1 Buy 104 7 \<in> set es) (apply_cmd vs_ops ex_book ?c) = Some True"
    by code_simp
  then obtain b' es where r: "apply_cmd vs_ops ex_book ?c = Some (b', es)" "Accepted 4 4 0 1 9 1 Buy 104 7 \<in> set es"
    by auto
  then show ?thesis
    using accepted_is_found [OF vs_arena _ r] ex_book_ready [of 4] by (auto simp: mk_cmd_def)
qed

end
