(* ===== verification/Traces.thy ===== *)
theory Traces
  imports Main
begin

text \<open>
  Labelled transition systems: runs of a step relation with the list of their labels, and the rule
  that carries an invariant of the state and of what was observed so far along a run. The
  concurrent components (rings, the seqlock, the pending log) are step relations whose steps are
  the single accesses to shared memory that the code makes, in any interleaving.
\<close>

inductive trace :: "('s \<Rightarrow> 'l \<Rightarrow> 's \<Rightarrow> bool) \<Rightarrow> 's \<Rightarrow> 'l list \<Rightarrow> 's \<Rightarrow> bool" for step where
  trace_Nil [intro]: "trace step s [] s"
| trace_snoc [intro]: "trace step s ls s' \<Longrightarrow> step s' l s'' \<Longrightarrow> trace step s (ls @ [l]) s''"

lemma trace_invariant:
  assumes "trace step s ls s'" "I [] s"
    "\<And>ls s l s'. I ls s \<Longrightarrow> step s l s' \<Longrightarrow> I (ls @ [l]) s'"
  shows "I ls s'"
  using assms by (induction rule: trace.induct) auto

lemma trace_append:
  assumes "trace step s' ls' s''" "trace step s ls s'"
  shows "trace step s (ls @ ls') s''"
  using assms by (induction rule: trace.induct) (auto simp flip: append_assoc)

lemma trace_step: "step s l s' \<Longrightarrow> trace step s [l] s'"
  using trace_snoc [OF trace_Nil, of step s l s'] by simp

lemma trace_Cons: "step s l s' \<Longrightarrow> trace step s' ls s'' \<Longrightarrow> trace step s (l # ls) s''"
  using trace_append [OF _ trace_step, of step s' ls s'' s l] by simp

end
