(* ===== verification/Ring_Buffer.thy ===== *)
theory Ring_Buffer
  imports Prelude Traces
begin

unbundle bit_operations_syntax

text \<open>
  The crate \<open>ring-buffer\<close>: the single-producer single-consumer queue (\<open>spsc.rs\<close>) and the broadcast
  ring (\<open>spmc.rs\<close>). The cursors are 64-bit words that wrap; \<open>CAP\<close> is the argument \<open>cap\<close>. A slot is
  \<open>MaybeUninit\<close>: \<open>None\<close> is a slot nobody has written. Reading such a slot is undefined behaviour
  in the source and the value \<open>None\<close> of the operations here.

  Each operation is translated twice: as one function, for use by one thread at a time, and as the
  sequence of its accesses to the shared memory, for two threads that interleave. The accesses are
  taken to be sequentially consistent; the acquire/release pairs of the source give that view to
  the reader of a published slot.
\<close>

subsection \<open>Capacity and masking\<close>

definition is_power_of_two :: "u64 \<Rightarrow> bool" where
  "is_power_of_two c \<longleftrightarrow> list_ex (\<lambda>k. c = 2 ^ k) [0..<64]"

definition ring_mask :: "u64 \<Rightarrow> u64 \<Rightarrow> nat" where
  "ring_mask cap idx = unat (idx AND (cap - 1))"

lemma is_power_of_two_iff: "is_power_of_two c \<longleftrightarrow> (\<exists>k<64. c = 2 ^ k)"
  by (auto simp: is_power_of_two_def list_ex_iff)

lemma unat_two_power: "k < 64 \<Longrightarrow> unat (2 ^ k :: u64) = 2 ^ k"
  using word_nat_small [of "2 ^ k"] power_strict_increasing [of k 64 "2 :: nat"] by simp

lemma power_of_two_pos: "is_power_of_two cap \<Longrightarrow> 0 < unat cap"
  by (auto simp: is_power_of_two_iff unat_two_power)

text \<open>The masked cursor counts modulo the capacity, also after the 64-bit counter has wrapped: the
  capacity divides \<open>2 ^ 64\<close>.\<close>

lemma ring_mask_of_nat:
  assumes "is_power_of_two cap"
  shows "ring_mask cap (of_nat i) = i mod unat cap"
proof -
  obtain k where k: "k < 64" "cap = 2 ^ k"
    using assms by (auto simp: is_power_of_two_iff)
  have "(of_nat i :: u64) AND (cap - 1) = take_bit k (of_nat i)"
    using k(2) by (simp add: take_bit_eq_mask mask_eq_exp_minus_1)
  moreover have "unat (of_nat i :: u64) = i mod 2 ^ 64"
    by (simp add: unsigned_of_nat take_bit_eq_mod)
  ultimately have "ring_mask cap (of_nat i) = take_bit k (i mod 2 ^ 64)"
    by (simp only: ring_mask_def unsigned_take_bit_eq)
  also have "\<dots> = i mod 2 ^ k"
    using k(1) mod_mod_cancel [OF le_imp_power_dvd [of k 64 "2 :: nat"], of i] by (simp add: take_bit_eq_mod)
  finally show ?thesis
    using k unat_two_power by simp
qed

lemma mod_eq_window: "(i :: nat) mod c = j mod c \<Longrightarrow> i < j + c \<Longrightarrow> j < i + c \<Longrightarrow> i = j"
proof (induction i j rule: linorder_wlog)
  case (le a b)
  obtain q where q: "b - a = c * q"
    using le by (metis mod_eq_dvd_iff_nat dvdE)
  then have "c * q < c"
    using le by linarith
  then have "q = 0"
    by (cases q) auto
  then show ?case
    using q le by simp
next
  case (sym a b)
  then show ?case by metis
qed

text \<open>Writing the slot of item \<open>h\<close> leaves the slots of the items before it alone, up to a capacity back.\<close>

lemma window_slot:
  assumes "h < t + c" "t \<le> i" "i < h"
  shows "xs[h mod c := x] ! (i mod c) = xs ! (i mod c)"
proof -
  have "h mod c \<noteq> i mod c"
    using mod_eq_window [of i c h] assms by auto
  then show ?thesis
    by simp
qed

lemma cursor_diff:
  assumes "t \<le> h" "h \<le> t + unat (cap :: u64)"
  shows "(of_nat h - of_nat t :: u64) = cap \<longleftrightarrow> h = t + unat cap"
proof -
  have "(of_nat h - of_nat t :: u64) = of_nat (h - t)"
    using assms(1) by simp
  moreover have "h - t < 2 ^ 64"
    using assms(2) unat_lt64 [of cap] by simp
  ultimately show ?thesis
    using assms word_nat_small [of "h - t"] by auto
qed

lemma cursor_eq:
  assumes "t \<le> h" "h \<le> t + unat (cap :: u64)"
  shows "(of_nat h :: u64) = of_nat t \<longleftrightarrow> h = t"
proof -
  have "(of_nat h :: u64) = of_nat t \<longleftrightarrow> (of_nat (h - t) :: u64) = 0"
    using assms(1) by simp
  moreover have "h - t < 2 ^ 64"
    using assms(2) unat_lt64 [of cap] by simp
  ultimately show ?thesis
    using assms(1) word_nat_small [of "h - t"] by auto
qed

subsection \<open>The single-producer single-consumer queue\<close>

text \<open>\<open>Shared\<close> with the two handles: the shared cursors and slots, the producer's \<open>cached_head\<close> and the
  consumer's \<open>cached_tail\<close>.\<close>

record 'a spsc =
  q_head :: u64
  q_tail :: u64
  q_slots :: "'a option list"
  q_cached_head :: u64
  q_cached_tail :: u64

definition spsc_queue :: "u64 \<Rightarrow> 'a spsc option" where
  "spsc_queue cap =
     (if is_power_of_two cap then
        Some \<lparr>q_head = 0, q_tail = 0, q_slots = replicate (unat cap) None, q_cached_head = 0, q_cached_tail = 0\<rparr>
      else None)"

definition spsc_try_push :: "u64 \<Rightarrow> 'a spsc \<Rightarrow> 'a \<Rightarrow> (('a + unit) \<times> 'a spsc) option" where
  "spsc_try_push cap q item =
     (let head = q_cached_head q; tail = q_tail q in
      if head - tail = cap then Some (Inl item, q)
      else do {
        let slot = ring_mask cap head;
        _ \<leftarrow> list_get (q_slots q) slot;
        Some (Inr (), q\<lparr>q_slots := (q_slots q)[slot := Some item], q_head := head + 1, q_cached_head := head + 1\<rparr>)
      })"

definition spsc_try_pop :: "u64 \<Rightarrow> 'a spsc \<Rightarrow> ('a option \<times> 'a spsc) option" where
  "spsc_try_pop cap q =
     (let tail = q_cached_tail q; head = q_head q in
      if head = tail then Some (None, q)
      else do {
        cell \<leftarrow> list_get (q_slots q) (ring_mask cap tail);
        item \<leftarrow> cell;
        Some (Some item, q\<lparr>q_tail := tail + 1, q_cached_tail := tail + 1\<rparr>)
      })"

text \<open>The invariant, with the numbers \<open>t\<close> and \<open>h\<close> of items popped and pushed so far, and the items \<open>ps\<close>
  pushed in all: the cursors are these numbers modulo \<open>2 ^ 64\<close>, and the slots between them hold the
  items not yet popped.\<close>

definition spsc_inv :: "u64 \<Rightarrow> 'a spsc \<Rightarrow> 'a list \<Rightarrow> nat \<Rightarrow> bool" where
  "spsc_inv cap q ps t \<longleftrightarrow> is_power_of_two cap \<and> length (q_slots q) = unat cap \<and>
     q_head q = of_nat (length ps) \<and> q_cached_head q = q_head q \<and> q_tail q = of_nat t \<and> q_cached_tail q = q_tail q \<and>
     t \<le> length ps \<and> length ps \<le> t + unat cap \<and>
     (\<forall>i. t \<le> i \<and> i < length ps \<longrightarrow> q_slots q ! (i mod unat cap) = Some (ps ! i))"

lemma spsc_inv_full:
  assumes "spsc_inv cap q ps t"
  shows "q_cached_head q - q_tail q = cap \<longleftrightarrow> length ps = t + unat cap"
    "q_head q = q_cached_tail q \<longleftrightarrow> length ps = t"
  using assms cursor_diff [of t "length ps" cap] cursor_eq [of t "length ps" cap] by (auto simp: spsc_inv_def)

lemma spsc_inv_mask:
  assumes "spsc_inv cap q ps t"
  shows "ring_mask cap (q_cached_head q) = length ps mod unat cap" "ring_mask cap (q_cached_tail q) = t mod unat cap"
    "length ps mod unat cap < length (q_slots q)" "t mod unat cap < length (q_slots q)"
  using assms ring_mask_of_nat power_of_two_pos by (auto simp: spsc_inv_def)

lemma spsc_inv_write:
  assumes inv: "spsc_inv cap q ps t" and room: "length ps < t + unat cap"
  shows "spsc_inv cap (q\<lparr>q_slots := (q_slots q)[length ps mod unat cap := x]\<rparr>) ps t"
proof -
  have "(q_slots q)[length ps mod unat cap := x] ! (i mod unat cap) = q_slots q ! (i mod unat cap)"
    if "t \<le> i" "i < length ps" for i
    by (rule window_slot [OF room that])
  then show ?thesis
    using inv by (simp add: spsc_inv_def)
qed

lemma spsc_inv_publish:
  assumes inv: "spsc_inv cap q ps t" and room: "length ps < t + unat cap"
    and x: "q_slots q ! (length ps mod unat cap) = Some x"
  shows "spsc_inv cap (q\<lparr>q_head := q_cached_head q + 1, q_cached_head := q_cached_head q + 1\<rparr>) (ps @ [x]) t"
  using assms by (auto simp: spsc_inv_def nth_append less_Suc_eq)

lemma spsc_inv_release:
  assumes inv: "spsc_inv cap q ps t" and ne: "t < length ps"
  shows "spsc_inv cap (q\<lparr>q_tail := q_cached_tail q + 1, q_cached_tail := q_cached_tail q + 1\<rparr>) ps (Suc t)"
  using assms by (auto simp: spsc_inv_def)

lemma spsc_inv_front: "spsc_inv cap q ps t \<Longrightarrow> t < length ps \<Longrightarrow> q_slots q ! (t mod unat cap) = Some (ps ! t)"
  by (simp add: spsc_inv_def)

subsection \<open>The contract of a bounded queue\<close>

text \<open>What the users of a ring rely on: \<open>push\<close> hands the item back when the queue holds \<open>bound\<close> items and
  appends it otherwise, \<open>pop\<close> takes the oldest item. \<open>repr q xs\<close> says that \<open>q\<close> holds the items \<open>xs\<close>.\<close>

datatype 'a ring_op = OpPush 'a | OpPop
datatype 'a ring_result = RPush "'a + unit" | RPop "'a option"

fun run_ops ::
  "('q \<Rightarrow> 'a \<Rightarrow> (('a + unit) \<times> 'q) option) \<Rightarrow> ('q \<Rightarrow> ('a option \<times> 'q) option) \<Rightarrow> 'q \<Rightarrow> 'a ring_op list \<Rightarrow>
   ('a ring_result list \<times> 'q) option" where
  "run_ops push pop q [] = Some ([], q)"
| "run_ops push pop q (OpPush x # ops) = do {
     (r, q) \<leftarrow> push q x;
     (rs, q) \<leftarrow> run_ops push pop q ops;
     Some (RPush r # rs, q)
   }"
| "run_ops push pop q (OpPop # ops) = do {
     (r, q) \<leftarrow> pop q;
     (rs, q) \<leftarrow> run_ops push pop q ops;
     Some (RPop r # rs, q)
   }"

fun list_ops :: "nat \<Rightarrow> 'a list \<Rightarrow> 'a ring_op list \<Rightarrow> 'a ring_result list \<times> 'a list" where
  "list_ops n xs [] = ([], xs)"
| "list_ops n xs (OpPush x # ops) =
     (if length xs = n then (case list_ops n xs ops of (rs, xs') \<Rightarrow> (RPush (Inl x) # rs, xs'))
      else (case list_ops n (xs @ [x]) ops of (rs, xs') \<Rightarrow> (RPush (Inr ()) # rs, xs')))"
| "list_ops n [] (OpPop # ops) = (case list_ops n [] ops of (rs, xs') \<Rightarrow> (RPop None # rs, xs'))"
| "list_ops n (x # xs) (OpPop # ops) = (case list_ops n xs ops of (rs, xs') \<Rightarrow> (RPop (Some x) # rs, xs'))"

locale bounded_fifo =
  fixes push :: "'q \<Rightarrow> 'a \<Rightarrow> (('a + unit) \<times> 'q) option"
    and pop :: "'q \<Rightarrow> ('a option \<times> 'q) option"
    and repr :: "'q \<Rightarrow> 'a list \<Rightarrow> bool"
    and bound :: nat
  assumes bounded: "repr q xs \<Longrightarrow> length xs \<le> bound"
    and push_full: "repr q xs \<Longrightarrow> length xs = bound \<Longrightarrow> push q x = Some (Inl x, q)"
    and push_room: "repr q xs \<Longrightarrow> length xs < bound \<Longrightarrow> \<exists>q'. push q x = Some (Inr (), q') \<and> repr q' (xs @ [x])"
    and pop_empty: "repr q [] \<Longrightarrow> pop q = Some (None, q)"
    and pop_front: "repr q (x # xs) \<Longrightarrow> \<exists>q'. pop q = Some (Some x, q') \<and> repr q' xs"
begin

lemma run_ops_list:
  "repr q xs \<Longrightarrow> \<exists>q'. run_ops push pop q ops = Some (fst (list_ops bound xs ops), q') \<and> repr q' (snd (list_ops bound xs ops))"
proof (induction ops arbitrary: q xs)
  case (Cons oper ops)
  show ?case
  proof (cases oper)
    case (OpPush x)
    show ?thesis
    proof (cases "length xs = bound")
      case True
      then show ?thesis
        using push_full [OF Cons.prems True] Cons.IH [OF Cons.prems] OpPush by (auto split: prod.splits)
    next
      case False
      then obtain q' where "push q x = Some (Inr (), q')" "repr q' (xs @ [x])"
        using push_room [OF Cons.prems] bounded [OF Cons.prems] by fastforce
      then show ?thesis
        using Cons.IH [of q' "xs @ [x]"] False OpPush by (auto split: prod.splits)
    qed
  next
    case OpPop
    note pre = Cons.prems and IH = Cons.IH
    show ?thesis
    proof (cases xs)
      case Nil
      then have "pop q = Some (None, q)"
        using pop_empty pre by blast
      then show ?thesis
        using IH [OF pre] OpPop Nil by (auto split: prod.splits)
    next
      case (Cons x ys)
      then obtain q' where "pop q = Some (Some x, q')" "repr q' ys"
        using pop_front pre by blast
      then show ?thesis
        using IH [of q' ys] OpPop Cons by (auto split: prod.splits)
    qed
  qed
qed auto

end

definition spsc_repr :: "u64 \<Rightarrow> 'a spsc \<Rightarrow> 'a list \<Rightarrow> bool" where
  "spsc_repr cap q xs \<longleftrightarrow> (\<exists>ps t. spsc_inv cap q ps t \<and> xs = drop t ps)"

lemma spsc_new_inv: "spsc_queue cap = Some q \<Longrightarrow> spsc_inv cap q [] 0"
  by (auto simp: spsc_queue_def spsc_inv_def split: if_splits)

lemma spsc_push_inv:
  assumes inv: "spsc_inv cap q ps t" and room: "length ps < t + unat cap"
  shows "\<exists>q'. spsc_try_push cap q x = Some (Inr (), q') \<and> spsc_inv cap q' (ps @ [x]) t"
proof -
  let ?q = "q\<lparr>q_slots := (q_slots q)[length ps mod unat cap := Some x]\<rparr>"
  have "spsc_inv cap (?q\<lparr>q_head := q_cached_head ?q + 1, q_cached_head := q_cached_head ?q + 1\<rparr>) (ps @ [x]) t"
    using spsc_inv_mask(3) [OF inv] by (intro spsc_inv_publish [OF spsc_inv_write [OF inv room] room]) simp
  moreover have "spsc_try_push cap q x =
      Some (Inr (), ?q\<lparr>q_head := q_cached_head ?q + 1, q_cached_head := q_cached_head ?q + 1\<rparr>)"
    using spsc_inv_full(1) [OF inv] spsc_inv_mask(1,3) [OF inv] room by (simp add: spsc_try_push_def Let_def)
  ultimately show ?thesis
    by blast
qed

lemma spsc_pop_inv:
  assumes inv: "spsc_inv cap q ps t" and ne: "t < length ps"
  shows "\<exists>q'. spsc_try_pop cap q = Some (Some (ps ! t), q') \<and> spsc_inv cap q' ps (Suc t)"
  using spsc_inv_release [OF inv ne] spsc_inv_full(2) [OF inv] spsc_inv_mask(2,4) [OF inv] spsc_inv_front [OF inv ne] ne
  by (simp add: spsc_try_pop_def Let_def)

interpretation spsc: bounded_fifo "spsc_try_push cap" "spsc_try_pop cap" "spsc_repr cap" "unat cap" for cap :: u64
proof
  fix q :: "'a spsc" and xs :: "'a list" and x
  assume "spsc_repr cap q xs"
  then obtain ps t where r: "spsc_inv cap q ps t" "xs = drop t ps"
    by (auto simp: spsc_repr_def)
  then have t: "t \<le> length ps" "length ps \<le> t + unat cap"
    by (auto simp: spsc_inv_def)
  then show "length xs \<le> unat cap"
    using r(2) by simp
  show "spsc_try_push cap q x = Some (Inl x, q)" if "length xs = unat cap"
    using spsc_inv_full(1) [OF r(1)] that r(2) t by (simp add: spsc_try_push_def Let_def)
  show "\<exists>q'. spsc_try_push cap q x = Some (Inr (), q') \<and> spsc_repr cap q' (xs @ [x])" if "length xs < unat cap"
  proof -
    have "length ps < t + unat cap"
      using that r(2) t by simp
    then show ?thesis
      using spsc_push_inv [OF r(1), of x] r(2) t unfolding spsc_repr_def by (metis append.simps(1) diff_is_0_eq drop0 drop_append)
  qed
next
  fix q :: "'a spsc"
  assume "spsc_repr cap q []"
  then show "spsc_try_pop cap q = Some (None, q)"
    using spsc_inv_full(2) by (fastforce simp: spsc_repr_def spsc_try_pop_def Let_def spsc_inv_def)
next
  fix q :: "'a spsc" and x xs
  assume "spsc_repr cap q (x # xs)"
  then obtain ps t where r: "spsc_inv cap q ps t" "x # xs = drop t ps"
    by (auto simp: spsc_repr_def)
  then have "t < length ps" "ps ! t = x" "drop (Suc t) ps = xs"
    by (metis drop_all list.distinct(1) not_le) (metis r(2) nth_via_drop, metis r(2) drop_Suc drop_tl list.sel(3))
  then show "\<exists>q'. spsc_try_pop cap q = Some (Some x, q') \<and> spsc_repr cap q' xs"
    using spsc_pop_inv [OF r(1)] by (auto simp: spsc_repr_def)
qed

subsection \<open>Producer and consumer interleaved\<close>

text \<open>Where the producer is in \<open>try_push\<close> and the consumer in \<open>try_pop\<close>: before the load of the other side's
  cursor, before the access to the slot, before the store of the own cursor.\<close>

datatype 'a producer_pc = PIdle | PWrite 'a | PPublish 'a
datatype 'a consumer_pc = CIdle | CRead | CRelease 'a

record 'a spsc_sys =
  sys_q :: "'a spsc"
  sys_p :: "'a producer_pc"
  sys_c :: "'a consumer_pc"

text \<open>What a step shows outside: an attempt that found the queue full or empty, a push or a pop that took
  effect, a read of a slot that was never written (\<open>Undefined\<close>), or nothing.\<close>

datatype 'a ring_label = Full 'a | Pushed 'a | Empty | Popped 'a | Undefined | Internal

inductive spsc_step :: "u64 \<Rightarrow> 'a spsc_sys \<Rightarrow> 'a ring_label \<Rightarrow> 'a spsc_sys \<Rightarrow> bool" for cap where
  push_full: "sys_p s = PIdle \<Longrightarrow> q_cached_head (sys_q s) - q_tail (sys_q s) = cap \<Longrightarrow> spsc_step cap s (Full x) s"
| push_load: "sys_p s = PIdle \<Longrightarrow> q_cached_head (sys_q s) - q_tail (sys_q s) \<noteq> cap \<Longrightarrow>
    spsc_step cap s Internal (s\<lparr>sys_p := PWrite x\<rparr>)"
| push_write: "sys_p s = PWrite x \<Longrightarrow> slot = ring_mask cap (q_cached_head (sys_q s)) \<Longrightarrow>
    spsc_step cap s Internal (s\<lparr>sys_q := (sys_q s)\<lparr>q_slots := (q_slots (sys_q s))[slot := Some x]\<rparr>, sys_p := PPublish x\<rparr>)"
| push_publish: "sys_p s = PPublish x \<Longrightarrow> h = q_cached_head (sys_q s) + 1 \<Longrightarrow>
    spsc_step cap s (Pushed x) (s\<lparr>sys_q := (sys_q s)\<lparr>q_head := h, q_cached_head := h\<rparr>, sys_p := PIdle\<rparr>)"
| pop_empty: "sys_c s = CIdle \<Longrightarrow> q_head (sys_q s) = q_cached_tail (sys_q s) \<Longrightarrow> spsc_step cap s Empty s"
| pop_load: "sys_c s = CIdle \<Longrightarrow> q_head (sys_q s) \<noteq> q_cached_tail (sys_q s) \<Longrightarrow>
    spsc_step cap s Internal (s\<lparr>sys_c := CRead\<rparr>)"
| pop_read: "sys_c s = CRead \<Longrightarrow> q_slots (sys_q s) ! ring_mask cap (q_cached_tail (sys_q s)) = Some x \<Longrightarrow>
    spsc_step cap s Internal (s\<lparr>sys_c := CRelease x\<rparr>)"
| pop_undefined: "sys_c s = CRead \<Longrightarrow> q_slots (sys_q s) ! ring_mask cap (q_cached_tail (sys_q s)) = None \<Longrightarrow>
    spsc_step cap s Undefined s"
| pop_release: "sys_c s = CRelease x \<Longrightarrow> t = q_cached_tail (sys_q s) + 1 \<Longrightarrow>
    spsc_step cap s (Popped x) (s\<lparr>sys_q := (sys_q s)\<lparr>q_tail := t, q_cached_tail := t\<rparr>, sys_c := CIdle\<rparr>)"

inductive_cases spsc_stepE: "spsc_step cap s l s'"

definition pushes :: "'a ring_label list \<Rightarrow> 'a list" where
  "pushes ls = List.map_filter (\<lambda>l. case l of Pushed x \<Rightarrow> Some x | _ \<Rightarrow> None) ls"

definition pops :: "'a ring_label list \<Rightarrow> 'a list" where
  "pops ls = List.map_filter (\<lambda>l. case l of Popped x \<Rightarrow> Some x | _ \<Rightarrow> None) ls"

lemma pushes_simps [simp]: "pushes [] = []"
  "pushes (ls @ [l]) = pushes ls @ (case l of Pushed x \<Rightarrow> [x] | _ \<Rightarrow> [])"
  by (auto simp: pushes_def List.map_filter_def split: ring_label.splits)

lemma pops_simps [simp]: "pops [] = []"
  "pops (ls @ [l]) = pops ls @ (case l of Popped x \<Rightarrow> [x] | _ \<Rightarrow> [])"
  by (auto simp: pops_def List.map_filter_def split: ring_label.splits)

definition spsc_start :: "'a spsc \<Rightarrow> 'a spsc_sys" where
  "spsc_start q = \<lparr>sys_q = q, sys_p = PIdle, sys_c = CIdle\<rparr>"

text \<open>Two accesses race when the producer is about to write the slot the consumer is about to read.\<close>

definition spsc_race :: "u64 \<Rightarrow> 'a spsc_sys \<Rightarrow> bool" where
  "spsc_race cap s \<longleftrightarrow> (\<exists>x. sys_p s = PWrite x) \<and> sys_c s = CRead \<and>
     ring_mask cap (q_cached_head (sys_q s)) = ring_mask cap (q_cached_tail (sys_q s))"

definition spsc_sys_inv :: "u64 \<Rightarrow> 'a ring_label list \<Rightarrow> 'a spsc_sys \<Rightarrow> bool" where
  "spsc_sys_inv cap ls s \<longleftrightarrow>
     (let ps = pushes ls; t = length (pops ls) in
      spsc_inv cap (sys_q s) ps t \<and> pops ls = take t ps \<and> Undefined \<notin> set ls \<and>
      (sys_p s \<noteq> PIdle \<longrightarrow> length ps < t + unat cap) \<and>
      (\<forall>x. sys_p s = PPublish x \<longrightarrow> q_slots (sys_q s) ! (length ps mod unat cap) = Some x) \<and>
      (sys_c s \<noteq> CIdle \<longrightarrow> t < length ps) \<and> (\<forall>x. sys_c s = CRelease x \<longrightarrow> x = ps ! t))"

lemma spsc_sys_invD:
  assumes "spsc_sys_inv cap ls s"
  shows "spsc_inv cap (sys_q s) (pushes ls) (length (pops ls))" "pops ls = take (length (pops ls)) (pushes ls)"
    "Undefined \<notin> set ls" "sys_p s \<noteq> PIdle \<Longrightarrow> length (pushes ls) < length (pops ls) + unat cap"
    "sys_p s = PPublish x \<Longrightarrow> q_slots (sys_q s) ! (length (pushes ls) mod unat cap) = Some x"
    "sys_c s \<noteq> CIdle \<Longrightarrow> length (pops ls) < length (pushes ls)" "sys_c s = CRelease x \<Longrightarrow> x = pushes ls ! length (pops ls)"
  using assms by (auto simp: spsc_sys_inv_def Let_def)

lemma spsc_step_inv:
  assumes inv: "spsc_sys_inv cap ls s" and st: "spsc_step cap s l s'"
  shows "spsc_sys_inv cap (ls @ [l]) s'"
proof -
  let ?ps = "pushes ls" and ?t = "length (pops ls)"
  note D = spsc_sys_invD [OF inv]
  note M = spsc_inv_mask [OF D(1)] and F = spsc_inv_full [OF D(1)]
  have win: "?t \<le> length ?ps" "length ?ps \<le> ?t + unat cap"
    using D(1) by (auto simp: spsc_inv_def)
  from st show ?thesis
  proof cases
    case (push_load x)
    then show ?thesis
      using inv F(1) win by (auto simp: spsc_sys_inv_def Let_def)
  next
    case (push_write x slot)
    then have room: "length ?ps < ?t + unat cap"
      using D(4) by simp
    then show ?thesis
      using push_write spsc_inv_write [OF D(1) room, of "Some x"] M(1,3) D(2,3,6,7)
      by (auto simp: spsc_sys_inv_def Let_def)
  next
    case (push_publish x h)
    then have room: "length ?ps < ?t + unat cap"
      using D(4) by simp
    have "spsc_inv cap ((sys_q s)\<lparr>q_head := h, q_cached_head := h\<rparr>) (?ps @ [x]) ?t"
      using spsc_inv_publish [OF D(1) room D(5) [OF push_publish(3)]] push_publish(4) by simp
    then show ?thesis
      using push_publish D(2,3,6,7) win by (auto simp: spsc_sys_inv_def Let_def nth_append)
  next
    case pop_load
    then show ?thesis
      using inv F(2) win by (auto simp: spsc_sys_inv_def Let_def)
  next
    case (pop_read x)
    then have ne: "?t < length ?ps"
      using D(6) by simp
    then have "x = ?ps ! ?t"
      using spsc_inv_front [OF D(1) ne] pop_read M(2) by simp
    then show ?thesis
      using inv pop_read ne by (auto simp: spsc_sys_inv_def Let_def)
  next
    case pop_undefined
    then have ne: "?t < length ?ps"
      using D(6) by simp
    then show ?thesis
      using spsc_inv_front [OF D(1) ne] pop_undefined M(2) by simp
  next
    case (pop_release x t)
    then have ne: "?t < length ?ps" and x: "x = ?ps ! ?t"
      using D(6,7) by auto
    have "spsc_inv cap ((sys_q s)\<lparr>q_tail := t, q_cached_tail := t\<rparr>) ?ps (Suc ?t)"
      using spsc_inv_release [OF D(1) ne] pop_release(4) by simp
    moreover have "pops ls @ [x] = take (Suc ?t) ?ps"
      using D(2) x ne by (metis take_Suc_conv_app_nth)
    moreover have "min (length ?ps) (Suc ?t) = Suc ?t"
      using ne by simp
    ultimately show ?thesis
      using pop_release D(3,4,5) by (auto simp: spsc_sys_inv_def Let_def)
  qed (use inv in \<open>auto simp: spsc_sys_inv_def Let_def\<close>)
qed

lemma spsc_trace_inv:
  assumes "spsc_queue cap = Some q" "trace (spsc_step cap) (spsc_start q) ls s"
  shows "spsc_sys_inv cap ls s"
proof (rule trace_invariant [OF assms(2)])
  show "spsc_sys_inv cap [] (spsc_start q)"
    using spsc_new_inv [OF assms(1)] by (simp add: spsc_sys_inv_def spsc_start_def)
qed (rule spsc_step_inv)

text \<open>C13: Under every interleaving of one producer and one consumer the queue is a bounded first-in first-out
  channel: the items popped so far are the first of the items pushed so far, in order, at most \<open>CAP\<close> items are
  in between, no unwritten slot is ever read, and the two threads never access one slot at the same
  time. The number of operations is not bounded: the cursors may wrap any number of times.\<close>

theorem spsc_concurrent_fifo:
  assumes "spsc_queue cap = Some q" "trace (spsc_step cap) (spsc_start q) ls s"
  shows "pops ls = take (length (pops ls)) (pushes ls) \<and> length (pops ls) \<le> length (pushes ls) \<and>
    length (pushes ls) \<le> length (pops ls) + unat cap \<and> Undefined \<notin> set ls \<and> \<not> spsc_race cap s"
proof -
  note inv = spsc_trace_inv [OF assms]
  note D = spsc_sys_invD [OF inv] and M = spsc_inv_mask [OF spsc_sys_invD(1) [OF inv]]
  have win: "length (pops ls) \<le> length (pushes ls)" "length (pushes ls) \<le> length (pops ls) + unat cap"
    using D(1) by (auto simp: spsc_inv_def)
  have "\<not> spsc_race cap s"
  proof
    assume "spsc_race cap s"
    then have "length (pushes ls) mod unat cap = length (pops ls) mod unat cap"
      "sys_p s \<noteq> PIdle" "sys_c s \<noteq> CIdle"
      using M by (auto simp: spsc_race_def)
    then show False
      using mod_eq_window [of "length (pushes ls)" "unat cap" "length (pops ls)"] D(4,6) by simp
  qed
  then show ?thesis
    using D(2,3) win by simp
qed

theorem spsc_concurrent_fifo_witness:
  "\<exists>q s ls. spsc_queue 2 = Some q \<and> trace (spsc_step 2) (spsc_start q) ls (s :: nat spsc_sys) \<and>
     pushes ls = [5] \<and> pops ls = take (length (pops ls)) [5] \<and> \<not> spsc_race 2 s"
proof -
  obtain q :: "nat spsc" where q: "spsc_queue 2 = Some q" "q_tail q = 0" "q_cached_head q = 0"
    by (simp add: spsc_queue_def is_power_of_two_def upt_rec numeral_eq_Suc)
  let ?s1 = "(spsc_start q)\<lparr>sys_p := PWrite (5 :: nat)\<rparr>"
  let ?s2 = "?s1\<lparr>sys_q := (sys_q ?s1)\<lparr>q_slots := (q_slots (sys_q ?s1))[ring_mask 2 0 := Some 5]\<rparr>, sys_p := PPublish 5\<rparr>"
  let ?s3 = "?s2\<lparr>sys_q := (sys_q ?s2)\<lparr>q_head := 1, q_cached_head := 1\<rparr>, sys_p := PIdle\<rparr>"
  have a: "spsc_step 2 (spsc_start q) Internal ?s1"
    using q by (intro push_load) (simp_all add: spsc_start_def)
  have b: "spsc_step 2 ?s1 Internal ?s2"
    using q by (intro push_write) (simp_all add: spsc_start_def)
  have c: "spsc_step 2 ?s2 (Pushed 5) ?s3"
    using q by (intro push_publish) (simp_all add: spsc_start_def)
  have "trace (spsc_step 2) (spsc_start q) [Internal, Internal, Pushed 5] ?s3"
    using trace_Cons [where step = "spsc_step 2", OF a] trace_Cons [where step = "spsc_step 2", OF b]
      trace_step [where step = "spsc_step 2", OF c] by blast
  moreover have "pushes [Internal, Internal, Pushed (5 :: nat)] = [5]"
    by (simp add: pushes_def List.map_filter_def)
  ultimately show ?thesis
    using spsc_concurrent_fifo [OF q(1), of "[Internal, Internal, Pushed 5]" ?s3] q(1) by metis
qed

text \<open>C14: Used by one thread at a time, the ring is a bounded list queue: any script of \<open>try_push\<close> and \<open>try_pop\<close>
  runs without a panic and without reading an unwritten slot, and answers as the list queue does.\<close>

theorem spsc_refines_list:
  assumes "spsc_queue cap = Some q"
  shows "\<exists>q'. run_ops (spsc_try_push cap) (spsc_try_pop cap) q ops = Some (fst (list_ops (unat cap) [] ops), q')"
proof -
  have "spsc_repr cap q []"
    using spsc_new_inv [OF assms] by (auto simp: spsc_repr_def)
  then show ?thesis
    using spsc.run_ops_list by blast
qed

theorem spsc_refines_list_witness:
  "\<exists>q q'. spsc_queue 2 = Some q \<and>
     run_ops (spsc_try_push 2) (spsc_try_pop 2) q [OpPush 1, OpPush 2, OpPush (3 :: nat), OpPop, OpPop, OpPop] =
       Some ([RPush (Inr ()), RPush (Inr ()), RPush (Inl 3), RPop (Some 1), RPop (Some 2), RPop None], q')"
proof -
  obtain q :: "nat spsc" where q: "spsc_queue 2 = Some q"
    by (simp add: spsc_queue_def is_power_of_two_def upt_rec numeral_eq_Suc)
  then show ?thesis
    using spsc_refines_list [OF q, of "[OpPush 1, OpPush 2, OpPush 3, OpPop, OpPop, OpPop]"] by simp
qed

end
