(* ===== verification/Broadcast_Ring.thy ===== *)
theory Broadcast_Ring
  imports Ring_Buffer
begin

text \<open>
  The single-producer multi-consumer broadcast ring (\<open>spmc.rs\<close>): every consumer reads every item, at its
  own pace, and the producer waits for the slowest one. The producer learns the slowest cursor by
  loading the consumers' cursors one after the other while they move; the step relation keeps
  these loads apart. The full check compares plain minima of the 64-bit cursors, so the results
  are stated for fewer than \<open>2 ^ 64\<close> publications.
\<close>

subsection \<open>The operations\<close>

record 'a spmc =
  m_head :: u64
  m_tails :: "u64 list"
  m_slots :: "'a option list"
  m_cached_head :: u64
  m_cached_tails :: "u64 list"

definition spmc_queue :: "u64 \<Rightarrow> nat \<Rightarrow> 'a spmc option" where
  "spmc_queue cap n =
     (if is_power_of_two cap then
        Some \<lparr>m_head = 0, m_tails = replicate n 0, m_slots = replicate (unat cap) None,
              m_cached_head = 0, m_cached_tails = replicate n 0\<rparr>
      else None)"

text \<open>One turn of the iterator under \<open>min_tail\<close>, and the whole of it.\<close>

fun min_with :: "u64 option \<Rightarrow> u64 \<Rightarrow> u64" where
  "min_with None t = t"
| "min_with (Some m) t = min m t"

definition unwrap_or_zero :: "u64 option \<Rightarrow> u64" where
  "unwrap_or_zero acc = (case acc of None \<Rightarrow> 0 | Some m \<Rightarrow> m)"

definition min_tail :: "u64 list \<Rightarrow> u64" where
  "min_tail ts = unwrap_or_zero (fold (\<lambda>t acc. Some (min_with acc t)) ts None)"

definition spmc_try_push :: "u64 \<Rightarrow> 'a spmc \<Rightarrow> 'a \<Rightarrow> (('a + unit) \<times> 'a spmc) option" where
  "spmc_try_push cap q item =
     (let head = m_cached_head q in
      if head - min_tail (m_tails q) = cap then Some (Inl item, q)
      else do {
        let slot = ring_mask cap head;
        _ \<leftarrow> list_get (m_slots q) slot;
        Some (Inr (), q\<lparr>m_slots := (m_slots q)[slot := Some item], m_head := head + 1, m_cached_head := head + 1\<rparr>)
      })"

definition spmc_try_pop :: "u64 \<Rightarrow> 'a spmc \<Rightarrow> nat \<Rightarrow> ('a option \<times> 'a spmc) option" where
  "spmc_try_pop cap q c = do {
     tail \<leftarrow> list_get (m_cached_tails q) c;
     if m_head q = tail then Some (None, q)
     else do {
       cell \<leftarrow> list_get (m_slots q) (ring_mask cap tail);
       item \<leftarrow> cell;
       Some (Some item, q\<lparr>m_tails := (m_tails q)[c := tail + 1], m_cached_tails := (m_cached_tails q)[c := tail + 1]\<rparr>)
     }
   }"

subsection \<open>Producer and consumers interleaved\<close>

datatype 'a caster_pc = MIdle | MScan 'a nat "u64 option" | MWrite 'a | MPublish 'a

record 'a spmc_sys =
  ms_q :: "'a spmc"
  ms_p :: "'a caster_pc"
  ms_c :: "'a consumer_pc list"

datatype 'a cast_label = MFull 'a | MPushed 'a | MEmpty nat | MPopped nat 'a | MUndefined nat | MInternal

inductive spmc_step :: "u64 \<Rightarrow> 'a spmc_sys \<Rightarrow> 'a cast_label \<Rightarrow> 'a spmc_sys \<Rightarrow> bool" for cap where
  cast_start: "ms_p s = MIdle \<Longrightarrow> spmc_step cap s MInternal (s\<lparr>ms_p := MScan x 0 None\<rparr>)"
| cast_scan: "ms_p s = MScan x i acc \<Longrightarrow> i < length (m_tails (ms_q s)) \<Longrightarrow>
    spmc_step cap s MInternal (s\<lparr>ms_p := MScan x (Suc i) (Some (min_with acc (m_tails (ms_q s) ! i)))\<rparr>)"
| cast_full: "ms_p s = MScan x i acc \<Longrightarrow> i = length (m_tails (ms_q s)) \<Longrightarrow>
    m_cached_head (ms_q s) - unwrap_or_zero acc = cap \<Longrightarrow> spmc_step cap s (MFull x) (s\<lparr>ms_p := MIdle\<rparr>)"
| cast_room: "ms_p s = MScan x i acc \<Longrightarrow> i = length (m_tails (ms_q s)) \<Longrightarrow>
    m_cached_head (ms_q s) - unwrap_or_zero acc \<noteq> cap \<Longrightarrow> spmc_step cap s MInternal (s\<lparr>ms_p := MWrite x\<rparr>)"
| cast_write: "ms_p s = MWrite x \<Longrightarrow> slot = ring_mask cap (m_cached_head (ms_q s)) \<Longrightarrow>
    spmc_step cap s MInternal (s\<lparr>ms_q := (ms_q s)\<lparr>m_slots := (m_slots (ms_q s))[slot := Some x]\<rparr>, ms_p := MPublish x\<rparr>)"
| cast_publish: "ms_p s = MPublish x \<Longrightarrow> h = m_cached_head (ms_q s) + 1 \<Longrightarrow>
    spmc_step cap s (MPushed x) (s\<lparr>ms_q := (ms_q s)\<lparr>m_head := h, m_cached_head := h\<rparr>, ms_p := MIdle\<rparr>)"
| take_empty: "c < length (ms_c s) \<Longrightarrow> ms_c s ! c = CIdle \<Longrightarrow> m_head (ms_q s) = m_cached_tails (ms_q s) ! c \<Longrightarrow>
    spmc_step cap s (MEmpty c) s"
| take_load: "c < length (ms_c s) \<Longrightarrow> ms_c s ! c = CIdle \<Longrightarrow> m_head (ms_q s) \<noteq> m_cached_tails (ms_q s) ! c \<Longrightarrow>
    spmc_step cap s MInternal (s\<lparr>ms_c := (ms_c s)[c := CRead]\<rparr>)"
| take_read: "c < length (ms_c s) \<Longrightarrow> ms_c s ! c = CRead \<Longrightarrow>
    m_slots (ms_q s) ! ring_mask cap (m_cached_tails (ms_q s) ! c) = Some x \<Longrightarrow>
    spmc_step cap s MInternal (s\<lparr>ms_c := (ms_c s)[c := CRelease x]\<rparr>)"
| take_undefined: "c < length (ms_c s) \<Longrightarrow> ms_c s ! c = CRead \<Longrightarrow>
    m_slots (ms_q s) ! ring_mask cap (m_cached_tails (ms_q s) ! c) = None \<Longrightarrow> spmc_step cap s (MUndefined c) s"
| take_release: "c < length (ms_c s) \<Longrightarrow> ms_c s ! c = CRelease x \<Longrightarrow> t = m_cached_tails (ms_q s) ! c + 1 \<Longrightarrow>
    spmc_step cap s (MPopped c x)
      (s\<lparr>ms_q := (ms_q s)\<lparr>m_tails := (m_tails (ms_q s))[c := t], m_cached_tails := (m_cached_tails (ms_q s))[c := t]\<rparr>,
         ms_c := (ms_c s)[c := CIdle]\<rparr>)"

definition casts :: "'a cast_label list \<Rightarrow> 'a list" where
  "casts ls = List.map_filter (\<lambda>l. case l of MPushed x \<Rightarrow> Some x | _ \<Rightarrow> None) ls"

definition takes :: "nat \<Rightarrow> 'a cast_label list \<Rightarrow> 'a list" where
  "takes c ls = List.map_filter (\<lambda>l. case l of MPopped d x \<Rightarrow> if d = c then Some x else None | _ \<Rightarrow> None) ls"

lemma casts_simps [simp]: "casts [] = []" "casts (ls @ [l]) = casts ls @ (case l of MPushed x \<Rightarrow> [x] | _ \<Rightarrow> [])"
  by (auto simp: casts_def List.map_filter_def split: cast_label.splits)

lemma takes_simps [simp]: "takes c [] = []"
  "takes c (ls @ [l]) = takes c ls @ (case l of MPopped d x \<Rightarrow> if d = c then [x] else [] | _ \<Rightarrow> [])"
  by (auto simp: takes_def List.map_filter_def split: cast_label.splits)

definition spmc_start :: "'a spmc \<Rightarrow> 'a spmc_sys" where
  "spmc_start q = \<lparr>ms_q = q, ms_p = MIdle, ms_c = replicate (length (m_tails q)) CIdle\<rparr>"

definition spmc_race :: "u64 \<Rightarrow> 'a spmc_sys \<Rightarrow> bool" where
  "spmc_race cap s \<longleftrightarrow> (\<exists>x c. ms_p s = MWrite x \<and> c < length (ms_c s) \<and> ms_c s ! c = CRead \<and>
     ring_mask cap (m_cached_head (ms_q s)) = ring_mask cap (m_cached_tails (ms_q s) ! c))"

subsection \<open>The invariant\<close>

text \<open>Consumer \<open>c\<close> has taken \<open>t\<close> of the items \<open>ps\<close>: its cursors, the slots it has still to read, and where it
  is in \<open>try_pop\<close>.\<close>

definition taker_inv :: "u64 \<Rightarrow> 'a spmc_sys \<Rightarrow> 'a list \<Rightarrow> nat \<Rightarrow> nat \<Rightarrow> bool" where
  "taker_inv cap s ps c t \<longleftrightarrow>
     m_tails (ms_q s) ! c = of_nat t \<and> m_cached_tails (ms_q s) ! c = of_nat t \<and> t \<le> length ps \<and> length ps \<le> t + unat cap \<and>
     (\<forall>i. t \<le> i \<and> i < length ps \<longrightarrow> m_slots (ms_q s) ! (i mod unat cap) = Some (ps ! i)) \<and>
     (ms_c s ! c \<noteq> CIdle \<longrightarrow> t < length ps) \<and> (\<forall>x. ms_c s ! c = CRelease x \<longrightarrow> x = ps ! t)"

text \<open>The producer's knowledge. While it scans, the minimum it holds is a lower bound of the cursors it has
  loaded, which only grow, and not more than a capacity behind.\<close>

fun caster_inv :: "u64 \<Rightarrow> 'a list \<Rightarrow> 'a option list \<Rightarrow> nat \<Rightarrow> (nat \<Rightarrow> nat) \<Rightarrow> 'a caster_pc \<Rightarrow> bool" where
  "caster_inv cap ps slots n t MIdle \<longleftrightarrow> True"
| "caster_inv cap ps slots n t (MScan x i acc) \<longleftrightarrow> i \<le> n \<and>
     (case acc of None \<Rightarrow> i = 0
      | Some m \<Rightarrow> \<exists>k. m = of_nat k \<and> k \<le> length ps \<and> length ps \<le> k + unat cap \<and> (\<forall>c<i. k \<le> t c))"
| "caster_inv cap ps slots n t (MWrite x) \<longleftrightarrow> (\<forall>c<n. length ps < t c + unat cap)"
| "caster_inv cap ps slots n t (MPublish x) \<longleftrightarrow> (\<forall>c<n. length ps < t c + unat cap) \<and> slots ! (length ps mod unat cap) = Some x"

definition spmc_inv :: "u64 \<Rightarrow> nat \<Rightarrow> 'a cast_label list \<Rightarrow> 'a spmc_sys \<Rightarrow> bool" where
  "spmc_inv cap n ls s \<longleftrightarrow>
     is_power_of_two cap \<and> length (m_slots (ms_q s)) = unat cap \<and> length (m_tails (ms_q s)) = n \<and>
     length (m_cached_tails (ms_q s)) = n \<and> length (ms_c s) = n \<and>
     m_head (ms_q s) = of_nat (length (casts ls)) \<and> m_cached_head (ms_q s) = of_nat (length (casts ls)) \<and>
     (\<forall>c<n. taker_inv cap s (casts ls) c (length (takes c ls)) \<and> takes c ls = take (length (takes c ls)) (casts ls)) \<and>
     caster_inv cap (casts ls) (m_slots (ms_q s)) n (\<lambda>c. length (takes c ls)) (ms_p s) \<and> (\<forall>c. MUndefined c \<notin> set ls)"

lemma min_of_nat:
  assumes "a < 2 ^ 64" "b < 2 ^ 64"
  shows "min (of_nat a :: u64) (of_nat b) = of_nat (min a b)"
  using assms word_nat_small [of a] word_nat_small [of b] by (simp add: min_def word_le_nat_alt)

lemma spmc_invD:
  assumes "spmc_inv cap n ls s"
  shows "is_power_of_two cap" "length (m_slots (ms_q s)) = unat cap" "length (m_tails (ms_q s)) = n"
    "length (m_cached_tails (ms_q s)) = n" "length (ms_c s) = n" "m_head (ms_q s) = of_nat (length (casts ls))"
    "m_cached_head (ms_q s) = of_nat (length (casts ls))"
    "c < n \<Longrightarrow> taker_inv cap s (casts ls) c (length (takes c ls))"
    "c < n \<Longrightarrow> takes c ls = take (length (takes c ls)) (casts ls)"
    "caster_inv cap (casts ls) (m_slots (ms_q s)) n (\<lambda>c. length (takes c ls)) (ms_p s)" "MUndefined c \<notin> set ls"
  using assms unfolding spmc_inv_def by blast+

lemma taker_invD:
  assumes "taker_inv cap s ps c t"
  shows "m_tails (ms_q s) ! c = of_nat t" "m_cached_tails (ms_q s) ! c = of_nat t" "t \<le> length ps" "length ps \<le> t + unat cap"
    "t \<le> i \<Longrightarrow> i < length ps \<Longrightarrow> m_slots (ms_q s) ! (i mod unat cap) = Some (ps ! i)"
    "ms_c s ! c \<noteq> CIdle \<Longrightarrow> t < length ps" "ms_c s ! c = CRelease x \<Longrightarrow> x = ps ! t"
  using assms by (auto simp: taker_inv_def)

text \<open>A step of the producer that changes neither cursors nor slots.\<close>

lemma spmc_inv_caster:
  assumes "spmc_inv cap n ls s" "s' = s\<lparr>ms_p := pc\<rparr>" "l = MInternal \<or> l = MFull x"
    "caster_inv cap (casts ls) (m_slots (ms_q s)) n (\<lambda>c. length (takes c ls)) pc"
  shows "spmc_inv cap n (ls @ [l]) s'"
  using assms by (auto simp: spmc_inv_def taker_inv_def)

lemma cast_scan_inv:
  assumes inv: "spmc_inv cap n ls s" and len: "length (casts ls) < 2 ^ 64"
    and pc: "ms_p s = MScan x i acc" and i: "i < n"
  shows "caster_inv cap (casts ls) (m_slots (ms_q s)) n (\<lambda>c. length (takes c ls))
    (MScan x (Suc i) (Some (min_with acc (m_tails (ms_q s) ! i))))"
proof -
  let ?h = "length (casts ls)" and ?t = "length (takes i ls)"
  note T = taker_invD [OF spmc_invD(8) [OF inv i]]
  have prod: "caster_inv cap (casts ls) (m_slots (ms_q s)) n (\<lambda>c. length (takes c ls)) (MScan x i acc)"
    using spmc_invD(10) [OF inv] pc by simp
  show ?thesis
  proof (cases acc)
    case None
    then show ?thesis
      using prod T i by (auto intro!: exI [of _ ?t])
  next
    case (Some m)
    then obtain k where k: "m = of_nat k" "k \<le> ?h" "?h \<le> k + unat cap" "\<forall>c<i. k \<le> length (takes c ls)"
      using prod by auto
    then have "min m (m_tails (ms_q s) ! i) = of_nat (min k ?t)"
      using min_of_nat [of k ?t] T(1,3) len by simp
    then show ?thesis
      using k Some T i by (auto simp: less_Suc_eq intro!: exI [of _ "min k ?t"])
  qed
qed

lemma cast_room_inv:
  assumes inv: "spmc_inv cap n ls s" and pc: "ms_p s = MScan x n acc"
    and ne: "m_cached_head (ms_q s) - unwrap_or_zero acc \<noteq> cap"
  shows "caster_inv cap (casts ls) (m_slots (ms_q s)) n (\<lambda>c. length (takes c ls)) (MWrite x)"
proof (cases acc)
  case None
  then show ?thesis
    using spmc_invD(10) [OF inv] pc by simp
next
  case (Some m)
  then obtain k where k: "m = of_nat k" "k \<le> length (casts ls)" "length (casts ls) \<le> k + unat cap"
    "\<forall>c<n. k \<le> length (takes c ls)"
    using spmc_invD(10) [OF inv] pc by auto
  then have "length (casts ls) < k + unat cap"
    using cursor_diff [OF k(2,3)] ne Some spmc_invD(7) [OF inv] by (simp add: unwrap_or_zero_def)
  then show ?thesis
    using k(4) by fastforce
qed

lemma cast_write_inv:
  assumes inv: "spmc_inv cap n ls s" and pc: "ms_p s = MWrite x"
    and s': "s' = s\<lparr>ms_q := (ms_q s)\<lparr>m_slots := (m_slots (ms_q s))[ring_mask cap (m_cached_head (ms_q s)) := Some x]\<rparr>, ms_p := MPublish x\<rparr>"
  shows "spmc_inv cap n (ls @ [MInternal]) s'"
proof -
  let ?ps = "casts ls" and ?slot = "length (casts ls) mod unat cap"
  note D = spmc_invD [OF inv]
  have slot: "ring_mask cap (m_cached_head (ms_q s)) = ?slot" "?slot < unat cap"
    using D(1,7) ring_mask_of_nat power_of_two_pos by auto
  have room: "length ?ps < length (takes c ls) + unat cap" if "c < n" for c
    using D(10) pc that by simp
  have "(m_slots (ms_q s))[?slot := Some x] ! (i mod unat cap) = m_slots (ms_q s) ! (i mod unat cap)"
    if "c < n" "length (takes c ls) \<le> i" "i < length ?ps" for c i
    by (rule window_slot [OF room [OF that(1)] that(2,3)])
  then have "taker_inv cap s' ?ps c (length (takes c ls))" if "c < n" for c
    using D(8) [OF that] that slot(1) by (auto simp: taker_inv_def s')
  then show ?thesis
    using D slot room by (auto simp: spmc_inv_def s')
qed

lemma cast_publish_inv:
  assumes inv: "spmc_inv cap n ls s" and pc: "ms_p s = MPublish x"
    and s': "s' = s\<lparr>ms_q := (ms_q s)\<lparr>m_head := m_cached_head (ms_q s) + 1, m_cached_head := m_cached_head (ms_q s) + 1\<rparr>, ms_p := MIdle\<rparr>"
  shows "spmc_inv cap n (ls @ [MPushed x]) s'"
proof -
  note D = spmc_invD [OF inv]
  have room: "length (casts ls) < length (takes c ls) + unat cap" if "c < n" for c
    using D(10) pc that by simp
  have x: "m_slots (ms_q s) ! (length (casts ls) mod unat cap) = Some x"
    using D(10) pc by simp
  have "taker_inv cap s' (casts ls @ [x]) c (length (takes c ls))" if "c < n" for c
    using D(8) [OF that] room [OF that] x by (auto simp: taker_inv_def s' nth_append less_Suc_eq)
  moreover have "takes c ls = take (length (takes c ls)) (casts ls @ [x])" if "c < n" for c
    using D(9) [OF that] taker_invD(3) [OF D(8) [OF that]] by simp
  ultimately show ?thesis
    using D by (auto simp: spmc_inv_def s')
qed

text \<open>A step of consumer \<open>c\<close> before it releases its slot.\<close>

lemma take_step_inv:
  assumes inv: "spmc_inv cap n ls s" and c: "c < n" and s': "s' = s\<lparr>ms_c := (ms_c s)[c := pc]\<rparr>"
    and pc: "length (takes c ls) < length (casts ls)" "\<forall>x. pc = CRelease x \<longrightarrow> x = casts ls ! length (takes c ls)"
  shows "spmc_inv cap n (ls @ [MInternal]) s'"
proof -
  note D = spmc_invD [OF inv]
  have "taker_inv cap s' (casts ls) d (length (takes d ls))" if "d < n" for d
    using D(8) [OF that] pc D(5) c by (cases "d = c") (auto simp: taker_inv_def s')
  then show ?thesis
    using D by (auto simp: spmc_inv_def s')
qed

lemma caster_inv_mono: "caster_inv cap ps slots n t pc \<Longrightarrow> (\<And>c. t c \<le> t' c) \<Longrightarrow> caster_inv cap ps slots n t' pc"
proof (induction pc)
  case (MScan x i acc)
  then show ?case
  proof (cases acc)
    case (Some m)
    then obtain k where "m = of_nat k" "k \<le> length ps" "length ps \<le> k + unat cap" "\<forall>c<i. k \<le> t c" "i \<le> n"
      using MScan by auto
    then show ?thesis
      using Some MScan(2) order_trans by (fastforce intro!: exI [of _ k])
  qed simp
qed (auto intro: less_le_trans)

lemma take_release_inv:
  assumes inv: "spmc_inv cap n ls s" and c: "c < n" and pc: "ms_c s ! c = CRelease x"
    and s': "s' = s\<lparr>ms_q := (ms_q s)\<lparr>m_tails := (m_tails (ms_q s))[c := t], m_cached_tails := (m_cached_tails (ms_q s))[c := t]\<rparr>,
         ms_c := (ms_c s)[c := CIdle]\<rparr>" and t: "t = m_cached_tails (ms_q s) ! c + 1"
  shows "spmc_inv cap n (ls @ [MPopped c x]) s'"
proof -
  note D = spmc_invD [OF inv] and T = taker_invD [OF spmc_invD(8) [OF inv c]]
  have ne: "length (takes c ls) < length (casts ls)" and x: "x = casts ls ! length (takes c ls)"
    using T(6,7) pc by auto
  have "taker_inv cap s' (casts ls) d (length (takes d (ls @ [MPopped c x])))" if "d < n" for d
    using D(8) [OF that] D(3,4,5) c ne T(2) that by (cases "d = c") (auto simp: taker_inv_def s' t)
  moreover have "takes d (ls @ [MPopped c x]) = take (length (takes d (ls @ [MPopped c x]))) (casts ls)" if "d < n" for d
    using D(9) [OF that] x ne take_Suc_conv_app_nth [OF ne] by (cases "d = c") auto
  moreover have "caster_inv cap (casts ls) (m_slots (ms_q s)) n (\<lambda>d. length (takes d (ls @ [MPopped c x]))) (ms_p s)"
    by (rule caster_inv_mono [OF D(10)]) simp
  moreover have "casts (ls @ [MPopped c x]) = casts ls"
    by simp
  ultimately show ?thesis
    using D unfolding spmc_inv_def by (simp add: s' del: takes_simps(2) casts_simps(2))
qed

lemma spmc_step_inv:
  assumes inv: "spmc_inv cap n ls s" and len: "length (casts ls) < 2 ^ 64" and st: "spmc_step cap s l s'"
  shows "spmc_inv cap n (ls @ [l]) s'"
proof -
  note D = spmc_invD [OF inv]
  have head: "m_head (ms_q s) = m_cached_tails (ms_q s) ! c \<longleftrightarrow> length (casts ls) = length (takes c ls)" if "c < n" for c
    using taker_invD(2,3,4) [OF D(8) [OF that]] D(6) cursor_eq by metis
  have front: "m_slots (ms_q s) ! ring_mask cap (m_cached_tails (ms_q s) ! c) = Some (casts ls ! length (takes c ls))"
    if "c < n" "ms_c s ! c \<noteq> CIdle" for c
    using taker_invD(2,6) [OF D(8) [OF that(1)]] taker_invD(5) [OF D(8) [OF that(1)], of "length (takes c ls)"]
      that(2) D(1) by (simp add: ring_mask_of_nat)
  from st show ?thesis
  proof cases
    case (cast_start x)
    then show ?thesis
      by (intro spmc_inv_caster [OF inv]) auto
  next
    case (cast_scan x i acc)
    then show ?thesis
      using cast_scan_inv [OF inv len] D(3) by (intro spmc_inv_caster [OF inv]) auto
  next
    case (cast_full x i acc)
    then show ?thesis
      by (intro spmc_inv_caster [OF inv]) auto
  next
    case (cast_room x i acc)
    then show ?thesis
      using cast_room_inv [OF inv] D(3) by (intro spmc_inv_caster [OF inv]) auto
  next
    case (cast_write x slot)
    then show ?thesis
      using cast_write_inv [OF inv] by simp
  next
    case (cast_publish x h)
    then show ?thesis
      using cast_publish_inv [OF inv] by simp
  next
    case (take_load c)
    then have c: "c < n"
      using D(5) by simp
    then have "length (takes c ls) < length (casts ls)"
      using head [OF c] taker_invD(3) [OF D(8) [OF c]] take_load(5) by simp
    then show ?thesis
      using take_step_inv [OF inv c take_load(2)] take_load(1) by simp
  next
    case (take_read c x)
    then have c: "c < n"
      using D(5) by simp
    then have "length (takes c ls) < length (casts ls)" "x = casts ls ! length (takes c ls)"
      using front [OF c] taker_invD(6) [OF D(8) [OF c]] take_read(4,5) by simp_all
    then show ?thesis
      using take_step_inv [OF inv c take_read(2)] take_read(1) by simp
  next
    case (take_undefined c)
    then show ?thesis
      using front [of c] D(5) by simp
  next
    case (take_release c x t)
    then show ?thesis
      using take_release_inv [OF inv, of c] D(5) by simp
  qed (use inv in \<open>simp add: spmc_inv_def\<close>)
qed

lemma spmc_trace_inv:
  assumes "spmc_queue cap n = Some q" "trace (spmc_step cap) (spmc_start q) ls s" "length (casts ls) < 2 ^ 64"
  shows "spmc_inv cap n ls s"
proof -
  have "length (casts ls) < 2 ^ 64 \<longrightarrow> spmc_inv cap n ls s"
  proof (rule trace_invariant [OF assms(2)])
    show "length (casts []) < 2 ^ 64 \<longrightarrow> spmc_inv cap n [] (spmc_start q)"
      using assms(1) by (auto simp: spmc_inv_def spmc_start_def spmc_queue_def taker_inv_def split: if_splits)
  next
    fix ls s l s'
    assume "length (casts ls) < 2 ^ 64 \<longrightarrow> spmc_inv cap n ls s" "spmc_step cap s l s'"
    then show "length (casts (ls @ [l])) < 2 ^ 64 \<longrightarrow> spmc_inv cap n (ls @ [l]) s'"
      using spmc_step_inv [of cap n ls s l s'] by auto
  qed
  then show ?thesis
    using assms(3) by blast
qed

subsection \<open>The operations are runs of the step relation\<close>

lemma cast_scan_run:
  assumes "ms_p s = MScan x i acc" "i \<le> length (m_tails (ms_q s))"
  shows "\<exists>ls. trace (spmc_step cap) s ls
      (s\<lparr>ms_p := MScan x (length (m_tails (ms_q s))) (fold (\<lambda>t acc. Some (min_with acc t)) (drop i (m_tails (ms_q s))) acc)\<rparr>) \<and> casts ls = []"
  using assms
proof (induction "length (m_tails (ms_q s)) - i" arbitrary: s i acc)
  case 0
  then have eq: "s\<lparr>ms_p := MScan x (length (m_tails (ms_q s))) acc\<rparr> = s"
    by (cases s) auto
  have "trace (spmc_step cap) s [] (s\<lparr>ms_p := MScan x (length (m_tails (ms_q s))) acc\<rparr>)"
    unfolding eq by (rule trace_Nil)
  then show ?case
    using 0 by (intro exI [of _ "[]"]) simp
next
  case (Suc k)
  let ?t = "m_tails (ms_q s) ! i"
  let ?s = "s\<lparr>ms_p := MScan x (Suc i) (Some (min_with acc ?t))\<rparr>"
  have i: "i < length (m_tails (ms_q s))"
    using Suc by simp
  have k: "k = length (m_tails (ms_q ?s)) - Suc i"
    using Suc(2) by simp
  obtain ls where ls: "trace (spmc_step cap) ?s ls (?s\<lparr>ms_p := MScan x (length (m_tails (ms_q ?s)))
      (fold (\<lambda>t acc. Some (min_with acc t)) (drop (Suc i) (m_tails (ms_q ?s))) (Some (min_with acc ?t)))\<rparr>)" "casts ls = []"
    using Suc(1) [of ?s "Suc i" "Some (min_with acc ?t)"] k i by auto
  have st: "spmc_step cap s MInternal ?s"
    by (rule cast_scan [OF Suc(3) i])
  have "casts (MInternal # ls) = []"
    using ls(2) by (simp add: casts_def List.map_filter_def)
  then show ?case
    using trace_Cons [where step = "spmc_step cap", OF st ls(1)] Cons_nth_drop_Suc [OF i, symmetric]
    by (auto intro!: exI [of _ "MInternal # ls"])
qed

lemma casts_append: "casts (ls @ ls') = casts ls @ casts ls'"
  by (simp add: casts_def List.map_filter_def)

text \<open>\<open>try_push\<close> of a producer that nobody interrupts is a run of its steps.\<close>

lemma spmc_push_run:
  assumes idle: "ms_p s = MIdle" and r: "spmc_try_push cap (ms_q s) x = Some (r, q')"
  shows "\<exists>ls. trace (spmc_step cap) s ls (s\<lparr>ms_q := q'\<rparr>) \<and> casts ls = (if r = Inr () then [x] else [])"
proof -
  let ?s1 = "s\<lparr>ms_p := MScan x 0 None\<rparr>" and ?ts = "m_tails (ms_q s)"
  let ?acc = "fold (\<lambda>t acc. Some (min_with acc t)) ?ts None"
  let ?s2 = "s\<lparr>ms_p := MScan x (length ?ts) ?acc\<rparr>"
  have s1: "spmc_step cap s MInternal ?s1"
    by (rule cast_start [OF idle])
  obtain ls where ls: "trace (spmc_step cap) ?s1 ls ?s2" "casts ls = []"
    using cast_scan_run [of ?s1 x 0 None cap] by auto
  have scan: "trace (spmc_step cap) s (MInternal # ls) ?s2" "casts (MInternal # ls) = []"
    using trace_Cons [where step = "spmc_step cap", OF s1 ls(1)] ls(2) by (auto simp: casts_def List.map_filter_def)
  have acc: "unwrap_or_zero ?acc = min_tail ?ts"
    by (simp add: min_tail_def)
  show ?thesis
  proof (cases "m_cached_head (ms_q s) - min_tail ?ts = cap")
    case True
    have "spmc_step cap ?s2 (MFull x) (s\<lparr>ms_p := MIdle\<rparr>)"
      using cast_full [of ?s2 x "length ?ts" ?acc cap] True acc by simp
    then have "trace (spmc_step cap) s ((MInternal # ls) @ [MFull x]) (s\<lparr>ms_p := MIdle\<rparr>)"
      using trace_snoc [where step = "spmc_step cap", OF scan(1)] by blast
    moreover have "s\<lparr>ms_p := MIdle\<rparr> = s\<lparr>ms_q := q'\<rparr>" "r = Inl x"
      using r True idle by (cases s; simp add: spmc_try_push_def Let_def)+
    ultimately show ?thesis
      using scan(2) casts_simps(2) [of "MInternal # ls" "MFull x"] by (auto intro!: exI [of _ "(MInternal # ls) @ [MFull x]"])
  next
    case False
    let ?slot = "ring_mask cap (m_cached_head (ms_q s))"
    let ?q = "(ms_q s)\<lparr>m_slots := (m_slots (ms_q s))[?slot := Some x]\<rparr>"
    let ?s3 = "s\<lparr>ms_p := MWrite x\<rparr>" and ?s4 = "s\<lparr>ms_q := ?q, ms_p := MPublish x\<rparr>"
    have q': "q' = ?q\<lparr>m_head := m_cached_head (ms_q s) + 1, m_cached_head := m_cached_head (ms_q s) + 1\<rparr>" "r = Inr ()"
      using r False by (auto simp: spmc_try_push_def Let_def bind_eq_Some_conv)
    have "spmc_step cap ?s2 MInternal ?s3"
      using cast_room [of ?s2 x "length ?ts" ?acc cap] False acc by simp
    then have t3: "trace (spmc_step cap) s ((MInternal # ls) @ [MInternal]) ?s3"
      using trace_snoc [where step = "spmc_step cap", OF scan(1)] by blast
    have "spmc_step cap ?s3 MInternal ?s4"
      using cast_write [of ?s3 x ?slot cap] by simp
    then have t4: "trace (spmc_step cap) s (((MInternal # ls) @ [MInternal]) @ [MInternal]) ?s4"
      using trace_snoc [where step = "spmc_step cap", OF t3] by blast
    have "spmc_step cap ?s4 (MPushed x) (s\<lparr>ms_q := q', ms_p := MIdle\<rparr>)"
      using cast_publish [of ?s4 x "m_cached_head (ms_q s) + 1" cap] q'(1) by simp
    then have "trace (spmc_step cap) s ((((MInternal # ls) @ [MInternal]) @ [MInternal]) @ [MPushed x]) (s\<lparr>ms_q := q', ms_p := MIdle\<rparr>)"
      using trace_snoc [where step = "spmc_step cap", OF t4] by blast
    moreover have "s\<lparr>ms_q := q', ms_p := MIdle\<rparr> = s\<lparr>ms_q := q'\<rparr>"
      using idle by (cases s) simp
    moreover have "casts ((((MInternal # ls) @ [MInternal]) @ [MInternal]) @ [MPushed x]) = [x]"
      using scan(2) by (simp only: casts_simps) simp
    ultimately show ?thesis
      using q'(2) by (intro exI [of _ "(((MInternal # ls) @ [MInternal]) @ [MInternal]) @ [MPushed x]"]) simp
  qed
qed

subsection \<open>Every consumer gets the broadcast\<close>

text \<open>C15: Under every interleaving of the producer with its consumers, and for fewer than \<open>2 ^ 64\<close> publications,
  every consumer has received a prefix of the items published, in order and without a gap or a repeat; it
  lags at most \<open>CAP\<close> items behind; no consumer reads an unwritten slot; and the producer never writes a slot
  that a consumer is reading.\<close>

theorem spmc_broadcast:
  assumes "spmc_queue cap n = Some q" "trace (spmc_step cap) (spmc_start q) ls s" "length (casts ls) < 2 ^ 64" "c < n"
  shows "takes c ls = take (length (takes c ls)) (casts ls) \<and> length (casts ls) \<le> length (takes c ls) + unat cap \<and>
    MUndefined c \<notin> set ls \<and> \<not> spmc_race cap s"
proof -
  note inv = spmc_trace_inv [OF assms(1-3)]
  note D = spmc_invD [OF inv]
  have "\<not> spmc_race cap s"
  proof
    assume "spmc_race cap s"
    then obtain x d where d: "ms_p s = MWrite x" "d < n" "ms_c s ! d = CRead"
      "ring_mask cap (m_cached_head (ms_q s)) = ring_mask cap (m_cached_tails (ms_q s) ! d)"
      using D(5) by (auto simp: spmc_race_def)
    then have "length (casts ls) mod unat cap = length (takes d ls) mod unat cap"
      using taker_invD(2) [OF D(8) [OF d(2)]] D(1,7) ring_mask_of_nat by simp
    moreover have "length (casts ls) < length (takes d ls) + unat cap"
      using D(10) d(1,2) by simp
    moreover have "length (takes d ls) < length (casts ls)"
      using taker_invD(6) [OF D(8) [OF d(2)]] d(3) by simp
    ultimately show False
      using mod_eq_window [of "length (casts ls)" "unat cap" "length (takes d ls)"] by simp
  qed
  then show ?thesis
    using D(9) [OF assms(4)] taker_invD(4) [OF D(8) [OF assms(4)]] D(11) by blast
qed

theorem spmc_broadcast_witness:
  "\<exists>q q' ls s. spmc_queue 2 3 = Some q \<and> spmc_try_push 2 q (7 :: nat) = Some (Inr (), q') \<and>
     trace (spmc_step 2) (spmc_start q) ls s \<and> ms_q s = q' \<and> casts ls = [7] \<and>
     takes 1 ls = take (length (takes 1 ls)) [7] \<and> \<not> spmc_race 2 s"
proof -
  have p2: "is_power_of_two 2"
    by (simp add: is_power_of_two_iff) (intro exI [of _ 1], simp)
  obtain q :: "nat spmc" where q: "spmc_queue 2 3 = Some q"
    by (simp add: spmc_queue_def p2)
  have "map_option fst (spmc_try_push 2 (the (spmc_queue 2 3)) (7 :: nat)) = Some (Inr ())"
    by code_simp
  then obtain q' where q': "spmc_try_push 2 q 7 = Some (Inr (), q')"
    using q by auto
  have idle: "ms_p (spmc_start q) = MIdle" "ms_q (spmc_start q) = q"
    by (simp_all add: spmc_start_def)
  obtain ls where ls: "trace (spmc_step 2) (spmc_start q) ls ((spmc_start q)\<lparr>ms_q := q'\<rparr>)" "casts ls = [7]"
    using spmc_push_run [OF idle(1), of 2 7 "Inr ()" q'] q' idle(2) by auto
  moreover have "ms_q ((spmc_start q)\<lparr>ms_q := q'\<rparr>) = q'"
    by simp
  ultimately show ?thesis
    using spmc_broadcast [OF q ls(1), of 1] q q'
    by (intro exI [of _ q] exI [of _ q'] exI [of _ ls] exI [of _ "(spmc_start q)\<lparr>ms_q := q'\<rparr>"]) simp
qed

end
