(* ===== verification/Seqlock.thy ===== *)
theory Seqlock
  imports Prelude Traces
begin

text \<open>
  The crate \<open>seqlock\<close>: the per-account risk state that one risk shard writes and the gateway and matching
  threads read without a lock (\<open>account_risk_state.rs\<close>), and the table of these states by account id
  (\<open>table.rs\<close>). The operations are given as functions, for use when nobody interferes, and as the
  sequences of their single memory accesses, one writer interleaved with any number of readers.
  Accesses are taken to be sequentially consistent; the fences of the source order the field
  accesses between the two accesses to the counter.
\<close>

subsection \<open>Data and operations\<close>

record account_risk_snapshot =
  balance :: i64
  used_margin :: i64
  frozen :: bool
  halted :: bool
  position :: i64
  open_order_count :: u32

definition snapshot_default :: account_risk_snapshot where
  "snapshot_default = \<lparr>balance = 0, used_margin = 0, frozen = False, halted = False, position = 0, open_order_count = 0\<rparr>"

record account_risk_state =
  st_seq :: u64
  st_cells :: account_risk_snapshot

definition risk_state_new :: account_risk_state where
  "risk_state_new = \<lparr>st_seq = 0, st_cells = snapshot_default\<rparr>"

definition state_update :: "account_risk_state \<Rightarrow> account_risk_snapshot \<Rightarrow> account_risk_state" where
  "state_update st new = (let seq = st_seq st in st\<lparr>st_seq := seq + 2, st_cells := new\<rparr>)"

text \<open>The read loop. It spins while the counter is odd, which without interference is forever.\<close>

partial_function (option) state_read :: "account_risk_state \<Rightarrow> account_risk_snapshot option" where
  [code]: "state_read st =
     (let seq1 = st_seq st in
      if seq1 mod 2 \<noteq> 0 then state_read st
      else
        let snap = st_cells st; seq2 = st_seq st in
        if seq1 = seq2 then Some snap else state_read st)"

definition is_frozen :: "account_risk_state \<Rightarrow> bool option" where
  "is_frozen st = map_option frozen (state_read st)"

definition is_halted :: "account_risk_state \<Rightarrow> bool option" where
  "is_halted st = map_option halted (state_read st)"

definition state_position :: "account_risk_state \<Rightarrow> i64 option" where
  "state_position st = map_option position (state_read st)"

definition state_open_order_count :: "account_risk_state \<Rightarrow> u32 option" where
  "state_open_order_count st = map_option open_order_count (state_read st)"

definition set_frozen :: "account_risk_state \<Rightarrow> bool \<Rightarrow> account_risk_state option" where
  "set_frozen st v = do {
     s \<leftarrow> state_read st;
     Some (state_update st \<lparr>balance = balance s, used_margin = used_margin s, frozen = v, halted = halted s, position = position s, open_order_count = open_order_count s\<rparr>)
   }"

definition set_halted :: "account_risk_state \<Rightarrow> bool \<Rightarrow> account_risk_state option" where
  "set_halted st v = do {
     s \<leftarrow> state_read st;
     Some (state_update st \<lparr>balance = balance s, used_margin = used_margin s, frozen = frozen s, halted = v, position = position s, open_order_count = open_order_count s\<rparr>)
   }"

definition set_position :: "account_risk_state \<Rightarrow> i64 \<Rightarrow> account_risk_state option" where
  "set_position st v = do {
     s \<leftarrow> state_read st;
     Some (state_update st \<lparr>balance = balance s, used_margin = used_margin s, frozen = frozen s, halted = halted s, position = v, open_order_count = open_order_count s\<rparr>)
   }"

text \<open>\<open>AccountRiskTable\<close>: one state per account id.\<close>

type_synonym account_risk_table = "account_risk_state list"

definition table_new :: "nat \<Rightarrow> account_risk_table" where
  "table_new capacity = replicate capacity risk_state_new"

definition table_get :: "account_risk_table \<Rightarrow> u64 \<Rightarrow> account_risk_state option" where
  "table_get t account_id = list_get t (unat account_id)"

definition table_capacity :: "account_risk_table \<Rightarrow> nat" where
  "table_capacity t = length t"

text \<open>A caller that got the state of \<open>account_id\<close> and stored \<open>st\<close> through the reference.\<close>

definition table_put :: "account_risk_table \<Rightarrow> u64 \<Rightarrow> account_risk_state \<Rightarrow> account_risk_table" where
  "table_put t account_id st = t[unat account_id := st]"

lemma table_get_put [simp]:
  "table_get (table_put t a st) a' = (if a' = a \<and> unat a < length t then Some st else table_get t a')"
proof (cases "a' = a")
  case False
  then have "unat a \<noteq> unat a'"
    by (simp add: word_unat_eq_iff)
  then show ?thesis
    using False by (simp add: table_get_def table_put_def list_get_def)
qed (simp add: table_get_def table_put_def list_get_def)

lemma table_put_capacity [simp]: "table_capacity (table_put t a st) = table_capacity t"
  by (simp add: table_capacity_def table_put_def)

text \<open>The counter of a state nobody is writing is even.\<close>

definition quiet :: "account_risk_state \<Rightarrow> bool" where
  "quiet st \<longleftrightarrow> st_seq st mod 2 = 0"

lemma state_read_quiet [simp]: "quiet st \<Longrightarrow> state_read st = Some (st_cells st)"
  by (subst state_read.simps) (simp add: quiet_def)

lemma even_word_iff: "(w :: u64) mod 2 = 0 \<longleftrightarrow> even (unat w)"
proof -
  have "w mod 2 = 0 \<longleftrightarrow> unat (w mod 2) = 0"
    by (simp add: unat_eq_0)
  also have "\<dots> \<longleftrightarrow> unat w mod 2 = 0"
    by (simp only: unat_mod_distrib) simp
  finally show ?thesis
    by (simp add: even_iff_mod_2_eq_zero)
qed

lemma even_word_add2: "even (unat (w + 2 :: u64)) \<longleftrightarrow> even (unat w)"
proof -
  have "unat (w + 2) = (unat w + 2) mod 2 ^ 64"
    by (simp add: unat_word_ariths(1))
  moreover have "even (n mod 2 ^ 64) \<longleftrightarrow> even n" for n :: nat
    by (rule dvd_mod_iff) simp
  ultimately show ?thesis
    by (metis even_add even_numeral)
qed

lemma quiet_update [simp]: "quiet (state_update st new) \<longleftrightarrow> quiet st" "st_cells (state_update st new) = new"
  by (simp_all add: quiet_def state_update_def even_word_iff even_word_add2)

lemma quiet_new [simp]: "quiet risk_state_new"
  by (simp add: quiet_def risk_state_new_def)

subsection \<open>One writer and many readers, interleaved\<close>

text \<open>The fields in the order the code copies them.\<close>

definition copy_field :: "nat \<Rightarrow> account_risk_snapshot \<Rightarrow> account_risk_snapshot \<Rightarrow> account_risk_snapshot" where
  "copy_field i src dst =
     (if i = 0 then dst\<lparr>balance := balance src\<rparr> else if i = 1 then dst\<lparr>used_margin := used_margin src\<rparr>
      else if i = 2 then dst\<lparr>frozen := frozen src\<rparr> else if i = 3 then dst\<lparr>halted := halted src\<rparr>
      else if i = 4 then dst\<lparr>position := position src\<rparr> else if i = 5 then dst\<lparr>open_order_count := open_order_count src\<rparr>
      else dst)"

definition agree :: "nat \<Rightarrow> account_risk_snapshot \<Rightarrow> account_risk_snapshot \<Rightarrow> bool" where
  "agree n a b \<longleftrightarrow>
     (0 < n \<longrightarrow> balance a = balance b) \<and> (1 < n \<longrightarrow> used_margin a = used_margin b) \<and> (2 < n \<longrightarrow> frozen a = frozen b) \<and>
     (3 < n \<longrightarrow> halted a = halted b) \<and> (4 < n \<longrightarrow> position a = position b) \<and> (5 < n \<longrightarrow> open_order_count a = open_order_count b)"

lemma agree_0 [simp]: "agree 0 a b"
  by (simp add: agree_def)

lemma agree_6: "agree 6 a b \<longleftrightarrow> a = b"
  by (cases a; cases b) (auto simp: agree_def)

lemma agree_copy: "agree i a b \<Longrightarrow> i < 6 \<Longrightarrow> agree (Suc i) (copy_field i b a) b"
  by (auto simp: agree_def copy_field_def)

text \<open>Where a writer is in \<open>update\<close> and a reader in \<open>read\<close>. The writer has loaded the counter, made it odd and
  stored some of the fields; the reader holds the counter it first loaded and the fields read so far.\<close>

datatype writer_pc = WIdle | WLoaded u64 account_risk_snapshot | WFields u64 account_risk_snapshot nat
datatype reader_pc = RIdle | RFields u64 account_risk_snapshot nat

record lock_sys =
  ls_mem :: account_risk_state
  ls_w :: "nat \<Rightarrow> writer_pc"
  ls_r :: "nat \<Rightarrow> reader_pc"

datatype lock_label = Updated account_risk_snapshot | Returned nat account_risk_snapshot | Retried nat | Silent

inductive lock_step :: "nat \<Rightarrow> lock_sys \<Rightarrow> lock_label \<Rightarrow> lock_sys \<Rightarrow> bool" for writers where
  upd_load: "w < writers \<Longrightarrow> ls_w s w = WIdle \<Longrightarrow>
    lock_step writers s Silent (s\<lparr>ls_w := (ls_w s)(w := WLoaded (st_seq (ls_mem s)) new)\<rparr>)"
| upd_odd: "w < writers \<Longrightarrow> ls_w s w = WLoaded seq new \<Longrightarrow>
    lock_step writers s Silent (s\<lparr>ls_mem := (ls_mem s)\<lparr>st_seq := seq + 1\<rparr>, ls_w := (ls_w s)(w := WFields seq new 0)\<rparr>)"
| upd_field: "w < writers \<Longrightarrow> ls_w s w = WFields seq new i \<Longrightarrow> i < 6 \<Longrightarrow>
    lock_step writers s Silent (s\<lparr>ls_mem := (ls_mem s)\<lparr>st_cells := copy_field i new (st_cells (ls_mem s))\<rparr>,
      ls_w := (ls_w s)(w := WFields seq new (Suc i))\<rparr>)"
| upd_even: "w < writers \<Longrightarrow> ls_w s w = WFields seq new 6 \<Longrightarrow>
    lock_step writers s (Updated new) (s\<lparr>ls_mem := (ls_mem s)\<lparr>st_seq := seq + 2\<rparr>, ls_w := (ls_w s)(w := WIdle)\<rparr>)"
| read_odd: "ls_r s r = RIdle \<Longrightarrow> st_seq (ls_mem s) mod 2 \<noteq> 0 \<Longrightarrow> lock_step writers s (Retried r) s"
| read_load: "ls_r s r = RIdle \<Longrightarrow> st_seq (ls_mem s) mod 2 = 0 \<Longrightarrow>
    lock_step writers s Silent (s\<lparr>ls_r := (ls_r s)(r := RFields (st_seq (ls_mem s)) snapshot_default 0)\<rparr>)"
| read_field: "ls_r s r = RFields seq acc i \<Longrightarrow> i < 6 \<Longrightarrow>
    lock_step writers s Silent (s\<lparr>ls_r := (ls_r s)(r := RFields seq (copy_field i (st_cells (ls_mem s)) acc) (Suc i))\<rparr>)"
| read_ok: "ls_r s r = RFields seq acc 6 \<Longrightarrow> st_seq (ls_mem s) = seq \<Longrightarrow>
    lock_step writers s (Returned r acc) (s\<lparr>ls_r := (ls_r s)(r := RIdle)\<rparr>)"
| read_retry: "ls_r s r = RFields seq acc 6 \<Longrightarrow> st_seq (ls_mem s) \<noteq> seq \<Longrightarrow>
    lock_step writers s (Retried r) (s\<lparr>ls_r := (ls_r s)(r := RIdle)\<rparr>)"

inductive_cases lock_stepE: "lock_step writers s l s'"

definition lock_start :: lock_sys where
  "lock_start = \<lparr>ls_mem = risk_state_new, ls_w = (\<lambda>_. WIdle), ls_r = (\<lambda>_. RIdle)\<rparr>"

definition updates :: "lock_label list \<Rightarrow> account_risk_snapshot list" where
  "updates ls = List.map_filter (\<lambda>l. case l of Updated v \<Rightarrow> Some v | _ \<Rightarrow> None) ls"

text \<open>The value of the last completed update.\<close>

definition latest :: "lock_label list \<Rightarrow> account_risk_snapshot" where
  "latest ls = last (snapshot_default # updates ls)"

lemma updates_simps [simp]: "updates [] = []" "updates (ls @ [l]) = updates ls @ (case l of Updated v \<Rightarrow> [v] | _ \<Rightarrow> [])"
  by (auto simp: updates_def List.map_filter_def split: lock_label.splits)

lemma latest_simps [simp]: "latest [] = snapshot_default"
  "latest (ls @ [l]) = (case l of Updated v \<Rightarrow> v | _ \<Rightarrow> latest ls)"
  by (auto simp: latest_def split: lock_label.splits)

lemma even_of_nat_word: "even (unat (of_nat k :: u64)) \<longleftrightarrow> even k"
proof -
  have "unat (of_nat k :: u64) = k mod 2 ^ 64"
    by (simp add: unsigned_of_nat take_bit_eq_mod)
  moreover have "even (k mod 2 ^ 64) \<longleftrightarrow> even k"
    by (rule dvd_mod_iff) simp
  ultimately show ?thesis
    by metis
qed

lemma counter_odd: "(of_nat (2 * n) + 1 :: u64) \<noteq> of_nat (2 * m)"
  using even_of_nat_word [of "2 * n + 1"] even_of_nat_word [of "2 * m"] by (metis even_mult_iff even_plus_one_iff even_two_times_div_two dvd_triv_left of_nat_1 of_nat_add)

lemma counter_next:
  assumes "m \<le> n" "Suc n < 2 ^ 63"
  shows "(of_nat (2 * n) + 2 :: u64) \<noteq> of_nat (2 * m)"
proof -
  have "unat (of_nat (2 * Suc n) :: u64) = 2 * Suc n" "unat (of_nat (2 * m) :: u64) = 2 * m"
    using assms by (intro word_nat_small; simp)+
  moreover have "2 * Suc n \<noteq> 2 * m"
    using assms(1) by simp
  moreover have "(of_nat (2 * n) + 2 :: u64) = of_nat (2 * Suc n)"
    by simp
  ultimately show ?thesis
    by metis
qed

fun writer_ok :: "lock_label list \<Rightarrow> account_risk_state \<Rightarrow> writer_pc \<Rightarrow> bool" where
  "writer_ok ls st WIdle \<longleftrightarrow> st_seq st = of_nat (2 * length (updates ls)) \<and> st_cells st = latest ls"
| "writer_ok ls st (WLoaded seq new) \<longleftrightarrow>
     seq = of_nat (2 * length (updates ls)) \<and> st_seq st = seq \<and> st_cells st = latest ls"
| "writer_ok ls st (WFields seq new i) \<longleftrightarrow>
     seq = of_nat (2 * length (updates ls)) \<and> st_seq st = seq + 1 \<and> i \<le> 6 \<and> agree i (st_cells st) new"

fun reader_ok :: "lock_label list \<Rightarrow> account_risk_state \<Rightarrow> reader_pc \<Rightarrow> bool" where
  "reader_ok ls st RIdle \<longleftrightarrow> True"
| "reader_ok ls st (RFields seq acc i) \<longleftrightarrow>
     i \<le> 6 \<and> (\<exists>m \<le> length (updates ls). seq = of_nat (2 * m)) \<and> (st_seq st = seq \<longrightarrow> agree i acc (st_cells st))"

definition lock_inv :: "lock_label list \<Rightarrow> lock_sys \<Rightarrow> bool" where
  "lock_inv ls s \<longleftrightarrow> writer_ok ls (ls_mem s) (ls_w s 0) \<and> (\<forall>r. reader_ok ls (ls_mem s) (ls_r s r))"

text \<open>A reader survives a change of the memory that moves the counter away from the one it holds, or that
  comes while the counter already differs.\<close>

lemma reader_ok_mem:
  assumes "reader_ok ls st pc" "length (updates ls) \<le> length (updates ls')"
    "\<And>seq acc i. pc = RFields seq acc i \<Longrightarrow> st_seq st' \<noteq> seq"
  shows "reader_ok ls' st' pc"
  using assms by (cases pc) (auto intro: order_trans)

lemma lock_step_inv:
  assumes inv: "lock_inv ls s" and st: "lock_step 1 s l s'" and len: "length (updates (ls @ [l])) < 2 ^ 63"
  shows "lock_inv (ls @ [l]) s'"
proof -
  have W: "writer_ok ls (ls_mem s) (ls_w s 0)" and R: "\<And>r. reader_ok ls (ls_mem s) (ls_r s r)"
    using inv by (auto simp: lock_inv_def)
  have held: "\<exists>m \<le> length (updates ls). seq = of_nat (2 * m)" if "ls_r s r = RFields seq acc i" for r seq acc i
    using R [of r] that by simp
  have quiet: "reader_ok (ls @ [l]) (ls_mem s) pc" if "reader_ok ls (ls_mem s) pc" "updates (ls @ [l]) = updates ls" for pc
    using that by (cases pc) auto
  have quietw: "writer_ok (ls @ [l]) (ls_mem s) (ls_w s 0)" if "\<forall>v. l \<noteq> Updated v"
    using W that by (cases "ls_w s 0"; cases l) auto
  from st show ?thesis
  proof cases
    case (upd_load w new)
    then show ?thesis
      using W R quiet by (simp add: lock_inv_def)
  next
    case (upd_odd w seq new)
    have "seq + 1 \<noteq> sq" if "ls_r s r = RFields sq acc i" for r sq acc i
      using held [OF that] W upd_odd counter_odd by auto
    then have "reader_ok (ls @ [l]) (ls_mem s') (ls_r s r)" for r
      using upd_odd by (intro reader_ok_mem [OF R]) auto
    then show ?thesis
      using W upd_odd by (simp add: lock_inv_def)
  next
    case (upd_field w seq new i)
    have "st_seq (ls_mem s) \<noteq> sq" if "ls_r s r = RFields sq acc i" for r sq acc i
      using held [OF that] W upd_field counter_odd by auto
    then have "reader_ok (ls @ [l]) (ls_mem s') (ls_r s r)" for r
      using upd_field by (intro reader_ok_mem [OF R]) auto
    then show ?thesis
      using W upd_field agree_copy by (simp add: lock_inv_def)
  next
    case (upd_even w seq new)
    have "seq + 2 \<noteq> sq" if r: "ls_r s r = RFields sq acc i" for r sq acc i
      using held [OF r] W upd_even len counter_next by fastforce
    then have "reader_ok (ls @ [l]) (ls_mem s') (ls_r s r)" for r
      using upd_even by (intro reader_ok_mem [OF R]) auto
    then show ?thesis
      using W upd_even by (simp add: lock_inv_def agree_6 algebra_simps)
  next
    case (read_load r)
    have "st_seq (ls_mem s) = of_nat (2 * length (updates ls))"
      using W read_load(4) even_of_nat_word [of "2 * length (updates ls) + 1"]
      by (cases "ls_w s 0") (auto simp: even_word_iff add.commute)
    then show ?thesis
      using quietw R quiet read_load by (auto simp: lock_inv_def)
  next
    case (read_field r seq acc i)
    then have "reader_ok ls (ls_mem s) (RFields seq (copy_field i (st_cells (ls_mem s)) acc) (Suc i))"
      using R [of r] agree_copy by auto
    then show ?thesis
      using quietw R quiet read_field by (auto simp: lock_inv_def simp del: reader_ok.simps)
  next
    case (read_ok r seq acc)
    then show ?thesis
      using quietw R quiet by (auto simp: lock_inv_def)
  next
    case (read_retry r seq acc)
    then show ?thesis
      using quietw R quiet by (auto simp: lock_inv_def)
  next
    case (read_odd r)
    then show ?thesis
      using quietw R quiet by (auto simp: lock_inv_def)
  qed
qed

lemma lock_trace_inv:
  assumes "trace (lock_step 1) lock_start ls s" "length (updates ls) < 2 ^ 63"
  shows "lock_inv ls s"
proof -
  have "length (updates ls) < 2 ^ 63 \<longrightarrow> lock_inv ls s"
  proof (rule trace_invariant [OF assms(1)])
    show "length (updates []) < 2 ^ 63 \<longrightarrow> lock_inv [] lock_start"
      by (simp add: lock_inv_def lock_start_def risk_state_new_def)
  next
    fix ls s l s'
    assume "length (updates ls) < 2 ^ 63 \<longrightarrow> lock_inv ls s" "lock_step 1 s l s'"
    then show "length (updates (ls @ [l])) < 2 ^ 63 \<longrightarrow> lock_inv (ls @ [l]) s'"
      using lock_step_inv [of ls s l s'] by auto
  qed
  then show ?thesis
    using assms(2) by blast
qed

subsection \<open>Schedules\<close>

text \<open>A schedule says which thread moves next; \<open>lock_do\<close> computes the step. Used for concrete runs.\<close>

datatype lock_act = Begin nat account_risk_snapshot | Write nat | Read nat

definition lock_do :: "lock_act \<Rightarrow> lock_sys \<Rightarrow> (lock_label \<times> lock_sys) option" where
  "lock_do a s =
     (let m = ls_mem s in case a of
        Begin w new \<Rightarrow> (case ls_w s w of WIdle \<Rightarrow> Some (Silent, s\<lparr>ls_w := (ls_w s)(w := WLoaded (st_seq m) new)\<rparr>) | _ \<Rightarrow> None)
      | Write w \<Rightarrow>
          (case ls_w s w of
             WIdle \<Rightarrow> None
           | WLoaded seq new \<Rightarrow> Some (Silent, s\<lparr>ls_mem := m\<lparr>st_seq := seq + 1\<rparr>, ls_w := (ls_w s)(w := WFields seq new 0)\<rparr>)
           | WFields seq new i \<Rightarrow>
               if i < 6 then Some (Silent, s\<lparr>ls_mem := m\<lparr>st_cells := copy_field i new (st_cells m)\<rparr>, ls_w := (ls_w s)(w := WFields seq new (Suc i))\<rparr>)
               else if i = 6 then Some (Updated new, s\<lparr>ls_mem := m\<lparr>st_seq := seq + 2\<rparr>, ls_w := (ls_w s)(w := WIdle)\<rparr>)
               else None)
      | Read r \<Rightarrow>
          (case ls_r s r of
             RIdle \<Rightarrow>
               if st_seq m mod 2 \<noteq> 0 then Some (Retried r, s)
               else Some (Silent, s\<lparr>ls_r := (ls_r s)(r := RFields (st_seq m) snapshot_default 0)\<rparr>)
           | RFields seq acc i \<Rightarrow>
               if i < 6 then Some (Silent, s\<lparr>ls_r := (ls_r s)(r := RFields seq (copy_field i (st_cells m) acc) (Suc i))\<rparr>)
               else if i = 6 then
                 (if st_seq m = seq then Some (Returned r acc, s\<lparr>ls_r := (ls_r s)(r := RIdle)\<rparr>)
                  else Some (Retried r, s\<lparr>ls_r := (ls_r s)(r := RIdle)\<rparr>))
               else None))"

fun act_writer :: "lock_act \<Rightarrow> nat" where
  "act_writer (Begin w _) = w"
| "act_writer (Write w) = w"
| "act_writer (Read _) = 0"

lemma lock_do_step:
  assumes "lock_do a s = Some (l, s')" "act_writer a < n"
  shows "lock_step n s l s'"
proof (cases a)
  case (Begin w new)
  then show ?thesis
    using assms by (auto simp: lock_do_def Let_def split: writer_pc.splits intro: upd_load)
next
  case (Write w)
  then show ?thesis
    using assms by (auto simp: lock_do_def Let_def split: writer_pc.splits if_splits intro: upd_odd upd_field upd_even)
next
  case (Read r)
  then show ?thesis
    using assms by (auto simp: lock_do_def Let_def split: reader_pc.splits if_splits
        intro: read_odd [simplified] read_load [OF _ even_iff_mod_2_eq_zero [THEN iffD1]] read_field read_ok read_retry)
qed

fun lock_run :: "lock_act list \<Rightarrow> lock_sys \<Rightarrow> (lock_label list \<times> lock_sys) option" where
  "lock_run [] s = Some ([], s)"
| "lock_run (a # as) s = do { (l, s) \<leftarrow> lock_do a s; (ls, s) \<leftarrow> lock_run as s; Some (l # ls, s) }"

lemma lock_run_trace:
  "lock_run as s = Some (ls, s') \<Longrightarrow> \<forall>a \<in> set as. act_writer a < n \<Longrightarrow> trace (lock_step n) s ls s'"
proof (induction as arbitrary: s ls)
  case (Cons a as)
  then obtain l sx lx where "lock_do a s = Some (l, sx)" "lock_run as sx = Some (lx, s')" "ls = l # lx"
    by (auto simp: bind_eq_Some_conv split: prod.splits)
  then show ?case
    using Cons lock_do_step [of a s l sx n] by (auto intro: trace_Cons)
qed auto

definition snap :: "i64 \<Rightarrow> i64 \<Rightarrow> account_risk_snapshot" where
  "snap bal mgn = \<lparr>balance = bal, used_margin = mgn, frozen = False, halted = False, position = 0, open_order_count = 0\<rparr>"

subsection \<open>What readers see\<close>

text \<open>C16: Reads of the seqlock are atomic. In every interleaving of one writer with any number of readers (up to
  \<open>2 ^ 63\<close> updates), a snapshot that \<open>read\<close> returns is the value of the last update completed at that moment;
  in particular its six fields come from one update.\<close>

theorem seqlock_reads_atomic:
  assumes "trace (lock_step 1) lock_start ls s" "length (updates ls) < 2 ^ 63" "lock_step 1 s (Returned r v) s'"
  shows "v = latest ls"
proof -
  note inv = lock_trace_inv [OF assms(1,2)]
  obtain seq where pc: "ls_r s r = RFields seq v 6" "st_seq (ls_mem s) = seq"
    using assms(3) by (cases rule: lock_step.cases) auto
  have R: "reader_ok ls (ls_mem s) (RFields seq v 6)"
    using inv pc(1) unfolding lock_inv_def by metis
  then have v: "v = st_cells (ls_mem s)" and "\<exists>m. seq = of_nat (2 * m)"
    using pc(2) by (auto simp: agree_6)
  moreover have "writer_ok ls (ls_mem s) (ls_w s 0)"
    using inv by (simp add: lock_inv_def)
  ultimately show ?thesis
    using pc(2) counter_odd by (cases "ls_w s 0") auto
qed

theorem seqlock_reads_atomic_witness:
  "\<exists>ls s s'. trace (lock_step 1) lock_start ls s \<and> lock_step 1 s (Returned 0 (snap 5 7)) s' \<and> latest ls = snap 5 7"
proof -
  let ?as = "Begin 0 (snap 5 7) # replicate 8 (Write 0) @ replicate 7 (Read 0)"
  have "map_option (\<lambda>(ls, s). (map_option fst (lock_do (Read 0) s), length (updates ls))) (lock_run ?as lock_start) =
      Some (Some (Returned 0 (snap 5 7)), 1)"
    by code_simp
  then obtain ls s s' where r: "lock_run ?as lock_start = Some (ls, s)" "lock_do (Read 0) s = Some (Returned 0 (snap 5 7), s')"
    "length (updates ls) < 2 ^ 63"
    by (auto split: prod.splits)
  have t: "trace (lock_step 1) lock_start ls s"
    by (rule lock_run_trace [OF r(1)]) auto
  moreover have "lock_step 1 s (Returned 0 (snap 5 7)) s'"
    by (rule lock_do_step [OF r(2)]) simp
  ultimately show ?thesis
    using seqlock_reads_atomic [OF t r(3)] by metis
qed

text \<open>A reader that runs alone over a quiet memory.\<close>

lemma lock_run_append:
  "lock_run as s = Some (ls, sx) \<Longrightarrow> lock_run bs sx = Some (ls', s') \<Longrightarrow> lock_run (as @ bs) s = Some (ls @ ls', s')"
  by (induction as arbitrary: s ls) (auto simp: bind_eq_Some_conv split: prod.splits)

lemma lock_run_Cons: "lock_do a s = Some (l, sx) \<Longrightarrow> lock_run as sx = Some (ls, s') \<Longrightarrow> lock_run (a # as) s = Some (l # ls, s')"
  by simp

lemma lock_run_one: "lock_do a s = Some (l, s') \<Longrightarrow> lock_run [a] s = Some ([l], s')"
  by simp

lemma read_finish:
  assumes "ls_r s r = RFields seq acc i" "i \<le> 6"
  shows "\<exists>acc' s'. lock_run (replicate (6 - i) (Read r)) s = Some (replicate (6 - i) Silent, s') \<and>
    ls_r s' r = RFields seq acc' 6 \<and> ls_mem s' = ls_mem s \<and> (agree i acc (st_cells (ls_mem s)) \<longrightarrow> acc' = st_cells (ls_mem s))"
  using assms
proof (induction "6 - i" arbitrary: s acc i)
  case 0
  then show ?case
    by (auto simp: agree_6)
next
  case (Suc k)
  let ?s = "s\<lparr>ls_r := (ls_r s)(r := RFields seq (copy_field i (st_cells (ls_mem s)) acc) (Suc i))\<rparr>"
  have i: "i < 6" and k: "k = 6 - Suc i"
    using Suc by auto
  have d: "lock_do (Read r) s = Some (Silent, ?s)"
    using Suc(3) i by (simp add: lock_do_def Let_def)
  have "\<exists>acc' s'. lock_run (replicate k (Read r)) ?s = Some (replicate k Silent, s') \<and> ls_r s' r = RFields seq acc' 6 \<and>
      ls_mem s' = ls_mem ?s \<and> (agree (Suc i) (copy_field i (st_cells (ls_mem s)) acc) (st_cells (ls_mem ?s)) \<longrightarrow> acc' = st_cells (ls_mem ?s))"
    unfolding k by (rule Suc(1) [OF k]) (use i in auto)
  then show ?case
    unfolding Suc(2) [symmetric] using d i agree_copy by fastforce
qed

lemma read_alone:
  assumes "ls_r s r = RIdle" "st_seq (ls_mem s) mod 2 = 0"
  shows "\<exists>s'. lock_run (replicate 8 (Read r)) s = Some (replicate 7 Silent @ [Returned r (st_cells (ls_mem s))], s')"
proof -
  let ?s = "s\<lparr>ls_r := (ls_r s)(r := RFields (st_seq (ls_mem s)) snapshot_default 0)\<rparr>"
  have a: "lock_do (Read r) s = Some (Silent, ?s)"
    using assms by (simp add: lock_do_def Let_def)
  obtain s1 where b: "lock_run (replicate 6 (Read r)) ?s = Some (replicate 6 Silent, s1)"
    "ls_r s1 r = RFields (st_seq (ls_mem s)) (st_cells (ls_mem s)) 6" "ls_mem s1 = ls_mem s"
    using read_finish [of ?s r "st_seq (ls_mem s)" snapshot_default 0] by auto
  have c: "lock_do (Read r) s1 = Some (Returned r (st_cells (ls_mem s)), s1\<lparr>ls_r := (ls_r s1)(r := RIdle)\<rparr>)"
    using b(2,3) by (simp add: lock_do_def Let_def)
  have eight: "replicate 8 (Read r) = Read r # replicate 6 (Read r) @ [Read r]"
    "replicate 7 Silent @ [Returned r (st_cells (ls_mem s))] = Silent # replicate 6 Silent @ [Returned r (st_cells (ls_mem s))]"
    by (simp_all add: numeral_eq_Suc)
  show ?thesis
    unfolding eight using lock_run_Cons [OF a lock_run_append [OF b(1) lock_run_one [OF c]]] by blast
qed

text \<open>C17: Readers make progress. From every reachable state in which the writer is between updates, a reader that
  runs undisturbed returns the value of the last update, after at most 15 of its own steps, wherever in
  \<open>read\<close> it was.\<close>

theorem seqlock_reader_progress:
  assumes "trace (lock_step 1) lock_start ls s" "length (updates ls) < 2 ^ 63" "ls_w s 0 = WIdle"
  shows "\<exists>k ls' s'. k \<le> 15 \<and> lock_run (replicate k (Read r)) s = Some (ls' @ [Returned r (latest ls)], s')"
proof -
  have inv: "lock_inv ls s"
    by (rule lock_trace_inv [OF assms(1,2)])
  have w: "writer_ok ls (ls_mem s) WIdle"
    using inv assms(3) unfolding lock_inv_def by metis
  then have m: "st_seq (ls_mem s) mod 2 = 0" "st_cells (ls_mem s) = latest ls"
    using even_of_nat_word [of "2 * length (updates ls)"] by (simp_all add: even_word_iff)
  show ?thesis
  proof (cases "ls_r s r")
    case RIdle
    then show ?thesis
      using read_alone [OF RIdle m(1)] m(2) by (intro exI [of _ 8] exI [of _ "replicate 7 Silent"]) auto
  next
    case (RFields seq acc i)
    have R: "reader_ok ls (ls_mem s) (RFields seq acc i)"
      using inv RFields unfolding lock_inv_def by metis
    then have i: "i \<le> 6"
      by simp
    obtain acc' s1 where s1: "lock_run (replicate (6 - i) (Read r)) s = Some (replicate (6 - i) Silent, s1)"
      "ls_r s1 r = RFields seq acc' 6" "ls_mem s1 = ls_mem s" "agree i acc (st_cells (ls_mem s)) \<longrightarrow> acc' = st_cells (ls_mem s)"
      using read_finish [OF RFields i] by blast
    show ?thesis
    proof (cases "st_seq (ls_mem s) = seq")
      case True
      have "lock_do (Read r) s1 = Some (Returned r (latest ls), s1\<lparr>ls_r := (ls_r s1)(r := RIdle)\<rparr>)"
        using s1 True R m(2) by (simp add: lock_do_def Let_def)
      then have "lock_run (replicate (6 - i) (Read r) @ [Read r]) s =
          Some (replicate (6 - i) Silent @ [Returned r (latest ls)], s1\<lparr>ls_r := (ls_r s1)(r := RIdle)\<rparr>)"
        by (rule lock_run_append [OF s1(1) lock_run_one])
      moreover have "replicate (6 - i) (Read r) @ [Read r] = replicate (7 - i) (Read r)"
        using i by (simp add: replicate_append_same Suc_diff_le flip: replicate_Suc)
      ultimately show ?thesis
        by (intro exI [of _ "7 - i"] exI [of _ "replicate (6 - i) Silent"]) auto
    next
      case False
      let ?s2 = "s1\<lparr>ls_r := (ls_r s1)(r := RIdle)\<rparr>"
      have d: "lock_do (Read r) s1 = Some (Retried r, ?s2)"
        using s1(2,3) False by (simp add: lock_do_def Let_def)
      obtain s3 where s3: "lock_run (replicate 8 (Read r)) ?s2 = Some (replicate 7 Silent @ [Returned r (latest ls)], s3)"
        using read_alone [of ?s2 r] s1(3) m by auto
      have "replicate (15 - i) (Read r) = replicate (6 - i) (Read r) @ Read r # replicate 8 (Read r)"
        using i by (simp flip: replicate_Suc replicate_add)
      then have "lock_run (replicate (15 - i) (Read r)) s =
          Some ((replicate (6 - i) Silent @ Retried r # replicate 7 Silent) @ [Returned r (latest ls)], s3)"
        using lock_run_append [OF s1(1) lock_run_Cons [OF d s3]] by simp
      then show ?thesis
        by (intro exI [of _ "15 - i"] exI [of _ "replicate (6 - i) Silent @ Retried r # replicate 7 Silent"]) auto
    qed
  qed
qed

theorem seqlock_reader_progress_witness:
  "\<exists>k ls' s'. k \<le> 15 \<and> lock_run (replicate k (Read 3)) lock_start = Some (ls' @ [Returned 3 snapshot_default], s')"
  using seqlock_reader_progress [OF trace_Nil, of 3] by (simp add: lock_start_def)

text \<open>The single writer is needed. With two threads in \<open>update\<close> on one account, one storing \<open>snap 1 1\<close> and the
  other \<open>snap 2 2\<close>, a reader can return the mixture \<open>snap 2 1\<close>: both load the counter 0, the first finishes
  and makes it 2 while the second has stored one field.\<close>

fun act_value :: "lock_act \<Rightarrow> account_risk_snapshot option" where
  "act_value (Begin _ v) = Some v"
| "act_value _ = None"

theorem two_writers_tear:
  "\<exists>as ls s s'. (\<forall>a \<in> set as. act_value a \<in> {None, Some (snap 1 1), Some (snap 2 2)}) \<and>
     lock_run as lock_start = Some (ls, s) \<and> trace (lock_step 2) lock_start ls s \<and>
     lock_step 2 s (Returned 0 (snap 2 1)) s'"
proof -
  let ?as = "[Begin 0 (snap 1 1), Begin 1 (snap 2 2)] @ replicate 7 (Write 0) @ [Write 1, Write 0, Write 1] @ replicate 7 (Read 0)"
  have "map_option (\<lambda>(ls, s). map_option fst (lock_do (Read 0) s)) (lock_run ?as lock_start) =
      Some (Some (Returned 0 (snap 2 1)))"
    by code_simp
  then obtain ls s s' where r: "lock_run ?as lock_start = Some (ls, s)" "lock_do (Read 0) s = Some (Returned 0 (snap 2 1), s')"
    by (auto split: prod.splits)
  have "trace (lock_step 2) lock_start ls s"
    by (rule lock_run_trace [OF r(1)]) auto
  moreover have "lock_step 2 s (Returned 0 (snap 2 1)) s'"
    by (rule lock_do_step [OF r(2)]) simp
  ultimately show ?thesis
    using r(1) by (intro exI [of _ ?as] exI [of _ ls] exI [of _ s] exI [of _ s']) auto
qed

subsection \<open>The setters against another writer\<close>

lemma set_frozen_quiet:
  "quiet st \<Longrightarrow> set_frozen st v = Some (state_update st ((st_cells st)\<lparr>frozen := v\<rparr>))"
  by (cases "st_cells st") (simp add: set_frozen_def)

text \<open>The setters read the whole state and then write the whole state back, so they preserve what another thread writes
  only if it does not write in between. In this run no two updates overlap: thread 1 reads for its \<open>set_frozen(true)\<close>, thread
  0 stores \<open>snap 9 9\<close>, thread 1 writes back what it read with the flag set. The update of thread 0 is lost.\<close>

theorem set_frozen_loses_update:
  "\<exists>ls s s'. trace (lock_step 2) lock_start ls s \<and>
     filter (\<lambda>l. l \<noteq> Silent) ls = [Returned 0 snapshot_default, Updated (snap 9 9), Updated (snapshot_default\<lparr>frozen := True\<rparr>)] \<and>
     lock_step 2 s (Returned 0 (snapshot_default\<lparr>frozen := True\<rparr>)) s'"
proof -
  let ?v = "\<lparr>balance = 0, used_margin = 0, frozen = True, halted = False, position = 0, open_order_count = 0\<rparr> :: account_risk_snapshot"
  let ?as = "replicate 8 (Read 0) @ Begin 0 (snap 9 9) # replicate 8 (Write 0) @ Begin 1 ?v # replicate 8 (Write 1) @ replicate 7 (Read 0)"
  have v: "snapshot_default\<lparr>frozen := True\<rparr> = ?v"
    by (simp add: snapshot_default_def)
  have "map_option (\<lambda>(ls, s). (filter (\<lambda>l. l \<noteq> Silent) ls, map_option fst (lock_do (Read 0) s))) (lock_run ?as lock_start) =
      Some ([Returned 0 snapshot_default, Updated (snap 9 9), Updated ?v], Some (Returned 0 ?v))"
    by code_simp
  then obtain ls s s' where r: "lock_run ?as lock_start = Some (ls, s)" "lock_do (Read 0) s = Some (Returned 0 ?v, s')"
    "filter (\<lambda>l. l \<noteq> Silent) ls = [Returned 0 snapshot_default, Updated (snap 9 9), Updated ?v]"
    by (auto split: prod.splits)
  have "trace (lock_step 2) lock_start ls s"
    by (rule lock_run_trace [OF r(1)]) auto
  moreover have "lock_step 2 s (Returned 0 ?v) s'"
    by (rule lock_do_step [OF r(2)]) simp
  ultimately show ?thesis
    using r(3) unfolding v by blast
qed

end
