(* ===== verification/Channel.thy ===== *)
theory Channel
  imports Ring_Buffer "HOL-Library.Sublist"
begin

text \<open>
  A ring seen from one of its ends while the other end runs. A \<^emph>\<open>channel\<close> is a ring whose consumer takes some items before
  each push of the producer; an \<^emph>\<open>inbox\<close> is a ring whose producer offers some items before each pop of the consumer. How many is
  a plan, an arbitrary function of the number of operations so far, so that a statement about every plan is one about every
  schedule. The loop that spins on a full ring returns when the consumer keeps taking items.
\<close>

subsection \<open>The contract of a producer's end\<close>

text \<open>\<open>loop { match q.try_push(item) { Ok(()) => break, Err(_) => spin_loop() } }\<close>\<close>

partial_function (option) push_spin :: "('q \<Rightarrow> 'a \<Rightarrow> (('a + unit) \<times> 'q) option) \<Rightarrow> 'q \<Rightarrow> 'a \<Rightarrow> 'q option" where
  [code]: "push_spin push q x = do {
     (r, q) \<leftarrow> push q x;
     case r of Inr _ \<Rightarrow> Some q | Inl _ \<Rightarrow> push_spin push q x
   }"

text \<open>\<open>sent q es\<close>: the items accepted so far are \<open>es\<close>.\<close>

locale message_queue =
  fixes push :: "'q \<Rightarrow> 'a \<Rightarrow> (('a + unit) \<times> 'q) option"
    and sent :: "'q \<Rightarrow> 'a list \<Rightarrow> bool"
  assumes push_sent: "sent q es \<Longrightarrow> \<exists>r q'. push q x = Some (r, q') \<and>
      (case r of Inr _ \<Rightarrow> sent q' (es @ [x]) | Inl y \<Rightarrow> y = x \<and> sent q' es)"

text \<open>A queue whose consumer keeps taking items: it refuses the producer at most \<open>delay\<close> times in a row.\<close>

locale live_queue = message_queue push sent
  for push :: "'q \<Rightarrow> 'a \<Rightarrow> (('a + unit) \<times> 'q) option" and sent +
  fixes live :: "'q \<Rightarrow> bool"
    and delay :: "'q \<Rightarrow> nat"
  assumes push_live: "sent q es \<Longrightarrow> live q \<Longrightarrow> push q x = Some (r, q') \<Longrightarrow> live q'"
    and push_delay: "sent q es \<Longrightarrow> live q \<Longrightarrow> push q x = Some (Inl y, q') \<Longrightarrow> delay q' < delay q"
begin

lemma push_spin_sent:
  "sent q es \<Longrightarrow> live q \<Longrightarrow> \<exists>q'. push_spin push q x = Some q' \<and> sent q' (es @ [x]) \<and> live q'"
proof (induction "delay q" arbitrary: q rule: less_induct)
  case less
  obtain r q1 where q1: "push q x = Some (r, q1)" "case r of Inr _ \<Rightarrow> sent q1 (es @ [x]) | Inl y \<Rightarrow> y = x \<and> sent q1 es"
    using push_sent [OF less.prems(1)] by blast
  note live = push_live [OF less.prems q1(1)]
  show ?case
  proof (cases r)
    case (Inl y)
    have "delay q1 < delay q"
      using push_delay [OF less.prems] q1(1) Inl by blast
    then show ?thesis
      using less.hyps [of q1] q1 live Inl by (simp add: push_spin.simps [of push q])
  next
    case (Inr u)
    then show ?thesis
      using q1 live by (simp add: push_spin.simps [of push q])
  qed
qed

end

subsection \<open>Channels\<close>

text \<open>The consumer takes \<open>ch_plan c 0\<close> items before the next push.\<close>

record 'a channel =
  ch_ring :: "'a spsc"
  ch_taken :: "'a list"
  ch_plan :: "nat \<Rightarrow> nat"

fun drain :: "u64 \<Rightarrow> nat \<Rightarrow> 'a spsc \<Rightarrow> 'a list \<Rightarrow> ('a spsc \<times> 'a list) option" where
  "drain cap 0 q taken = Some (q, taken)"
| "drain cap (Suc n) q taken = do {
     (r, q) \<leftarrow> spsc_try_pop cap q;
     case r of None \<Rightarrow> drain cap n q taken | Some x \<Rightarrow> drain cap n q (taken @ [x])
   }"

definition channel_push :: "u64 \<Rightarrow> 'a channel \<Rightarrow> 'a \<Rightarrow> (('a + unit) \<times> 'a channel) option" where
  "channel_push cap c x = do {
     (q, taken) \<leftarrow> drain cap (ch_plan c 0) (ch_ring c) (ch_taken c);
     (r, q) \<leftarrow> spsc_try_push cap q x;
     Some (r, \<lparr>ch_ring = q, ch_taken = taken, ch_plan = \<lambda>i. ch_plan c (Suc i)\<rparr>)
   }"

definition channel_sent :: "u64 \<Rightarrow> 'a channel \<Rightarrow> 'a list \<Rightarrow> bool" where
  "channel_sent cap c es \<longleftrightarrow> (\<exists>xs. spsc_repr cap (ch_ring c) xs \<and> es = ch_taken c @ xs)"

definition channel_new :: "u64 \<Rightarrow> (nat \<Rightarrow> nat) \<Rightarrow> 'a channel option" where
  "channel_new cap plan = map_option (\<lambda>q. \<lparr>ch_ring = q, ch_taken = [], ch_plan = plan\<rparr>) (spsc_queue cap)"

text \<open>The consumer never stops for good.\<close>

definition fair_plan :: "(nat \<Rightarrow> nat) \<Rightarrow> bool" where
  "fair_plan plan \<longleftrightarrow> (\<forall>n. \<exists>m\<ge>n. 0 < plan m)"

definition channel_live :: "'a channel \<Rightarrow> bool" where
  "channel_live c \<longleftrightarrow> fair_plan (ch_plan c)"

definition channel_delay :: "'a channel \<Rightarrow> nat" where
  "channel_delay c = (LEAST n. 0 < ch_plan c n)"

lemma drain_repr:
  "spsc_repr cap q xs \<Longrightarrow> \<exists>q'. drain cap n q taken = Some (q', taken @ take n xs) \<and> spsc_repr cap q' (drop n xs)"
proof (induction n arbitrary: q xs taken)
  case (Suc n)
  show ?case
  proof (cases xs)
    case Nil
    then have "spsc_try_pop cap q = Some (None, q)"
      using spsc.pop_empty Suc.prems by blast
    then show ?thesis
      using Suc.IH [OF Suc.prems] Nil by simp
  next
    case (Cons x ys)
    then obtain q' where "spsc_try_pop cap q = Some (Some x, q')" "spsc_repr cap q' ys"
      using spsc.pop_front [of cap q x ys] Suc.prems by auto
    then show ?thesis
      using Suc.IH [of q' ys "taken @ [x]"] Cons by simp
  qed
qed auto

lemma ring_push_cases:
  assumes "spsc_repr cap q xs"
  shows "length xs = unat cap \<and> spsc_try_push cap q x = Some (Inl x, q) \<or>
    length xs < unat cap \<and> (\<exists>q'. spsc_try_push cap q x = Some (Inr (), q') \<and> spsc_repr cap q' (xs @ [x]))"
proof (cases "length xs = unat cap")
  case True
  then show ?thesis
    using spsc.push_full [OF assms, of x] by simp
next
  case False
  then show ?thesis
    using spsc.push_room [OF assms, of x] spsc.bounded [OF assms] by simp
qed

text \<open>A push in full: what the consumer took, and then either the item is the last of the sent ones or the ring was full.\<close>

lemma channel_push_cases:
  assumes "channel_sent cap c es"
  obtains xs c' where "channel_push cap c x = Some (Inl x, c')" "channel_sent cap c' es" "ch_plan c' = (\<lambda>i. ch_plan c (Suc i))"
      "spsc_repr cap (ch_ring c) xs" "length xs - ch_plan c 0 = unat cap"
    | c' where "channel_push cap c x = Some (Inr (), c')" "channel_sent cap c' (es @ [x])" "ch_plan c' = (\<lambda>i. ch_plan c (Suc i))"
proof -
  obtain xs where xs: "spsc_repr cap (ch_ring c) xs" "es = ch_taken c @ xs"
    using assms by (auto simp: channel_sent_def)
  let ?n = "ch_plan c 0"
  obtain q where q: "drain cap ?n (ch_ring c) (ch_taken c) = Some (q, ch_taken c @ take ?n xs)" "spsc_repr cap q (drop ?n xs)"
    using drain_repr [OF xs(1)] by blast
  let ?c = "\<lambda>q. \<lparr>ch_ring = q, ch_taken = ch_taken c @ take ?n xs, ch_plan = \<lambda>i. ch_plan c (Suc i)\<rparr>"
  from ring_push_cases [OF q(2), of x] show thesis
  proof (elim disjE conjE exE)
    assume "length (drop ?n xs) = unat cap" "spsc_try_push cap q x = Some (Inl x, q)"
    then show thesis
      using q xs by (intro that(1) [of "?c q" xs]) (auto simp: channel_push_def channel_sent_def)
  next
    fix q'
    assume "spsc_try_push cap q x = Some (Inr (), q')" "spsc_repr cap q' (drop ?n xs @ [x])"
    then show thesis
      using q xs by (intro that(2) [of "?c q'"]) (auto simp: channel_push_def channel_sent_def intro!: exI [of _ "drop ?n xs @ [x]"])
  qed
qed

lemma channel_push_sent:
  assumes "channel_sent cap c es"
  shows "\<exists>r c'. channel_push cap c x = Some (r, c') \<and>
    (case r of Inr _ \<Rightarrow> channel_sent cap c' (es @ [x]) | Inl y \<Rightarrow> y = x \<and> channel_sent cap c' es)"
  by (cases rule: channel_push_cases [OF assms, of x]) simp_all

lemma fair_plan_Suc: "fair_plan plan \<Longrightarrow> fair_plan (\<lambda>i. plan (Suc i))"
  unfolding fair_plan_def
proof
  fix n
  assume "\<forall>n. \<exists>m\<ge>n. 0 < plan m"
  then obtain m where "Suc n \<le> m" "0 < plan m"
    by blast
  then show "\<exists>m\<ge>n. 0 < plan (Suc m)"
    by (cases m) auto
qed

lemma delay_Suc:
  assumes "fair_plan (ch_plan c)" "ch_plan c 0 = 0" "ch_plan c' = (\<lambda>i. ch_plan c (Suc i))"
  shows "channel_delay c' < channel_delay c"
proof -
  obtain n where n: "0 < ch_plan c n"
    using assms(1) by (auto simp: fair_plan_def)
  have "channel_delay c = Suc (channel_delay c')"
    unfolding channel_delay_def assms(3) using Least_Suc [of "\<lambda>n. 0 < ch_plan c n" n] n assms(2) by simp
  then show ?thesis
    by simp
qed

lemma channel_cap_pos: "channel_sent cap c es \<Longrightarrow> 0 < unat cap"
  by (auto simp: channel_sent_def spsc_repr_def spsc_inv_def power_of_two_pos)

interpretation chan: live_queue "channel_push cap" "channel_sent cap" channel_live channel_delay for cap :: u64
proof
  fix q :: "'a channel" and es x
  assume s: "channel_sent cap q es"
  then show "\<exists>r q'. channel_push cap q x = Some (r, q') \<and>
      (case r of Inr _ \<Rightarrow> channel_sent cap q' (es @ [x]) | Inl y \<Rightarrow> y = x \<and> channel_sent cap q' es)"
    by (rule channel_push_sent)
  assume live: "channel_live q"
  show "channel_live q'" if "channel_push cap q x = Some (r, q')" for r q'
    using that live fair_plan_Suc [of "ch_plan q"]
    by (cases rule: channel_push_cases [OF s, of x]) (auto simp: channel_live_def)
  show "channel_delay q' < channel_delay q" if p: "channel_push cap q x = Some (Inl y, q')" for y q'
  proof (cases rule: channel_push_cases [OF s, of x])
    case (1 xs c')
    have "ch_plan q 0 = 0"
      using 1(5) spsc.bounded [OF 1(4)] channel_cap_pos [OF s] by linarith
    then show ?thesis
      using delay_Suc [of q q'] live 1 p by (simp add: channel_live_def)
  qed (use p in simp)
qed

lemma channel_new_sent: "channel_new cap plan = Some c \<Longrightarrow> channel_sent cap c [] \<and> ch_plan c = plan"
  using spsc_new_inv by (fastforce simp: channel_new_def channel_sent_def spsc_repr_def)

lemma channel_new_live: "channel_new cap plan = Some c \<Longrightarrow> fair_plan plan \<Longrightarrow> channel_live c"
  using channel_new_sent by (fastforce simp: channel_live_def)

subsection \<open>Inboxes\<close>

text \<open>The producer offers the items of \<open>ib_plan b 0\<close> before the next pop; those that find the ring full are refused.\<close>

record 'a inbox =
  ib_ring :: "'a spsc"
  ib_pushed :: "'a list"
  ib_popped :: "'a list"
  ib_plan :: "nat \<Rightarrow> 'a list"

fun offer :: "u64 \<Rightarrow> 'a list \<Rightarrow> 'a spsc \<Rightarrow> 'a list \<Rightarrow> ('a spsc \<times> 'a list) option" where
  "offer cap [] q pushed = Some (q, pushed)"
| "offer cap (x # xs) q pushed = do {
     (r, q) \<leftarrow> spsc_try_push cap q x;
     case r of Inr _ \<Rightarrow> offer cap xs q (pushed @ [x]) | Inl _ \<Rightarrow> offer cap xs q pushed
   }"

definition inbox_pop :: "u64 \<Rightarrow> 'a inbox \<Rightarrow> ('a option \<times> 'a inbox) option" where
  "inbox_pop cap b = do {
     (q, pushed) \<leftarrow> offer cap (ib_plan b 0) (ib_ring b) (ib_pushed b);
     (r, q) \<leftarrow> spsc_try_pop cap q;
     Some (r, \<lparr>ib_ring = q, ib_pushed = pushed, ib_popped = ib_popped b @ (case r of None \<Rightarrow> [] | Some x \<Rightarrow> [x]),
               ib_plan = \<lambda>i. ib_plan b (Suc i)\<rparr>)
   }"

text \<open>The items accepted are those popped, then those in the ring.\<close>

definition inbox_ok :: "u64 \<Rightarrow> 'a inbox \<Rightarrow> bool" where
  "inbox_ok cap b \<longleftrightarrow> (\<exists>xs. spsc_repr cap (ib_ring b) xs \<and> ib_pushed b = ib_popped b @ xs)"

definition inbox_new :: "u64 \<Rightarrow> (nat \<Rightarrow> 'a list) \<Rightarrow> 'a inbox option" where
  "inbox_new cap plan = map_option (\<lambda>q. \<lparr>ib_ring = q, ib_pushed = [], ib_popped = [], ib_plan = plan\<rparr>) (spsc_queue cap)"

lemma offer_repr:
  "spsc_repr cap q xs \<Longrightarrow> pushed = popped @ xs \<Longrightarrow>
   \<exists>q' xs'. offer cap ys q pushed = Some (q', popped @ xs') \<and> spsc_repr cap q' xs' \<and> (\<exists>zs. xs' = xs @ zs \<and> set zs \<subseteq> set ys)"
proof (induction ys arbitrary: q xs pushed)
  case (Cons y ys)
  from ring_push_cases [OF Cons.prems(1), of y] show ?case
  proof (elim disjE conjE exE)
    assume "spsc_try_push cap q y = Some (Inl y, q)"
    then show ?thesis
      using Cons.IH [OF Cons.prems] by auto
  next
    fix q'
    assume q': "spsc_try_push cap q y = Some (Inr (), q')" "spsc_repr cap q' (xs @ [y])"
    then show ?thesis
      using Cons.IH [OF q'(2), of "pushed @ [y]"] Cons.prems(2) by fastforce
  qed
qed auto

lemma inbox_pop_ok:
  assumes "inbox_ok cap b"
  obtains r b' where "inbox_pop cap b = Some (r, b')" "inbox_ok cap b'"
    "ib_popped b' = ib_popped b @ (case r of None \<Rightarrow> [] | Some x \<Rightarrow> [x])"
    "set (ib_pushed b') \<subseteq> set (ib_pushed b) \<union> set (ib_plan b 0)" "ib_plan b' = (\<lambda>i. ib_plan b (Suc i))"
proof -
  obtain xs where xs: "spsc_repr cap (ib_ring b) xs" "ib_pushed b = ib_popped b @ xs"
    using assms by (auto simp: inbox_ok_def)
  obtain q ys zs where q: "offer cap (ib_plan b 0) (ib_ring b) (ib_pushed b) = Some (q, ib_popped b @ ys)" "spsc_repr cap q ys"
    "ys = xs @ zs" "set zs \<subseteq> set (ib_plan b 0)"
    using offer_repr [OF xs] by blast
  have sub: "set (ib_popped b @ ys) \<subseteq> set (ib_pushed b) \<union> set (ib_plan b 0)"
    using q(3,4) xs(2) by auto
  show thesis
  proof (cases ys)
    case Nil
    then show thesis
      using q(1,2) spsc.pop_empty [of cap q] sub by (intro that) (auto simp: inbox_pop_def inbox_ok_def)
  next
    case (Cons y zs)
    then obtain q' where "spsc_try_pop cap q = Some (Some y, q')" "spsc_repr cap q' zs"
      using spsc.pop_front [of cap q y zs] q(2) by auto
    then show thesis
      using q(1,2) Cons sub by (intro that) (auto simp: inbox_pop_def inbox_ok_def)
  qed
qed

lemma inbox_new_ok: "inbox_new cap plan = Some b \<Longrightarrow> inbox_ok cap b \<and> ib_popped b = []"
  using spsc_new_inv by (fastforce simp: inbox_new_def inbox_ok_def spsc_repr_def)

end
