(* ===== verification/Risk_Engine.thy ===== *)
theory Risk_Engine
  imports Core_Types Seqlock Channel "HOL-Library.AList" "HOL-Library.Multiset"
begin

text \<open>
  The crate \<open>risk-engine\<close>: limits and the static order check (\<open>config.rs\<close>), positions (\<open>position.rs\<close>), the
  gateway's tier-0 check (\<open>tier0.rs\<close>) and the risk shard that follows the fills (\<open>shard.rs\<close>).

  The shard keeps its positions in a \<open>HashMap\<close>. It is an association list with distinct keys, in the
  order the map iterates; where an insertion puts a new key is not specified by the language, so the
  parameter \<open>rehash\<close> stands for the reordering, of which only \<open>mset (rehash xs) = mset xs\<close> is used.
\<close>

subsection \<open>Limits and the static check\<close>

record risk_limits =
  max_order_notional :: i64
  max_position_qty :: i64
  max_unrealised_loss :: i64
  initial_margin_fraction :: i64
  maintenance_margin_fraction :: i64

definition risk_limits_default :: risk_limits where
  "risk_limits_default =
     \<lparr>max_order_notional = 10000000000, max_position_qty = 10000000000, max_unrealised_loss = 1000000000,
      initial_margin_fraction = 100000, maintenance_margin_fraction = 50000\<rparr>"

record shard_config =
  sc_limits :: risk_limits
  sc_account_count :: nat

definition shard_config_new :: "nat \<Rightarrow> shard_config" where
  "shard_config_new n = \<lparr>sc_limits = risk_limits_default, sc_account_count = n\<rparr>"

datatype rejection_reason =
    NotionalTooLarge
  | RiskInvalidQty
  | RiskInvalidPrice
  | PositionLimitExceeded
  | InsufficientMargin
  | AccountFrozen

definition order_notional :: "price \<Rightarrow> qty \<Rightarrow> i64" where
  "order_notional price q = i64_div (i64_saturating_mul price q) 100000000"

definition tier0_order_check :: "price \<Rightarrow> qty \<Rightarrow> risk_limits \<Rightarrow> rejection_reason + unit" where
  "tier0_order_check price q limits =
     (if sint (max_order_notional limits) < sint (order_notional price q) then Inl NotionalTooLarge
      else if q = 0 then Inl RiskInvalidQty
      else if sint price \<le> 0 then Inl RiskInvalidPrice
      else Inr ())"

text \<open>\<open>tier0::check\<close>. The read of the account state may spin; \<open>None\<close> is a read that does not return.\<close>

definition tier0_check :: "account_risk_state \<Rightarrow> risk_limits \<Rightarrow> price \<Rightarrow> qty \<Rightarrow> (rejection_reason + unit) option" where
  "tier0_check st limits price q = do {
     snapshot \<leftarrow> state_read st;
     Some (if frozen snapshot then Inl AccountFrozen
       else case tier0_order_check price q limits of
         Inl r \<Rightarrow> Inl r
       | Inr _ \<Rightarrow>
           (let required_margin = i64_div (i64_saturating_mul (order_notional price q) (initial_margin_fraction limits)) 1000000;
                available_margin = i64_saturating_sub (balance snapshot) (used_margin snapshot) in
            if sint available_margin < sint required_margin then Inl InsufficientMargin else Inr ()))
   }"

subsection \<open>Positions\<close>

record position =
  net_qty :: i64
  avg_entry_price :: i64
  realised_pnl :: i64

definition position_default :: position where
  "position_default = \<lparr>net_qty = 0, avg_entry_price = 0, realised_pnl = 0\<rparr>"

text \<open>\<open>abs\<close> leaves \<open>i64::MIN\<close> as it is in the release profile; a sum of two \<open>i128\<close> products wraps.\<close>

definition i64_abs :: "i64 \<Rightarrow> i64" where
  "i64_abs a = (if sint a < 0 then - a else a)"

definition i64_min_of :: "i64 \<Rightarrow> i64 \<Rightarrow> i64" where
  "i64_min_of a b = (if sint b < sint a then b else a)"

definition i128_wrap :: "int \<Rightarrow> int" where
  "i128_wrap x = (x + 2 ^ 127) mod 2 ^ 128 - 2 ^ 127"

definition signed_qty :: "side \<Rightarrow> qty \<Rightarrow> i64" where
  "signed_qty s q = (case s of Buy \<Rightarrow> q | Sell \<Rightarrow> - q)"

text \<open>The only panic of \<open>apply_fill\<close> is the division by a new quantity of zero.\<close>

definition apply_fill :: "position \<Rightarrow> side \<Rightarrow> price \<Rightarrow> qty \<Rightarrow> position option" where
  "apply_fill pos s price q =
     (let signed = signed_qty s q; prev_qty = net_qty pos; new_qty = prev_qty + signed in
      if prev_qty = 0 then Some (pos\<lparr>avg_entry_price := price, net_qty := new_qty\<rparr>)
      else if (0 < sint prev_qty) = (0 < sint signed) then
        (let numerator = i128_wrap (sint (avg_entry_price pos) * sint (i64_abs prev_qty) + sint price * uint q) in
         if i64_abs new_qty = 0 then None
         else Some (pos\<lparr>avg_entry_price := i64_of (numerator sdiv sint (i64_abs new_qty)), net_qty := new_qty\<rparr>))
      else
        (let close_qty = i64_min_of (i64_abs signed) (i64_abs prev_qty);
             direction = (if 0 < sint prev_qty then 1 else - 1);
             pnl_per_unit = (price - avg_entry_price pos) * direction;
             pnl_delta = i64_of ((sint pnl_per_unit * sint close_qty) sdiv 100000000);
             pos = pos\<lparr>realised_pnl := i64_saturating_add (realised_pnl pos) pnl_delta, net_qty := new_qty\<rparr> in
         Some (if new_qty = 0 then pos\<lparr>avg_entry_price := 0\<rparr>
               else if (0 < sint new_qty) \<noteq> (0 < sint prev_qty) then pos\<lparr>avg_entry_price := price\<rparr>
               else pos)))"

definition unrealised_pnl :: "position \<Rightarrow> price \<Rightarrow> i64" where
  "unrealised_pnl pos mark =
     (if net_qty pos = 0 then 0
      else i64_of ((sint (mark - avg_entry_price pos) * sint (i64_abs (net_qty pos))) sdiv 100000000) *
           (if 0 < sint (net_qty pos) then 1 else - 1))"

definition position_notional :: "position \<Rightarrow> price \<Rightarrow> i64" where
  "position_notional pos mark = i64_of ((sint mark * sint (i64_abs (net_qty pos))) sdiv 100000000)"

subsection \<open>The risk shard\<close>

type_synonym position_key = "account_id \<times> symbol"
type_synonym positions = "(position_key \<times> position) list"
type_synonym mark_prices = "symbol \<rightharpoonup> price"

record risk_shard =
  rs_owned :: "u64 \<times> u64"
  rs_positions :: positions
  rs_states :: account_risk_table
  rs_initial_deposits :: "i64 list"
  rs_config :: shard_config

definition shard_new :: "u64 \<times> u64 \<Rightarrow> shard_config \<Rightarrow> account_risk_table \<Rightarrow> risk_shard" where
  "shard_new owned config states =
     \<lparr>rs_owned = owned, rs_positions = [], rs_states = states,
      rs_initial_deposits = replicate (unat (snd owned - fst owned)) 0, rs_config = config\<rparr>"

definition owns :: "risk_shard \<Rightarrow> account_id \<Rightarrow> bool" where
  "owns sh acct \<longleftrightarrow> fst (rs_owned sh) \<le> acct \<and> acct < snd (rs_owned sh)"

definition local_idx :: "risk_shard \<Rightarrow> account_id \<Rightarrow> nat" where
  "local_idx sh acct = unat (acct - fst (rs_owned sh))"

definition seed_deposit :: "risk_shard \<Rightarrow> account_id \<Rightarrow> i64 \<Rightarrow> risk_shard option" where
  "seed_deposit sh acct amount = do {
     let idx = local_idx sh acct;
     _ \<leftarrow> list_get (rs_initial_deposits sh) idx;
     st \<leftarrow> table_get (rs_states sh) acct;
     s \<leftarrow> state_read st;
     Some (sh\<lparr>rs_initial_deposits := (rs_initial_deposits sh)[idx := amount],
              rs_states := table_put (rs_states sh) acct (state_update st (s\<lparr>balance := amount, used_margin := 0\<rparr>))\<rparr>)
   }"

text \<open>One position's share in \<open>recompute_margin\<close>, and the loop over the map.\<close>

definition margin_turn ::
  "risk_limits \<Rightarrow> mark_prices \<Rightarrow> account_id \<Rightarrow> position_key \<times> position \<Rightarrow> i64 \<times> i64 \<Rightarrow> i64 \<times> i64" where
  "margin_turn limits marks account = (\<lambda>((acct, symb), pos) (bal, mgn).
     if acct \<noteq> account then (bal, mgn)
     else
       let bal = i64_saturating_add bal (realised_pnl pos) in
       if net_qty pos = 0 then (bal, mgn)
       else
         let mark = (case marks symb of Some p \<Rightarrow> p | None \<Rightarrow> avg_entry_price pos);
             bal = i64_saturating_add bal (unrealised_pnl pos mark);
             margin_required = i64_div (i64_saturating_mul (position_notional pos mark) (maintenance_margin_fraction limits)) 1000000 in
         (bal, i64_saturating_add mgn margin_required))"

definition recompute_margin :: "risk_shard \<Rightarrow> account_id \<Rightarrow> mark_prices \<Rightarrow> (i64 \<times> i64) option" where
  "recompute_margin sh account marks = do {
     deposit \<leftarrow> list_get (rs_initial_deposits sh) (local_idx sh account);
     Some (fold (margin_turn (sc_limits (rs_config sh)) marks account) (rs_positions sh) (deposit, 0))
   }"

text \<open>\<open>positions.entry(key).or_default()\<close>, then the store through the reference.\<close>

definition set_position_at :: "(positions \<Rightarrow> positions) \<Rightarrow> positions \<Rightarrow> position_key \<Rightarrow> position \<Rightarrow> positions" where
  "set_position_at rehash ps key pos =
     (if map_of ps key = None then rehash ((key, pos) # ps) else AList.update key pos ps)"

definition position_at :: "positions \<Rightarrow> position_key \<Rightarrow> position" where
  "position_at ps key = (case map_of ps key of Some pos \<Rightarrow> pos | None \<Rightarrow> position_default)"

text \<open>One turn of the loop over maker and taker in \<open>process_event\<close>.\<close>

definition fill_turn ::
  "(positions \<Rightarrow> positions) \<Rightarrow> mark_prices \<Rightarrow> symbol \<Rightarrow> price \<Rightarrow> qty \<Rightarrow> account_id \<times> side \<Rightarrow>
   risk_shard \<times> inbound_command list \<Rightarrow> (risk_shard \<times> inbound_command list) option" where
  "fill_turn rehash marks symb price q = (\<lambda>(acct, s) (sh, cmds).
     if \<not> owns sh acct then Some (sh, cmds)
     else do {
       pos \<leftarrow> apply_fill (position_at (rs_positions sh) (acct, symb)) s price q;
       let sh = sh\<lparr>rs_positions := set_position_at rehash (rs_positions sh) (acct, symb) pos\<rparr>;
       (bal, mgn) \<leftarrow> recompute_margin sh acct marks;
       st \<leftarrow> table_get (rs_states sh) acct;
       s \<leftarrow> state_read st;
       let breach = sint bal < sint mgn;
       let st = state_update st (s\<lparr>balance := bal, used_margin := mgn, frozen := frozen s \<or> breach\<rparr>);
       Some (sh\<lparr>rs_states := table_put (rs_states sh) acct st\<rparr>,
             if breach then cmds @ [Liquidate symb acct] else cmds)
     })"

definition process_event ::
  "(positions \<Rightarrow> positions) \<Rightarrow> mark_prices \<Rightarrow> risk_shard \<Rightarrow> engine_event \<Rightarrow> (risk_shard \<times> inbound_command list) option" where
  "process_event rehash marks sh ev =
     (case ev of
        Trade t \<Rightarrow> do {
          r \<leftarrow> fill_turn rehash marks (tr_symbol t) (tr_price t) (tr_qty t) (tr_maker_acct t, tr_maker_side t) (sh, []);
          fill_turn rehash marks (tr_symbol t) (tr_price t) (tr_qty t) (tr_taker_acct t, opposite (tr_maker_side t)) r
        }
      | _ \<Rightarrow> Some (sh, []))"

text \<open>The inner loop of \<open>run_risk_shard\<close>: each command is offered to the outbound ring until it is taken.\<close>

fun push_commands ::
  "('q \<Rightarrow> inbound_command \<Rightarrow> ((inbound_command + unit) \<times> 'q) option) \<Rightarrow> 'q \<Rightarrow> inbound_command list \<Rightarrow> 'q option" where
  "push_commands push commands_out [] = Some commands_out"
| "push_commands push commands_out (cmd # cmds) = do {
     commands_out \<leftarrow> push_spin push commands_out cmd;
     push_commands push commands_out cmds
   }"

text \<open>The shard loop never returns in the source; here it runs for as many turns as \<open>inbound.try_pop()\<close> has results in \<open>polls\<close>,
  one per turn, \<open>None\<close> where nothing new was published. The outbound ring is the state \<open>commands_out\<close> with its \<open>try_push\<close>.\<close>

fun run_risk_shard ::
  "(positions \<Rightarrow> positions) \<Rightarrow> mark_prices \<Rightarrow> ('q \<Rightarrow> inbound_command \<Rightarrow> ((inbound_command + unit) \<times> 'q) option) \<Rightarrow>
   risk_shard \<Rightarrow> engine_event option list \<Rightarrow> 'q \<Rightarrow> (risk_shard \<times> 'q) option" where
  "run_risk_shard rehash marks push shard [] commands_out = Some (shard, commands_out)"
| "run_risk_shard rehash marks push shard (None # polls) commands_out =
     run_risk_shard rehash marks push shard polls commands_out"
| "run_risk_shard rehash marks push shard (Some event # polls) commands_out = do {
     (shard, cmds) \<leftarrow> process_event rehash marks shard event;
     commands_out \<leftarrow> push_commands push commands_out cmds;
     run_risk_shard rehash marks push shard polls commands_out
   }"

subsection \<open>Facts about positions\<close>

lemma apply_fill_net:
  "apply_fill pos s price q = Some pos' \<Longrightarrow> net_qty pos' = net_qty pos + signed_qty s q"
  by (auto simp: apply_fill_def Let_def split: if_splits)

lemma uint_i64_of: "uint (i64_of x) = x mod 2 ^ 64"
  by (simp add: i64_of_def unsigned_of_int take_bit_eq_mod)

lemma sint_eq_0: "sint (a :: i64) = 0 \<longleftrightarrow> a = 0"
  by (metis i64_of_def i64_of_sint of_int_0 signed_0)

lemma sint_add_nonzero:
  assumes "sint (a :: i64) + sint b \<noteq> 0" "\<bar>sint a + sint b\<bar> < 2 ^ 64"
  shows "a + b \<noteq> 0"
proof
  assume "a + b = 0"
  then have "uint (i64_of (sint a + sint b)) = 0"
    using i64_add_eq [of a b] by simp
  then have "(sint a + sint b) mod 2 ^ 64 = 0"
    by (simp only: uint_i64_of)
  then obtain k where "sint a + sint b = 2 ^ 64 * k"
    by auto
  then show False
    using assms by (cases "k = 0") (auto simp: abs_mult)
qed

lemma sint_signed_qty:
  assumes "q < 2 ^ 63"
  shows "sint (signed_qty s q) = (case s of Buy \<Rightarrow> int (unat q) | Sell \<Rightarrow> - int (unat q))"
proof -
  have u: "uint q < 2 ^ 63"
    using assms by (simp add: word_less_def)
  then have "in_i64 (uint q)" "in_i64 (- uint q)"
    using uint_ge_0 [of q] unfolding in_i64_def by linarith+
  moreover have "q = i64_of (uint q)" "- q = i64_of (- uint q)"
    by (simp_all add: i64_of_def)
  ultimately have "sint q = uint q" "sint (- q) = - uint q"
    by (metis sint_i64_of)+
  then show ?thesis
    by (cases s) (simp_all add: signed_qty_def)
qed

lemma apply_fill_total:
  assumes "q < 2 ^ 63"
  shows "\<exists>pos'. apply_fill pos s price q = Some pos'"
proof -
  let ?n = "net_qty pos" and ?d = "signed_qty s q"
  have u: "int (unat q) < 2 ^ 63"
    using assms by (simp add: word_less_def)
  have "?n + ?d \<noteq> 0" if n: "?n \<noteq> 0" and same: "(0 < sint ?n) = (0 < sint ?d)"
  proof (rule sint_add_nonzero)
    have ne: "sint ?n \<noteq> 0"
      using n by (simp add: sint_eq_0)
    have d: "sint ?d = (case s of Buy \<Rightarrow> int (unat q) | Sell \<Rightarrow> - int (unat q))"
      by (rule sint_signed_qty [OF assms])
    show "sint ?n + sint ?d \<noteq> 0"
      using ne same by (cases "0 < sint ?n") auto
    show "\<bar>sint ?n + sint ?d\<bar> < 2 ^ 64"
    proof -
      have "- (2 ^ 63) \<le> sint ?n" "sint ?n < 2 ^ 63"
        using sint_ge [of ?n] sint_lt [of ?n] by simp_all
      moreover obtain k :: int where "0 \<le> k" "k < 2 ^ 63" "sint ?d = k \<or> sint ?d = - k"
        using d u by (cases s) auto
      ultimately show ?thesis
        by auto
    qed
  qed
  moreover have "i64_abs x = 0 \<longleftrightarrow> x = 0" for x
    by (simp add: i64_abs_def)
  ultimately show ?thesis
    by (auto simp: apply_fill_def Let_def)
qed

subsection \<open>The shard's invariant\<close>

text \<open>Every owned account has a deposit slot and a state nobody else is writing, and a position is stored once.\<close>

definition shard_ok :: "risk_shard \<Rightarrow> bool" where
  "shard_ok sh \<longleftrightarrow> distinct (map fst (rs_positions sh)) \<and>
     (\<forall>acct. owns sh acct \<longrightarrow> local_idx sh acct < length (rs_initial_deposits sh) \<and>
        (\<exists>st. table_get (rs_states sh) acct = Some st \<and> quiet st))"

lemma shard_new_ok:
  assumes "fst owned \<le> snd owned" "unat (snd owned) \<le> table_capacity states" "\<And>st. st \<in> set states \<Longrightarrow> quiet st"
  shows "shard_ok (shard_new owned config states)"
proof -
  have "local_idx (shard_new owned config states) acct < unat (snd owned - fst owned)"
      "unat acct < length states" if "owns (shard_new owned config states) acct" for acct
  proof -
    have a: "fst owned \<le> acct" "acct < snd owned"
      using that by (simp_all add: owns_def shard_new_def)
    then have "acct - fst owned < snd owned - fst owned"
      by (simp add: word_less_nat_alt word_le_nat_alt unat_sub)
    then show "local_idx (shard_new owned config states) acct < unat (snd owned - fst owned)"
      by (simp add: local_idx_def shard_new_def word_less_nat_alt)
    show "unat acct < length states"
      using a assms(2) by (simp add: word_less_nat_alt table_capacity_def)
  qed
  then show ?thesis
    using assms(3) by (force simp: shard_ok_def shard_new_def table_get_def)
qed

text \<open>\<open>set_position_at\<close> is a map update, whatever the order.\<close>

lemma mset_map_of:
  assumes "mset xs = mset ys" "distinct (map fst ys)"
  shows "distinct (map fst xs)" "map_of xs = map_of ys"
proof -
  have m: "mset (map fst xs) = mset (map fst ys)"
    using assms(1) by simp
  show d: "distinct (map fst xs)"
    using assms(2) mset_eq_imp_distinct_iff [OF m] by blast
  show "map_of xs = map_of ys"
    using assms(1) d by (metis map_of_inject_set assms(2) set_mset_mset)
qed

lemma set_position_at_ok:
  assumes "\<And>xs. mset (rehash xs) = mset xs" "distinct (map fst ps)"
  shows "distinct (map fst (set_position_at rehash ps key pos))"
    "map_of (set_position_at rehash ps key pos) = (map_of ps)(key \<mapsto> pos)"
    "position_at (set_position_at rehash ps key pos) key' = (if key' = key then pos else position_at ps key')"
proof -
  have "distinct (map fst (set_position_at rehash ps key pos)) \<and>
      map_of (set_position_at rehash ps key pos) = (map_of ps)(key \<mapsto> pos)"
  proof (cases "map_of ps key")
    case None
    then have "distinct (map fst ((key, pos) # ps))"
      using assms(2) by (simp add: map_of_eq_None_iff)
    then show ?thesis
      using mset_map_of [OF assms(1)] None by (simp add: set_position_at_def)
  next
    case (Some p)
    then show ?thesis
      using assms(2) by (simp add: set_position_at_def update_conv' distinct_update)
  qed
  then show "distinct (map fst (set_position_at rehash ps key pos))"
    "map_of (set_position_at rehash ps key pos) = (map_of ps)(key \<mapsto> pos)"
    "position_at (set_position_at rehash ps key pos) key' = (if key' = key then pos else position_at ps key')"
    by (simp_all add: position_at_def)
qed

text \<open>What one turn of \<open>process_event\<close> does for an owned account.\<close>

lemma fill_turn_owned:
  assumes perm: "\<And>xs. mset (rehash xs) = mset xs" and ok: "shard_ok sh" and own: "owns sh acct" and q: "q < 2 ^ 63"
  shows "\<exists>pos bal mgn st st' sh'. apply_fill (position_at (rs_positions sh) (acct, symb)) s price q = Some pos \<and>
    recompute_margin (sh\<lparr>rs_positions := set_position_at rehash (rs_positions sh) (acct, symb) pos\<rparr>) acct marks = Some (bal, mgn) \<and>
    table_get (rs_states sh) acct = Some st \<and> quiet st \<and>
    st' = state_update st ((st_cells st)\<lparr>balance := bal, used_margin := mgn, frozen := frozen (st_cells st) \<or> sint bal < sint mgn\<rparr>) \<and>
    sh' = sh\<lparr>rs_positions := set_position_at rehash (rs_positions sh) (acct, symb) pos, rs_states := table_put (rs_states sh) acct st'\<rparr> \<and>
    fill_turn rehash marks symb price q (acct, s) (sh, cmds) =
      Some (sh', if sint bal < sint mgn then cmds @ [Liquidate symb acct] else cmds) \<and> shard_ok sh'"
proof -
  obtain pos where pos: "apply_fill (position_at (rs_positions sh) (acct, symb)) s price q = Some pos"
    using apply_fill_total [OF q] by blast
  let ?ps = "set_position_at rehash (rs_positions sh) (acct, symb) pos"
  let ?sh = "sh\<lparr>rs_positions := ?ps\<rparr>"
  have idx: "local_idx sh acct < length (rs_initial_deposits sh)"
    using ok own by (auto simp: shard_ok_def)
  obtain st where st: "table_get (rs_states sh) acct = Some st" "quiet st"
    using ok own by (auto simp: shard_ok_def)
  obtain bal mgn where m: "recompute_margin ?sh acct marks = Some (bal, mgn)"
    using idx by (cases "fold (margin_turn (sc_limits (rs_config sh)) marks acct) ?ps (rs_initial_deposits sh ! local_idx sh acct, 0)")
      (simp add: recompute_margin_def local_idx_def)
  let ?st = "state_update st ((st_cells st)\<lparr>balance := bal, used_margin := mgn, frozen := frozen (st_cells st) \<or> sint bal < sint mgn\<rparr>)"
  let ?sh' = "?sh\<lparr>rs_states := table_put (rs_states sh) acct ?st\<rparr>"
  have "distinct (map fst ?ps)"
    using set_position_at_ok(1) [OF perm] ok by (simp add: shard_ok_def)
  moreover have "unat acct < length (rs_states sh)"
    using st(1) by (simp add: table_get_def list_get_def split: if_splits)
  ultimately have "shard_ok ?sh'"
    using ok st(2) by (auto simp: shard_ok_def owns_def local_idx_def)
  then show ?thesis
    using pos m st own by (simp add: fill_turn_def Let_def)
qed

lemma fill_turn_foreign: "\<not> owns sh acct \<Longrightarrow> fill_turn rehash marks symb price q (acct, s) (sh, cmds) = Some (sh, cmds)"
  by (simp add: fill_turn_def)

end
