(* ===== verification/Risk_Props.thy ===== *)
theory Risk_Props
  imports Risk_Engine
begin

text \<open>
  The properties of the risk engine: the shard never panics on the events of the book, positions follow the
  fills and stay zero-sum, the entry price stays between the prices paid, a margin breach freezes and
  liquidates, and what the gateway's check lets through is within the limits.
\<close>

subsection \<open>Entry prices\<close>

lemma div_between:
  fixes x y :: int
  assumes "0 < y" "lo * y \<le> x" "x \<le> hi * y"
  shows "lo \<le> x div y \<and> x div y \<le> hi"
  using zdiv_mono1 [OF assms(2,1)] zdiv_mono1 [OF assms(3,1)] assms(1) by simp

lemma sdiv_between:
  fixes x y :: int
  assumes "0 < y" "lo * y \<le> x" "x \<le> hi * y"
  shows "lo \<le> x sdiv y \<and> x sdiv y \<le> hi"
proof (cases "0 \<le> x")
  case True
  then have "x sdiv y = x div y"
    using assms(1) by (cases "x = 0") (auto simp: signed_divide_int_def)
  then show ?thesis
    using div_between [OF assms] by simp
next
  case False
  then have "x sdiv y = - ((- x) div y)"
    using assms(1) by (simp add: signed_divide_int_def)
  then show ?thesis
    using div_between [of y "- hi" "- x" "- lo"] assms by auto
qed

lemma i128_wrap_id: "- (2 ^ 127) \<le> x \<Longrightarrow> x < 2 ^ 127 \<Longrightarrow> i128_wrap x = x"
  by (simp add: i128_wrap_def)

lemma sint_i64_abs: "sint a \<noteq> i64_min \<Longrightarrow> sint (i64_abs a) = \<bar>sint a\<bar>"
proof -
  assume a: "sint a \<noteq> i64_min"
  have "- a = i64_of (- sint a)"
    by (simp add: i64_of_def)
  moreover have "in_i64 (- sint a)"
    using sint_in_i64 [of a] a by (auto simp: in_i64_def)
  ultimately show ?thesis
    by (simp add: i64_abs_def sint_i64_of)
qed

text \<open>The weighted mean of two prices lies between them.\<close>

lemma mean_between:
  fixes a p n k :: int
  assumes "0 < n" "0 < k"
  shows "min a p * (n + k) \<le> a * n + p * k" "a * n + p * k \<le> max a p * (n + k)"
proof -
  have "min a p * n \<le> a * n" "min a p * k \<le> p * k" "a * n \<le> max a p * n" "p * k \<le> max a p * k"
    using assms by (auto intro: mult_right_mono)
  then show "min a p * (n + k) \<le> a * n + p * k" "a * n + p * k \<le> max a p * (n + k)"
    by (simp_all add: distrib_left)
qed

lemma mean_small:
  fixes a p n k :: int
  assumes "\<bar>a\<bar> \<le> 2 ^ 63" "\<bar>p\<bar> \<le> 2 ^ 63" "0 < n" "n < 2 ^ 63" "0 < k" "k < 2 ^ 63"
  shows "- (2 ^ 127) \<le> a * n + p * k" "a * n + p * k < 2 ^ 127"
proof -
  have "\<bar>a * n\<bar> \<le> 2 ^ 63 * (2 ^ 63 - 1)" "\<bar>p * k\<bar> \<le> 2 ^ 63 * (2 ^ 63 - 1)"
    unfolding abs_mult using assms by (intro mult_mono; simp)+
  moreover have "(2 ^ 63 * (2 ^ 63 - 1) :: int) + 2 ^ 63 * (2 ^ 63 - 1) < 2 ^ 127"
    by simp
  ultimately show "- (2 ^ 127) \<le> a * n + p * k" "a * n + p * k < 2 ^ 127"
    unfolding abs_le_iff by linarith+
qed

text \<open>C19: The average entry price is a price between what was paid before and now. For a fill below \<open>2 ^ 63\<close> that does not
  push the position out of \<open>i64\<close>, \<open>apply_fill\<close> returns, adds the signed quantity, and leaves an entry price that is 0 for
  a flat position and otherwise lies between the old entry price and the fill price.\<close>

theorem entry_price_between:
  assumes "q < 2 ^ 63" "q \<noteq> 0" "sint (net_qty pos) \<noteq> i64_min" "i64_min < sint (net_qty pos) + sint (signed_qty s q)"
    "sint (net_qty pos) + sint (signed_qty s q) \<le> i64_max"
  shows "\<exists>pos'. apply_fill pos s price q = Some pos' \<and>
    sint (net_qty pos') = sint (net_qty pos) + sint (signed_qty s q) \<and>
    (if net_qty pos' = 0 then net_qty pos \<noteq> 0 \<and> avg_entry_price pos' = 0
     else if net_qty pos = 0 then avg_entry_price pos' = price
     else min (sint (avg_entry_price pos)) (sint price) \<le> sint (avg_entry_price pos') \<and>
          sint (avg_entry_price pos') \<le> max (sint (avg_entry_price pos)) (sint price))"
proof -
  let ?n = "net_qty pos" and ?d = "signed_qty s q" and ?a = "avg_entry_price pos"
  obtain pos' where pos': "apply_fill pos s price q = Some pos'"
    using apply_fill_total [OF assms(1)] by blast
  have net: "net_qty pos' = ?n + ?d"
    by (rule apply_fill_net [OF pos'])
  have sn: "sint (?n + ?d) = sint ?n + sint ?d"
    using assms(4,5) by (simp only: i64_add_eq, intro sint_i64_of) (simp add: in_i64_def)
  have k: "uint q = \<bar>sint ?d\<bar>" "0 < \<bar>sint ?d\<bar>" "\<bar>sint ?d\<bar> < 2 ^ 63"
  proof -
    have "uint q \<noteq> 0" "uint q < 2 ^ 63"
      using assms(1,2) by (simp_all add: word_less_def uint_0_iff)
    then have "0 < uint q" "uint q < 2 ^ 63"
      using uint_ge_0 [of q] by linarith+
    then show "uint q = \<bar>sint ?d\<bar>" "0 < \<bar>sint ?d\<bar>" "\<bar>sint ?d\<bar> < 2 ^ 63"
      using sint_signed_qty [OF assms(1), of s] by (cases s; simp)+
  qed
  have d0: "?d \<noteq> 0"
    using k(2) by auto
  have same: "min (sint ?a) (sint price) \<le> sint (avg_entry_price pos') \<and> sint (avg_entry_price pos') \<le> max (sint ?a) (sint price)"
    if n0: "?n \<noteq> 0" and dir: "(0 < sint ?n) = (0 < sint ?d)"
  proof -
    let ?N = "\<bar>sint ?n\<bar>" and ?K = "\<bar>sint ?d\<bar>"
    let ?x = "sint ?a * ?N + sint price * ?K"
    have N: "0 < ?N" "?N < 2 ^ 63"
      using n0 sint_eq_0 [of ?n] sint_in_i64 [of ?n] assms(3) by (auto simp: in_i64_def abs_less_iff)
    have NK: "\<bar>sint ?n + sint ?d\<bar> = ?N + ?K"
      using dir by (cases "0 < sint ?n") auto
    have ab: "sint (i64_abs ?n) = ?N" "sint (i64_abs (?n + ?d)) = ?N + ?K"
      using sint_i64_abs assms(3,4) sn NK by simp_all
    have nz: "i64_abs (?n + ?d) \<noteq> 0"
      using ab(2) N k(2) by auto
    have bound: "\<bar>sint (w :: i64)\<bar> \<le> 2 ^ 63" for w
      using sint_in_i64 [of w] by (auto simp: in_i64_def)
    have "i128_wrap ?x = ?x"
      using mean_small [OF bound bound N k(2,3)] by (intro i128_wrap_id)
    then have avg: "avg_entry_price pos' = i64_of (?x sdiv (?N + ?K))"
      using pos' n0 dir nz ab k(1) by (auto simp: apply_fill_def Let_def)
    have "min (sint ?a) (sint price) \<le> ?x sdiv (?N + ?K) \<and> ?x sdiv (?N + ?K) \<le> max (sint ?a) (sint price)"
      using mean_between [OF N(1) k(2)] N k(2) by (intro sdiv_between) auto
    moreover from this have "in_i64 (?x sdiv (?N + ?K))"
      using sint_in_i64 [of ?a] sint_in_i64 [of price] by (auto simp: in_i64_def min_def max_def split: if_splits)
    ultimately show ?thesis
      by (simp add: avg sint_i64_of)
  qed
  have "if ?n + ?d = 0 then ?n \<noteq> 0 \<and> avg_entry_price pos' = 0 else if ?n = 0 then avg_entry_price pos' = price
     else min (sint ?a) (sint price) \<le> sint (avg_entry_price pos') \<and> sint (avg_entry_price pos') \<le> max (sint ?a) (sint price)"
  proof (cases "?n \<noteq> 0 \<and> (0 < sint ?n) = (0 < sint ?d)")
    case True
    moreover have "sint ?n + sint ?d \<noteq> 0"
      using True sint_eq_0 [of ?n] by (cases "0 < sint ?n") auto
    then have "?n + ?d \<noteq> 0"
      using sn by auto
    ultimately show ?thesis
      using same by simp
  next
    case False
    then show ?thesis
      using pos' d0 by (auto simp: apply_fill_def Let_def)
  qed
  then show ?thesis
    using pos' net sn by auto
qed

theorem entry_price_between_witness:
  "\<exists>pos'. apply_fill \<lparr>net_qty = 3, avg_entry_price = 100, realised_pnl = 0\<rparr> Buy 110 2 = Some pos' \<and>
     100 \<le> sint (avg_entry_price pos') \<and> sint (avg_entry_price pos') \<le> 110"
  using entry_price_between [of 2 "\<lparr>net_qty = 3, avg_entry_price = 100, realised_pnl = 0\<rparr>" Buy 110]
  by (auto simp: signed_qty_def split: if_splits)

subsection \<open>The shard follows the fills\<close>

definition trade_sane :: "engine_event \<Rightarrow> bool" where
  "trade_sane ev \<longleftrightarrow> (case ev of Trade t \<Rightarrow> tr_qty t < 2 ^ 63 | _ \<Rightarrow> True)"

lemma fill_turn_ok:
  assumes "\<And>xs. mset (rehash xs) = mset xs" "shard_ok sh" "q < 2 ^ 63"
  shows "\<exists>sh' cmds'. fill_turn rehash marks symb price q (acct, s) (sh, cmds) = Some (sh', cmds') \<and> shard_ok sh'"
  using fill_turn_owned [where rehash = rehash, OF assms(1,2) _ assms(3)] fill_turn_foreign assms(2)
  by (cases "owns sh acct") fastforce+

lemma process_event_ok:
  assumes "\<And>xs. mset (rehash xs) = mset xs" "shard_ok sh" "trade_sane ev"
  shows "\<exists>sh' cmds. process_event rehash marks sh ev = Some (sh', cmds) \<and> shard_ok sh'"
proof (cases ev)
  case (Trade t)
  then have q: "tr_qty t < 2 ^ 63"
    using assms(3) by (simp add: trade_sane_def)
  obtain shx cx where "fill_turn rehash marks (tr_symbol t) (tr_price t) (tr_qty t) (tr_maker_acct t, tr_maker_side t) (sh, []) = Some (shx, cx)"
    "shard_ok shx"
    using fill_turn_ok [where rehash = rehash, OF assms(1,2) q] by blast
  then show ?thesis
    using fill_turn_ok [where rehash = rehash, OF assms(1) _ q] Trade by (simp add: process_event_def)
qed (use assms(2) in \<open>simp_all add: process_event_def\<close>)

text \<open>What the shard makes of a sequence of events: its last state and the commands, in order.\<close>

fun shard_commands ::
  "(positions \<Rightarrow> positions) \<Rightarrow> mark_prices \<Rightarrow> risk_shard \<Rightarrow> engine_event list \<Rightarrow> (risk_shard \<times> inbound_command list) option" where
  "shard_commands rehash marks sh [] = Some (sh, [])"
| "shard_commands rehash marks sh (ev # evs) = do {
     (sh, cmds) \<leftarrow> process_event rehash marks sh ev;
     (sh, cmds') \<leftarrow> shard_commands rehash marks sh evs;
     Some (sh, cmds @ cmds')
   }"

definition events_of :: "engine_event option list \<Rightarrow> engine_event list" where
  "events_of polls = List.map_filter id polls"

lemma events_of_simps [simp]:
  "events_of [] = []" "events_of (None # ps) = events_of ps" "events_of (Some ev # ps) = ev # events_of ps"
  by (simp_all add: events_of_def List.map_filter_def)

text \<open>The shard over an outbound ring whose consumer keeps taking commands.\<close>

locale command_sink = live_queue push sent live delay
  for push :: "'q \<Rightarrow> inbound_command \<Rightarrow> ((inbound_command + unit) \<times> 'q) option"
    and sent :: "'q \<Rightarrow> inbound_command list \<Rightarrow> bool" and live :: "'q \<Rightarrow> bool" and delay :: "'q \<Rightarrow> nat"
begin

lemma push_commands_sent:
  "sent q es \<Longrightarrow> live q \<Longrightarrow> \<exists>q'. push_commands push q cmds = Some q' \<and> sent q' (es @ cmds) \<and> live q'"
proof (induction cmds arbitrary: q es)
  case (Cons cmd cmds)
  obtain q1 where "push_spin push q cmd = Some q1" "sent q1 (es @ [cmd])" "live q1"
    using push_spin_sent [OF Cons.prems] by blast
  then show ?case
    using Cons.IH [of q1 "es @ [cmd]"] by simp
qed simp

lemma shard_loop:
  assumes "\<And>xs. mset (rehash xs) = mset xs"
  shows "shard_ok sh \<Longrightarrow> \<forall>ev \<in> set (events_of polls). trade_sane ev \<Longrightarrow> sent q es \<Longrightarrow> live q \<Longrightarrow>
    \<exists>sh' q' cmds. run_risk_shard rehash marks push sh polls q = Some (sh', q') \<and> shard_ok sh' \<and>
      shard_commands rehash marks sh (events_of polls) = Some (sh', cmds) \<and> sent q' (es @ cmds) \<and> live q'"
proof (induction polls arbitrary: sh q es)
  case (Cons poll polls)
  show ?case
  proof (cases poll)
    case None
    then show ?thesis
      using Cons by simp
  next
    case (Some ev)
    obtain shx cx where x: "process_event rehash marks sh ev = Some (shx, cx)" "shard_ok shx"
      using process_event_ok [where rehash = rehash and ev = ev, OF assms Cons.prems(1)] Cons.prems(2) Some by force
    obtain qx where "push_commands push q cx = Some qx" "sent qx (es @ cx)" "live qx"
      using push_commands_sent [OF Cons.prems(3,4)] by blast
    then show ?thesis
      using Cons.IH [of shx qx "es @ cx"] Cons.prems(2) x Some by force
  qed
qed simp

end

interpretation sink: command_sink "channel_push cap" "channel_sent cap" channel_live channel_delay for cap :: u64
  by unfold_locales

text \<open>C20: The shard loop makes progress and loses no command. Over any results of its polls whose trades are below \<open>2 ^ 63\<close>,
  from a well-formed shard whose states nobody else writes, and with an outbound ring whose consumer never stops taking
  commands for good, every turn ends: no panic, and no endless spin on the states or on the ring. The shard stays
  well-formed, and what the ring has accepted since is exactly the commands of the polled events, in order, in whatever order
  the hash map iterates.\<close>

theorem risk_shard_total:
  assumes "\<And>xs. mset (rehash xs) = mset xs" "shard_ok sh" "\<forall>ev \<in> set (events_of polls). trade_sane ev"
    "channel_sent cap q es" "channel_live q"
  shows "\<exists>sh' q' cmds. run_risk_shard rehash marks (channel_push cap) sh polls q = Some (sh', q') \<and> shard_ok sh' \<and>
    shard_commands rehash marks sh (events_of polls) = Some (sh', cmds) \<and> channel_sent cap q' (es @ cmds)"
  using sink.shard_loop [where rehash = rehash, OF assms] by blast

definition ex_shard :: risk_shard where
  "ex_shard = shard_new (0, 4) (shard_config_new 4) (table_new 4)"

definition ex_fill :: trade where
  "ex_fill = \<lparr>tr_seq = 9, tr_ts_ns = 0, tr_symbol = 1, tr_price = 50000, tr_qty = 300000000, tr_maker_order = 1, tr_taker_order = 2,
     tr_maker_order_id = 1, tr_taker_order_id = 2, tr_maker_acct = 1, tr_taker_acct = 2, tr_maker_side = Sell,
     tr_maker_remaining_qty = 0, tr_taker_remaining_qty = 0\<rparr>"

abbreviation ex_trade :: engine_event where
  "ex_trade \<equiv> Trade ex_fill"

lemma ex_shard_ok: "shard_ok ex_shard"
  unfolding ex_shard_def by (rule shard_new_ok) (auto simp: table_capacity_def table_new_def)

theorem risk_shard_total_witness:
  "\<exists>q sh' q'. channel_new 1 (\<lambda>_. 1) = Some q \<and>
     run_risk_shard (\<lambda>xs. xs) (\<lambda>_. None) (channel_push 1) ex_shard [None, Some ex_trade, None, Some (SnapshotMarker 3)] q = Some (sh', q') \<and>
     shard_ok sh' \<and> channel_sent 1 q' [Liquidate 1 1, Liquidate 1 2]"
proof -
  let ?polls = "[None, Some ex_trade, None, Some (SnapshotMarker 3)]"
  have "is_power_of_two 1"
    by code_simp
  then obtain q :: "inbound_command channel" where q: "channel_new 1 (\<lambda>_. 1) = Some q"
    by (simp add: channel_new_def spsc_queue_def)
  have "fair_plan (\<lambda>_. 1)" "\<forall>ev \<in> set (events_of ?polls). trade_sane ev"
    by (auto simp: fair_plan_def trade_sane_def ex_fill_def)
  then obtain sh' q' cmds where r: "run_risk_shard (\<lambda>xs. xs) (\<lambda>_. None) (channel_push 1) ex_shard ?polls q = Some (sh', q')" "shard_ok sh'"
    "shard_commands (\<lambda>xs. xs) (\<lambda>_. None) ex_shard (events_of ?polls) = Some (sh', cmds)" "channel_sent 1 q' ([] @ cmds)"
    using risk_shard_total [where rehash = "\<lambda>xs. xs", OF refl ex_shard_ok _ channel_new_sent [OF q, THEN conjunct1] channel_new_live [OF q]]
    by blast
  have "map_option snd (shard_commands (\<lambda>xs. xs) (\<lambda>_. None) ex_shard (events_of ?polls)) = Some [Liquidate 1 1, Liquidate 1 2]"
    by code_simp
  then have "cmds = [Liquidate 1 1, Liquidate 1 2]"
    using r(3) by (simp del: events_of_simps)
  then show ?thesis
    using q r(1,2,4) by (simp del: run_risk_shard.simps)
qed

text \<open>The net quantity of all accounts of the shard in one symbol, in 64-bit arithmetic.\<close>

definition symbol_net :: "positions \<Rightarrow> symbol \<Rightarrow> i64" where
  "symbol_net ps symb = (\<Sum>(key, pos) \<leftarrow> ps. if snd key = symb then net_qty pos else 0)"

lemma symbol_net_Cons [simp]:
  "symbol_net ((key, pos) # ps) symb = (if snd key = symb then net_qty pos else 0) + symbol_net ps symb" "symbol_net [] symb = 0"
  by (simp_all add: symbol_net_def)

lemma symbol_net_mset: "mset xs = mset ys \<Longrightarrow> symbol_net xs symb = symbol_net ys symb"
proof -
  assume "mset xs = mset ys"
  then have "mset (map (\<lambda>(key, pos). if snd key = symb then net_qty pos else 0) xs) =
      mset (map (\<lambda>(key, pos). if snd key = symb then net_qty pos else 0) ys)"
    by simp
  then show ?thesis
    unfolding symbol_net_def sum_mset_sum_list [symmetric] by simp
qed

lemma symbol_net_update:
  "distinct (map fst ps) \<Longrightarrow> map_of ps key = Some old \<Longrightarrow>
   symbol_net (AList.update key pos ps) symb = symbol_net ps symb + (if snd key = symb then net_qty pos - net_qty old else 0)"
proof (induction ps)
  case (Cons a ps)
  obtain k v where a: "a = (k, v)"
    by fastforce
  show ?case
  proof (cases "k = key")
    case True
    then show ?thesis
      using Cons.prems a by simp
  next
    case False
    then show ?thesis
      using Cons a by simp
  qed
qed simp

lemma symbol_net_set:
  assumes "\<And>xs. mset (rehash xs) = mset xs" "distinct (map fst ps)"
  shows "symbol_net (set_position_at rehash ps key pos) symb =
    symbol_net ps symb + (if snd key = symb then net_qty pos - net_qty (position_at ps key) else 0)"
proof (cases "map_of ps key")
  case None
  then show ?thesis
    using symbol_net_mset [OF assms(1)] by (simp add: set_position_at_def position_at_def position_default_def)
next
  case (Some old)
  then show ?thesis
    using symbol_net_update [OF assms(2) Some] by (simp add: set_position_at_def position_at_def)
qed

lemma fill_turn_net:
  assumes "\<And>xs. mset (rehash xs) = mset xs" "shard_ok sh" "owns sh acct" "q < 2 ^ 63"
    "fill_turn rehash marks symb price q (acct, s) (sh, cmds) = Some (sh', cmds')"
  shows "symbol_net (rs_positions sh') symb' = symbol_net (rs_positions sh) symb' + (if symb' = symb then signed_qty s q else 0)"
    "rs_owned sh' = rs_owned sh" "shard_ok sh'"
proof -
  obtain pos st' where p: "apply_fill (position_at (rs_positions sh) (acct, symb)) s price q = Some pos"
    "sh' = sh\<lparr>rs_positions := set_position_at rehash (rs_positions sh) (acct, symb) pos, rs_states := table_put (rs_states sh) acct st'\<rparr>" "shard_ok sh'"
    using fill_turn_owned [where rehash = rehash and s = s and symb = symb and price = price and marks = marks and cmds = cmds, OF assms(1-4)] assms(5)
    by fastforce
  have d: "distinct (map fst (rs_positions sh))"
    using assms(2) by (simp add: shard_ok_def)
  show "symbol_net (rs_positions sh') symb' = symbol_net (rs_positions sh) symb' + (if symb' = symb then signed_qty s q else 0)"
    using symbol_net_set [where rehash = rehash, OF assms(1) d, of "(acct, symb)" pos symb'] apply_fill_net [OF p(1)] p(2) by auto
  show "rs_owned sh' = rs_owned sh" "shard_ok sh'"
    using p(2,3) by simp_all
qed

lemma signed_qty_opposite: "signed_qty s q + signed_qty (opposite s) q = 0"
  by (cases s) (simp_all add: signed_qty_def)

text \<open>C21: Fills are zero-sum. When the shard owns both parties of a trade, processing it leaves the net quantity of all
  accounts unchanged in every symbol: what one side gains the other gives.\<close>

theorem fills_zero_sum:
  assumes "\<And>xs. mset (rehash xs) = mset xs" "shard_ok sh" "tr_qty t < 2 ^ 63" "owns sh (tr_maker_acct t)" "owns sh (tr_taker_acct t)"
    "process_event rehash marks sh (Trade t) = Some (sh', cmds)"
  shows "symbol_net (rs_positions sh') symb = symbol_net (rs_positions sh) symb"
proof -
  obtain shx cx where x: "fill_turn rehash marks (tr_symbol t) (tr_price t) (tr_qty t) (tr_maker_acct t, tr_maker_side t) (sh, []) = Some (shx, cx)"
    "fill_turn rehash marks (tr_symbol t) (tr_price t) (tr_qty t) (tr_taker_acct t, opposite (tr_maker_side t)) (shx, cx) = Some (sh', cmds)"
    using assms(6) by (auto simp: process_event_def bind_eq_Some_conv)
  note a = fill_turn_net [where rehash = rehash, OF assms(1,2,4,3) x(1)]
  have "owns shx (tr_taker_acct t)"
    using assms(5) a(2) by (simp add: owns_def)
  note b = fill_turn_net [where rehash = rehash, OF assms(1) a(3) this assms(3) x(2)]
  show ?thesis
    using a(1) b(1) signed_qty_opposite [of "tr_maker_side t" "tr_qty t"] by (simp add: add.assoc)
qed

theorem fills_zero_sum_witness:
  "\<exists>sh' cmds. process_event (\<lambda>xs. xs) (\<lambda>_. None) ex_shard ex_trade = Some (sh', cmds) \<and>
     symbol_net (rs_positions sh') 1 = 0 \<and> length (rs_positions sh') = 2"
proof -
  have "map_option (\<lambda>(sh', _). length (rs_positions sh')) (process_event (\<lambda>xs. xs) (\<lambda>_. None) ex_shard ex_trade) = Some 2"
    by code_simp
  then obtain sh' cmds where r: "process_event (\<lambda>xs. xs) (\<lambda>_. None) ex_shard ex_trade = Some (sh', cmds)" "length (rs_positions sh') = 2"
    by auto
  have "owns ex_shard 1" "owns ex_shard 2" "rs_positions ex_shard = []"
    by (simp_all add: ex_shard_def owns_def shard_new_def)
  then show ?thesis
    using fills_zero_sum [where rehash = "\<lambda>xs. xs", OF refl ex_shard_ok, of ex_fill "\<lambda>_. None" sh' cmds 1] r
    by (simp add: ex_fill_def)
qed

subsection \<open>Margin\<close>

abbreviation breached :: "account_risk_snapshot \<Rightarrow> bool" where
  "breached s \<equiv> sint (balance s) < sint (used_margin s)"



















text \<open>The published state of an account of the shard is in breach.\<close>

definition in_breach :: "risk_shard \<Rightarrow> account_id \<Rightarrow> bool" where
  "in_breach sh acct \<longleftrightarrow> owns sh acct \<and> (case table_get (rs_states sh) acct of None \<Rightarrow> False | Some st \<Rightarrow> breached (st_cells st))"



text \<open>The two turns of a trade of an account with itself are separate: the shard publishes and reports the margin of the position
  after the maker's fill. An account without a deposit then gets a \<open>Liquidate\<close> and stays frozen although its position is flat
  again and nothing is in breach.\<close>

theorem self_trade_liquidates:
  "map_option (\<lambda>(sh', cmds). (cmds, in_breach sh' 2, map_option (frozen \<circ> st_cells) (table_get (rs_states sh') 2), map (net_qty \<circ> snd) (rs_positions sh')))
     (process_event (\<lambda>xs. xs) (\<lambda>_. None) ex_shard (Trade (ex_fill\<lparr>tr_maker_acct := 2\<rparr>))) =
   Some ([Liquidate 1 2], False, Some True, [0])"
  by code_simp






text \<open>The bound on the quantity is needed: the check reads the unsigned quantity as a signed number, so a quantity of \<open>2 ^ 63\<close> has a
  negative notional and passes both limits.\<close>

theorem tier0_accepts_huge_qty:
  "tier0_check (state_update risk_state_new (snap 0 0)) risk_limits_default 1 (2 ^ 63) = Some (Inr ()) \<and>
   sint (max_order_notional risk_limits_default) < sint (1 :: price) * uint (2 ^ 63 :: qty) div 100000000"
  by code_simp

end
