(* ===== verification/Metrics.thy ===== *)
theory Metrics
  imports Prelude "HOL-Library.Log_Nat"
begin

text \<open>
  The counters and latency histograms of a matching shard (\<open>matching-engine/src/metrics.rs\<close>) and their
  aggregation over shards (\<open>metrics/src/aggregator.rs\<close>). Counters are 64-bit and wrap. The percentile rank
  is computed in floating point by the source; here it is an argument of \<open>percentile_walk\<close>. Wall-clock
  readings are arguments.
\<close>

subsection \<open>Latency histograms\<close>

definition num_buckets :: nat where
  "num_buckets = 32"

record latency_histogram =
  h_buckets :: "u64 list"
  h_count :: u64
  h_sum_ns :: u64
  h_max_ns :: u64

definition histogram_new :: latency_histogram where
  "histogram_new = \<lparr>h_buckets = replicate num_buckets 0, h_count = 0, h_sum_ns = 0, h_max_ns = 0\<rparr>"

definition u64_leading_zeros :: "u64 \<Rightarrow> nat" where
  "u64_leading_zeros w = 64 - nat (bitlen (uint w))"

definition u64_saturating_add :: "u64 \<Rightarrow> u64 \<Rightarrow> u64" where
  "u64_saturating_add a b = (if uint a + uint b < 2 ^ 64 then a + b else - 1)"

definition bucket_for :: "u64 \<Rightarrow> nat" where
  "bucket_for ns = min (63 - u64_leading_zeros (u64_saturating_add ns 1)) (num_buckets - 1)"

definition record_latency :: "latency_histogram \<Rightarrow> u64 \<Rightarrow> latency_histogram" where
  "record_latency h ns =
     (let bucket = bucket_for ns in
      h\<lparr>h_buckets := (h_buckets h)[bucket := h_buckets h ! bucket + 1], h_count := h_count h + 1,
        h_sum_ns := h_sum_ns h + ns, h_max_ns := max (h_max_ns h) ns\<rparr>)"

record latency_snapshot =
  l_buckets :: "u64 list"
  l_count :: u64
  l_sum_ns :: u64
  l_mean_ns :: u64
  l_max_ns :: u64

definition latency_snapshot_default :: latency_snapshot where
  "latency_snapshot_default = \<lparr>l_buckets = replicate num_buckets 0, l_count = 0, l_sum_ns = 0, l_mean_ns = 0, l_max_ns = 0\<rparr>"

definition histogram_snapshot :: "latency_histogram \<Rightarrow> latency_snapshot" where
  "histogram_snapshot h =
     \<lparr>l_buckets = h_buckets h, l_count = h_count h, l_sum_ns = h_sum_ns h,
      l_mean_ns = (if 0 < h_count h then h_sum_ns h div h_count h else 0), l_max_ns = h_max_ns h\<rparr>"

definition histogram_reset :: "latency_histogram \<Rightarrow> latency_histogram" where
  "histogram_reset h = h\<lparr>h_buckets := map (\<lambda>_. 0) (h_buckets h), h_count := 0, h_sum_ns := 0, h_max_ns := 0\<rparr>"

text \<open>The loop of \<open>percentile\<close>: the upper edge of the first bucket at which the running total reaches the rank.\<close>

fun percentile_walk :: "u64 \<Rightarrow> u64 \<Rightarrow> nat \<Rightarrow> u64 \<Rightarrow> u64 list \<Rightarrow> u64" where
  "percentile_walk target max_ns i running [] = max_ns"
| "percentile_walk target max_ns i running (c # cs) =
     (let running = running + c in
      if target \<le> running then push_bit (i + 1) 1 - 1 else percentile_walk target max_ns (i + 1) running cs)"

text \<open>\<open>rank count\<close> is \<open>(p.clamp(0.0, 1.0) * count as f64).ceil() as u64\<close> for the requested \<open>p\<close>.\<close>

definition percentile :: "(u64 \<Rightarrow> u64) \<Rightarrow> latency_snapshot \<Rightarrow> u64" where
  "percentile rank s =
     (if l_count s = 0 then 0
      else percentile_walk (max (rank (l_count s)) 1) (l_max_ns s) 0 0 (l_buckets s))"

definition latency_merge :: "latency_snapshot \<Rightarrow> latency_snapshot \<Rightarrow> latency_snapshot" where
  "latency_merge a b =
     (let count = l_count a + l_count b; sum_ns = l_sum_ns a + l_sum_ns b in
      \<lparr>l_buckets = map2 (+) (l_buckets a) (l_buckets b), l_count = count, l_sum_ns = sum_ns,
       l_mean_ns = (if 0 < count then sum_ns div count else 0), l_max_ns = max (l_max_ns a) (l_max_ns b)\<rparr>)"

subsection \<open>Engine counters\<close>

record engine_metrics =
  em_match_latency :: latency_histogram
  em_risk_check_latency :: latency_histogram
  em_orders_processed :: u64
  em_fills_generated :: u64
  em_risk_rejects :: u64
  em_idle_spins :: u64
  em_outbound_drops :: u64
  em_wal_failures :: u64

definition metrics_new :: engine_metrics where
  "metrics_new = \<lparr>em_match_latency = histogram_new, em_risk_check_latency = histogram_new, em_orders_processed = 0,
     em_fills_generated = 0, em_risk_rejects = 0, em_idle_spins = 0, em_outbound_drops = 0, em_wal_failures = 0\<rparr>"

definition record_order :: "engine_metrics \<Rightarrow> u64 \<Rightarrow> bool \<Rightarrow> engine_metrics" where
  "record_order m fills risk_rejected =
     (let m = m\<lparr>em_orders_processed := em_orders_processed m + 1\<rparr> in
      if risk_rejected then m\<lparr>em_risk_rejects := em_risk_rejects m + 1\<rparr>
      else if 0 < fills then m\<lparr>em_fills_generated := em_fills_generated m + fills\<rparr>
      else m)"

definition record_wal_failure :: "engine_metrics \<Rightarrow> engine_metrics" where
  "record_wal_failure m = m\<lparr>em_wal_failures := em_wal_failures m + 1\<rparr>"

definition record_idle_spin :: "engine_metrics \<Rightarrow> engine_metrics" where
  "record_idle_spin m = m\<lparr>em_idle_spins := em_idle_spins m + 1\<rparr>"

definition record_outbound_drop :: "engine_metrics \<Rightarrow> engine_metrics" where
  "record_outbound_drop m = m\<lparr>em_outbound_drops := em_outbound_drops m + 1\<rparr>"

record engine_metrics_snapshot =
  es_match_latency :: latency_snapshot
  es_risk_check_latency :: latency_snapshot
  es_orders_processed :: u64
  es_fills_generated :: u64
  es_risk_rejects :: u64
  es_idle_spins :: u64

definition metrics_snapshot :: "engine_metrics \<Rightarrow> engine_metrics_snapshot" where
  "metrics_snapshot m =
     \<lparr>es_match_latency = histogram_snapshot (em_match_latency m),
      es_risk_check_latency = histogram_snapshot (em_risk_check_latency m),
      es_orders_processed = em_orders_processed m, es_fills_generated = em_fills_generated m,
      es_risk_rejects = em_risk_rejects m, es_idle_spins = em_idle_spins m\<rparr>"

definition metrics_snapshot_default :: engine_metrics_snapshot where
  "metrics_snapshot_default =
     \<lparr>es_match_latency = latency_snapshot_default, es_risk_check_latency = latency_snapshot_default,
      es_orders_processed = 0, es_fills_generated = 0, es_risk_rejects = 0, es_idle_spins = 0\<rparr>"

definition reset_intervals :: "engine_metrics \<Rightarrow> engine_metrics" where
  "reset_intervals m = m\<lparr>em_match_latency := histogram_reset (em_match_latency m),
     em_risk_check_latency := histogram_reset (em_risk_check_latency m), em_orders_processed := 0,
     em_fills_generated := 0, em_risk_rejects := 0, em_idle_spins := 0\<rparr>"

subsection \<open>Aggregation over shards\<close>

text \<open>\<open>per_shard\<close> is a hash map: an association list with distinct keys, in the map's iteration order. Inserting a
  new key may reorder it, by \<open>rehash\<close>.\<close>

type_synonym shard_id = u32
type_synonym per_shard = "(shard_id \<times> engine_metrics_snapshot) list"

record aggregated_snapshot =
  ag_taken_at :: "u64 option"
  ag_per_shard :: per_shard
  ag_totals :: engine_metrics_snapshot

definition add_totals :: "engine_metrics_snapshot \<Rightarrow> engine_metrics_snapshot \<Rightarrow> engine_metrics_snapshot" where
  "add_totals t s =
     \<lparr>es_match_latency = latency_merge (es_match_latency t) (es_match_latency s),
      es_risk_check_latency = latency_merge (es_risk_check_latency t) (es_risk_check_latency s),
      es_orders_processed = es_orders_processed t + es_orders_processed s,
      es_fills_generated = es_fills_generated t + es_fills_generated s,
      es_risk_rejects = es_risk_rejects t + es_risk_rejects s, es_idle_spins = es_idle_spins t + es_idle_spins s\<rparr>"

definition insert_shard :: "(per_shard \<Rightarrow> per_shard) \<Rightarrow> shard_id \<Rightarrow> engine_metrics_snapshot \<Rightarrow> per_shard \<Rightarrow> per_shard" where
  "insert_shard rehash sid s ps =
     (if map_of ps sid = None then rehash ((sid, s) # ps) else map (\<lambda>(k, v). (k, if k = sid then s else v)) ps)"

definition aggregate_merge ::
  "(per_shard \<Rightarrow> per_shard) \<Rightarrow> aggregated_snapshot \<Rightarrow> shard_id \<Rightarrow> engine_metrics_snapshot \<Rightarrow> aggregated_snapshot" where
  "aggregate_merge rehash a sid s =
     (let ps = insert_shard rehash sid s (ag_per_shard a) in
      a\<lparr>ag_per_shard := ps, ag_totals := fold (\<lambda>(_, v) t. add_totals t v) ps metrics_snapshot_default\<rparr>)"

record metrics_aggregator =
  ma_shards :: "(shard_id \<times> engine_metrics) list"
  ma_last_snapshot :: aggregated_snapshot
  ma_interval :: u64
  ma_last_collected :: u64

definition aggregated_default :: aggregated_snapshot where
  "aggregated_default = \<lparr>ag_taken_at = None, ag_per_shard = [], ag_totals = metrics_snapshot_default\<rparr>"

definition aggregator_new :: "u64 \<Rightarrow> u64 \<Rightarrow> metrics_aggregator" where
  "aggregator_new now interval = \<lparr>ma_shards = [], ma_last_snapshot = aggregated_default, ma_interval = interval, ma_last_collected = now\<rparr>"

definition register_shard :: "metrics_aggregator \<Rightarrow> shard_id \<Rightarrow> engine_metrics \<Rightarrow> metrics_aggregator" where
  "register_shard a sid m = a\<lparr>ma_shards := ma_shards a @ [(sid, m)]\<rparr>"

definition collect_now :: "(per_shard \<Rightarrow> per_shard) \<Rightarrow> u64 \<Rightarrow> metrics_aggregator \<Rightarrow> metrics_aggregator" where
  "collect_now rehash now a =
     (let snap = fold (\<lambda>(sid, m) s. aggregate_merge rehash s sid (metrics_snapshot m)) (ma_shards a)
        (aggregated_default\<lparr>ag_taken_at := Some now\<rparr>) in
      a\<lparr>ma_last_snapshot := snap, ma_last_collected := now\<rparr>)"

definition maybe_collect :: "(per_shard \<Rightarrow> per_shard) \<Rightarrow> u64 \<Rightarrow> metrics_aggregator \<Rightarrow> metrics_aggregator" where
  "maybe_collect rehash now a = (if ma_interval a \<le> now - ma_last_collected a then collect_now rehash now a else a)"

definition reset_shard_intervals :: "metrics_aggregator \<Rightarrow> metrics_aggregator" where
  "reset_shard_intervals a = a\<lparr>ma_shards := map (\<lambda>(sid, m). (sid, reset_intervals m)) (ma_shards a)\<rparr>"

end
