(* ===== verification/Metrics_Props.thy ===== *)
theory Metrics_Props
  imports Metrics "HOL-Library.Multiset"
begin

text \<open>
  Histograms: what was recorded can be read off the buckets, merging snapshots is recording everything
  in one histogram, and the percentile has the error bound its documentation claims.
\<close>

subsection \<open>The recorded samples\<close>

definition histogram_of :: "u64 list \<Rightarrow> latency_histogram" where
  "histogram_of xs = fold (\<lambda>ns h. record_latency h ns) xs histogram_new"

definition in_bucket :: "nat \<Rightarrow> u64 list \<Rightarrow> nat" where
  "in_bucket i xs = length (filter (\<lambda>ns. bucket_for ns = i) xs)"

lemma bucket_for_lt: "bucket_for ns < num_buckets"
  by (simp add: bucket_for_def num_buckets_def min_def)

lemma histogram_of_eq:
  "histogram_of xs = \<lparr>h_buckets = map (\<lambda>i. of_nat (in_bucket i xs)) [0..<num_buckets], h_count = of_nat (length xs),
     h_sum_ns = sum_list xs, h_max_ns = foldr max xs 0\<rparr>"
proof (induction xs rule: rev_induct)
  case Nil
  then show ?case
    by (simp add: histogram_of_def histogram_new_def in_bucket_def map_replicate_const)
next
  case (snoc x xs)
  let ?bs = "map (\<lambda>i. of_nat (in_bucket i xs)) [0..<num_buckets]"
  have "?bs[bucket_for x := ?bs ! bucket_for x + 1] = map (\<lambda>i. of_nat (in_bucket i (xs @ [x]))) [0..<num_buckets]"
    using bucket_for_lt [of x] by (intro nth_equalityI) (auto simp: nth_list_update in_bucket_def)
  moreover have "foldr max (xs @ [x]) 0 = max (foldr max xs 0) x"
    by (induction xs) (auto simp: max.assoc)
  moreover have "histogram_of (xs @ [x]) = record_latency (histogram_of xs) x"
    by (simp add: histogram_of_def)
  ultimately show ?case
    using snoc by (simp add: record_latency_def Let_def add.commute)
qed

lemma in_bucket_append: "in_bucket i (xs @ ys) = in_bucket i xs + in_bucket i ys"
  by (simp add: in_bucket_def)

text \<open>C24: Merging is exact. The merge of the snapshots of two histograms is the snapshot of one histogram that recorded the
  samples of both, so percentiles of a merged snapshot are those of the joint population.\<close>

theorem merge_is_joint_histogram:
  "latency_merge (histogram_snapshot (histogram_of xs)) (histogram_snapshot (histogram_of ys)) =
   histogram_snapshot (histogram_of (xs @ ys))"
proof -
  have "foldr max xs (foldr max ys 0) = max (foldr max xs 0) (foldr max ys (0 :: u64))"
    by (induction xs) (auto simp: max.assoc)
  then show ?thesis
    unfolding histogram_of_eq
    by (auto simp: latency_merge_def histogram_snapshot_def Let_def in_bucket_append zip_map1 zip_map2 zip_same_conv_map)
qed

subsection \<open>Percentiles\<close>

lemma bucket_for_edges:
  assumes "ns < 2 ^ 32 - 1"
  shows "2 ^ bucket_for ns \<le> uint ns + 1" "uint ns + 1 < 2 ^ (bucket_for ns + 1)" "bucket_for ns < 32"
proof -
  have u: "uint ns < 2 ^ 32 - 1"
    using assms by (simp add: word_less_def)
  let ?x = "uint ns + 1"
  have one: "uint (u64_saturating_add ns 1) = ?x"
    using u by (simp add: u64_saturating_add_def uint_word_ariths(1))
  have pos: "0 < ?x"
    using uint_ge_0 [of ns] by linarith
  have b: "2 ^ nat (bitlen ?x - 1) \<le> ?x" "?x < 2 ^ nat (bitlen ?x)" "1 \<le> bitlen ?x"
    using bitlen_bounds [OF pos] bitlen_nonneg [of ?x] bitlen_eq_zero_iff [of ?x] pos by auto
  have le: "bitlen ?x \<le> 32"
    using u by (simp add: bitlen_le_iff_power)
  have k: "bucket_for ns = nat (bitlen ?x - 1)" "nat (bitlen ?x) = nat (bitlen ?x - 1) + 1"
    using le b(3) by (auto simp: bucket_for_def u64_leading_zeros_def one num_buckets_def)
  show "2 ^ bucket_for ns \<le> ?x" "?x < 2 ^ (bucket_for ns + 1)" "bucket_for ns < 32"
    using b le unfolding k(1) k(2) [symmetric] by linarith+
qed

lemma bucket_for_mono:
  assumes "x \<le> y" "y < 2 ^ 32 - 1"
  shows "bucket_for x \<le> bucket_for y"
proof (rule ccontr)
  assume "\<not> bucket_for x \<le> bucket_for y"
  then have "(2 :: int) ^ (bucket_for y + 1) \<le> 2 ^ bucket_for x"
    by (intro power_increasing) auto
  moreover have "x < 2 ^ 32 - 1"
    using assms by (rule le_less_trans)
  ultimately show False
    using bucket_for_edges(1) [of x] bucket_for_edges(2) [OF assms(2)] assms(1) by (auto simp: word_le_def)
qed

definition up_to_bucket :: "nat \<Rightarrow> u64 list \<Rightarrow> nat" where
  "up_to_bucket i xs = length (filter (\<lambda>ns. bucket_for ns < i) xs)"

lemma up_to_bucket_Suc: "up_to_bucket (Suc i) xs = up_to_bucket i xs + in_bucket i xs"
  unfolding up_to_bucket_def in_bucket_def by (induction xs) auto

text \<open>The walk stops at the bucket in which the running total passes the rank.\<close>

lemma percentile_walk_stops:
  assumes "length xs < 2 ^ 64" "unat r \<le> length xs" "up_to_bucket i xs < unat r" "i + k = num_buckets"
  shows "\<exists>j. i \<le> j \<and> j < num_buckets \<and> up_to_bucket j xs < unat r \<and> unat r \<le> up_to_bucket (Suc j) xs \<and>
    percentile_walk r m i (of_nat (up_to_bucket i xs)) (map (\<lambda>i. of_nat (in_bucket i xs)) [i..<num_buckets]) = push_bit (j + 1) 1 - 1"
  using assms(3,4)
proof (induction k arbitrary: i)
  case 0
  then have "up_to_bucket i xs = length xs"
    using bucket_for_lt by (simp add: up_to_bucket_def)
  then show ?case
    using 0 assms(2) by simp
next
  case (Suc k)
  have le: "up_to_bucket (Suc i) xs < 2 ^ 64"
    using assms(1) le_less_trans [OF length_filter_le] by (simp add: up_to_bucket_def)
  have run: "of_nat (up_to_bucket i xs) + of_nat (in_bucket i xs) = (of_nat (up_to_bucket (Suc i) xs) :: u64)"
    by (simp add: up_to_bucket_Suc)
  have cmp: "r \<le> of_nat (up_to_bucket (Suc i) xs) \<longleftrightarrow> unat r \<le> up_to_bucket (Suc i) xs"
    using word_nat_small [OF le] by (simp add: word_le_nat_alt)
  have cons: "[i..<num_buckets] = i # [Suc i..<num_buckets]"
    using Suc.prems(2) by (simp add: upt_conv_Cons)
  show ?case
  proof (cases "unat r \<le> up_to_bucket (Suc i) xs")
    case True
    then show ?thesis
      using Suc.prems cmp run by (intro exI [of _ i]) (simp add: cons Let_def)
  next
    case False
    then obtain j where "Suc i \<le> j" "j < num_buckets" "up_to_bucket j xs < unat r" "unat r \<le> up_to_bucket (Suc j) xs"
      "percentile_walk r m (Suc i) (of_nat (up_to_bucket (Suc i) xs)) (map (\<lambda>i. of_nat (in_bucket i xs)) [Suc i..<num_buckets]) = push_bit (j + 1) 1 - 1"
      using Suc.IH [of "Suc i"] Suc.prems by auto
    then show ?thesis
      using False cmp run by (intro exI [of _ j]) (simp add: cons Let_def)
  qed
qed

text \<open>The sample of a given rank is in the bucket where the counts pass the rank.\<close>

lemma rank_bucket:
  assumes "\<forall>x \<in> set xs. x < 2 ^ 32 - 1" "0 < r" "r \<le> length xs" "up_to_bucket j xs < r" "r \<le> up_to_bucket (Suc j) xs"
  shows "bucket_for (sort xs ! (r - 1)) = j"
proof -
  let ?s = "sort xs"
  have same: "length (filter P xs) = length (filter P ?s)" for P
    by (metis mset_filter mset_sort size_mset)
  have mono: "bucket_for (?s ! a) \<le> bucket_for (?s ! b)" if "a \<le> b" "b < length xs" for a b
  proof (rule bucket_for_mono)
    have "?s ! b \<in> set xs"
      using that by (metis length_sort nth_mem set_sort)
    then show "?s ! b < 2 ^ 32 - 1"
      using assms(1) by blast
  qed (use that in \<open>simp add: sorted_nth_mono\<close>)
  have le: "\<not> bucket_for (?s ! (r - 1)) < j"
  proof
    assume "bucket_for (?s ! (r - 1)) < j"
    then have "\<forall>a < r. bucket_for (?s ! a) < j"
      using le_less_trans [OF mono [of _ "r - 1"]] assms(2,3) by simp
    then have "\<forall>x \<in> set (take r ?s). bucket_for x < j"
      using assms(3) by (auto simp: in_set_conv_nth)
    then have "filter (\<lambda>x. bucket_for x < j) (take r ?s) = take r ?s"
      by (simp add: filter_id_conv)
    then have "r \<le> length (filter (\<lambda>x. bucket_for x < j) (take r ?s @ drop r ?s))"
      unfolding filter_append using assms(3) by simp
    then show False
      using assms(4) same [of "\<lambda>x. bucket_for x < j"] by (simp add: up_to_bucket_def)
  qed
  have ge: "bucket_for (?s ! (r - 1)) < Suc j"
  proof (rule ccontr)
    assume "\<not> bucket_for (?s ! (r - 1)) < Suc j"
    then have "\<forall>a. r - 1 \<le> a \<and> a < length xs \<longrightarrow> \<not> bucket_for (?s ! a) < Suc j"
      using le_less_trans [OF mono [of "r - 1"]] by blast
    then have "\<forall>x \<in> set (drop (r - 1) ?s). \<not> bucket_for x < Suc j"
      by (auto simp: in_set_conv_nth)
    then have "filter (\<lambda>x. bucket_for x < Suc j) (drop (r - 1) ?s) = []"
      by (simp add: filter_empty_conv)
    then have "length (filter (\<lambda>x. bucket_for x < Suc j) (take (r - 1) ?s @ drop (r - 1) ?s)) \<le> r - 1"
      unfolding filter_append using length_filter_le [of "\<lambda>x. bucket_for x < Suc j" "take (r - 1) ?s"] by simp
    then show False
      using assms(2,5) same [of "\<lambda>x. bucket_for x < Suc j"] by (simp add: up_to_bucket_def)
  qed
  show ?thesis
    using le ge by simp
qed

text \<open>C25: The percentile is within a factor of two. For samples below the last bucket's edge, the value \<open>percentile\<close> returns for
  a rank lies above the sample of that rank, and is at most twice that sample plus one.\<close>

theorem percentile_error_bound:
  assumes "\<forall>x \<in> set xs. x < 2 ^ 32 - 1" "length xs < 2 ^ 64" "r = max (rank (of_nat (length xs))) 1" "unat r \<le> length xs"
  shows "uint (sort xs ! (unat r - 1)) < uint (percentile rank (histogram_snapshot (histogram_of xs))) \<and>
    uint (percentile rank (histogram_snapshot (histogram_of xs))) \<le> 2 * uint (sort xs ! (unat r - 1)) + 1"
proof -
  have "1 \<le> r"
    using assms(3) by simp
  then have r: "0 < unat r"
    by (simp add: word_le_nat_alt)
  then have "of_nat (length xs) \<noteq> (0 :: u64)"
    using assms(2,4) word_nat_small [OF assms(2)] by auto
  then have p: "percentile rank (histogram_snapshot (histogram_of xs)) =
      percentile_walk r (foldr max xs 0) 0 (of_nat (up_to_bucket 0 xs)) (map (\<lambda>i. of_nat (in_bucket i xs)) [0..<num_buckets])"
    by (simp add: percentile_def histogram_snapshot_def histogram_of_eq assms(3) up_to_bucket_def)
  obtain j where j: "j < num_buckets" "up_to_bucket j xs < unat r" "unat r \<le> up_to_bucket (Suc j) xs"
    "percentile rank (histogram_snapshot (histogram_of xs)) = push_bit (j + 1) 1 - 1"
    using percentile_walk_stops [OF assms(2,4), of 0 num_buckets] r unfolding p by (auto simp: up_to_bucket_def)
  let ?s = "sort xs ! (unat r - 1)"
  have "?s \<in> set xs"
    using r assms(4) by (metis Suc_pred' length_sort less_eq_Suc_le nth_mem set_sort)
  then have e: "?s < 2 ^ 32 - 1" "bucket_for ?s = j"
    using assms(1) rank_bucket [OF assms(1) r assms(4) j(2,3)] by auto
  have "uint (push_bit (j + 1) 1 - 1 :: u64) = 2 ^ (j + 1) - 1"
  proof -
    have "(2 :: int) ^ (j + 1) < 2 ^ 64"
      using j(1) by (intro power_strict_increasing) (auto simp: num_buckets_def)
    then have "take_bit 64 ((2 :: int) ^ (j + 1) - 1) = 2 ^ (j + 1) - 1"
      by (intro take_bit_int_eq_self) auto
    moreover have "(push_bit (j + 1) 1 - 1 :: u64) = word_of_int (2 ^ (j + 1) - 1)"
      by (simp add: push_bit_eq_mult)
    ultimately show ?thesis
      by (simp only: uint_word_of_int_eq) simp
  qed
  then show ?thesis
    using bucket_for_edges(1,2) [OF e(1)] e(2) j(4) by auto
qed

theorem percentile_error_bound_witness:
  "uint (sort [300, 100, 50 :: u64] ! 1) < uint (percentile (\<lambda>_. 2) (histogram_snapshot (histogram_of [300, 100, 50])))"
  using percentile_error_bound [of "[300, 100, 50]" 2 "\<lambda>_. 2"] by (simp add: max_def word_le_nat_alt)

subsection \<open>Totals over the shards\<close>

lemma latency_merge_swap: "latency_merge (latency_merge t a) b = latency_merge (latency_merge t b) a"
proof -
  have "map2 (+) (map2 (+) xs ys) zs = map2 (+) (map2 (+) xs zs) (ys :: u64 list)" for xs ys zs
    by (rule nth_equalityI) (auto simp: algebra_simps)
  then show ?thesis
    by (simp add: latency_merge_def Let_def add.assoc add.left_commute add.commute max.assoc max.left_commute max.commute)
qed

lemma add_totals_swap: "add_totals (add_totals t a) b = add_totals (add_totals t b) a"
  by (simp add: add_totals_def latency_merge_swap [of _ _ "_ b"] add.assoc add.left_commute add.commute)

lemma insert_shard_fresh:
  assumes "\<And>xs. mset (rehash xs) = mset xs" "sid \<notin> fst ` set ps"
  shows "mset (insert_shard rehash sid s ps) = add_mset (sid, s) (mset ps)"
  using assms by (auto simp: insert_shard_def map_of_eq_None_iff)

lemma collect_fold:
  fixes rehash :: "per_shard \<Rightarrow> per_shard" and now :: u64 and shards :: "(shard_id \<times> engine_metrics) list"
  assumes "\<And>xs. mset (rehash xs) = mset xs" "distinct (map fst shards)"
  defines "snaps \<equiv> map (\<lambda>(sid, m). (sid, metrics_snapshot m))"
  defines "agg \<equiv> \<lambda>ss. fold (\<lambda>(sid, m) s. aggregate_merge rehash s sid (metrics_snapshot m)) ss (aggregated_default\<lparr>ag_taken_at := Some now\<rparr>)"
  shows "mset (ag_per_shard (agg shards)) = mset (snaps shards) \<and>
    ag_totals (agg shards) = fold (\<lambda>(_, v) t. add_totals t v) (snaps shards) metrics_snapshot_default"
  using assms(2)
proof (induction shards rule: rev_induct)
  case Nil
  then show ?case
    by (simp add: agg_def snaps_def aggregated_default_def)
next
  case (snoc x ss)
  obtain sid m where x: "x = (sid, m)"
    by (cases x)
  let ?ps = "insert_shard rehash sid (metrics_snapshot m) (ag_per_shard (agg ss))"
  have IH: "mset (ag_per_shard (agg ss)) = mset (snaps ss)"
    using snoc by simp
  have "fst ` set (ag_per_shard (agg ss)) = fst ` set (snaps ss)"
    using mset_eq_setD [OF IH] by simp
  then have "sid \<notin> fst ` set (ag_per_shard (agg ss))"
    using snoc.prems by (force simp: x snaps_def)
  then have per: "mset ?ps = mset (snaps (ss @ [x]))"
    using insert_shard_fresh [where rehash = rehash, OF assms(1)] IH by (simp add: x snaps_def)
  have "fold (\<lambda>(_, v) t. add_totals t v) ?ps = fold (\<lambda>(_, v) t. add_totals t v) (snaps (ss @ [x]))"
    by (rule fold_multiset_equiv [OF _ per]) (auto simp: add_totals_swap)
  moreover have "agg (ss @ [x]) = aggregate_merge rehash (agg ss) sid (metrics_snapshot m)"
    by (simp add: agg_def x)
  ultimately show ?case
    using per by (simp add: aggregate_merge_def Let_def)
qed

text \<open>C26: The collected totals do not depend on the hash map. Whatever order the per-shard map iterates in, the totals that
  \<open>collect_now\<close> stores are the snapshots of the registered shards added up in registration order.\<close>

theorem totals_order_free:
  assumes "\<And>xs. mset (rehash xs) = mset xs" "distinct (map fst (ma_shards a))"
  shows "ag_totals (ma_last_snapshot (collect_now rehash now a)) =
    fold (\<lambda>(_, m) t. add_totals t (metrics_snapshot m)) (ma_shards a) metrics_snapshot_default"
proof -
  have "fold (\<lambda>(_, v) t. add_totals t v) (map (\<lambda>(sid, m). (sid, metrics_snapshot m)) ss) t =
      fold (\<lambda>(_, m) t. add_totals t (metrics_snapshot m)) ss t" for ss :: "(shard_id \<times> engine_metrics) list" and t
    by (induction ss arbitrary: t) auto
  then show ?thesis
    using collect_fold [where rehash = rehash, OF assms, of now] by (simp add: collect_now_def Let_def)
qed

theorem totals_order_free_witness:
  "es_orders_processed (ag_totals (ma_last_snapshot (collect_now rev 9
     (register_shard (register_shard (aggregator_new 0 5) 1 (record_order metrics_new 2 False)) 7 (record_order metrics_new 0 True))))) = 2"
proof -
  let ?a = "register_shard (register_shard (aggregator_new 0 5) 1 (record_order metrics_new 2 False)) 7 (record_order metrics_new 0 True)"
  have "distinct (map fst (ma_shards ?a))"
    by (simp add: register_shard_def aggregator_new_def)
  from totals_order_free [of rev, OF _ this, of 9] show ?thesis
    by (simp add: register_shard_def aggregator_new_def add_totals_def metrics_snapshot_def metrics_snapshot_default_def
        record_order_def metrics_new_def)
qed

end
