(* ===== verification/Bytes.thy ===== *)
theory Bytes
  imports Prelude
begin

text \<open>
  Byte buffers: the little-endian encodings of the standard library, slices, and writing into a slice of
  a buffer. Shared by the write-ahead logs, the snapshots and the wire codec.
\<close>

definition to_le_bytes :: "nat \<Rightarrow> 'a::len word \<Rightarrow> byte list" where
  "to_le_bytes n w = map (\<lambda>i. word_of_int (uint w div 256 ^ i)) [0..<n]"

definition from_le_bytes :: "byte list \<Rightarrow> 'a::len word" where
  "from_le_bytes bs = word_of_int (foldr (\<lambda>b v. uint b + 256 * v) bs 0)"

text \<open>\<open>buf[from..to]\<close>, for bounds in range.\<close>

definition slice :: "nat \<Rightarrow> nat \<Rightarrow> 'a list \<Rightarrow> 'a list" where
  "slice from to xs = take (to - from) (drop from xs)"

text \<open>\<open>buf[off..off + bs.len()].copy_from_slice(bs)\<close>, for an offset in range.\<close>

definition write_at :: "nat \<Rightarrow> 'a list \<Rightarrow> 'a list \<Rightarrow> 'a list" where
  "write_at off bs xs = take off xs @ bs @ drop (off + length bs) xs"

definition align8 :: "nat \<Rightarrow> nat" where
  "align8 n = (n + 7) div 8 * 8"

lemma length_to_le_bytes [simp]: "length (to_le_bytes n w) = n"
  by (simp add: to_le_bytes_def)

lemma length_write_at [simp]: "off + length bs \<le> length xs \<Longrightarrow> length (write_at off bs xs) = length xs"
  by (simp add: write_at_def)

lemma align8_ge: "n \<le> align8 n"
  by (simp add: align8_def)

lemma align8_lt: "align8 n < n + 8"
  using minus_mod_eq_div_mult [of "n + 7" 8] mod_less_divisor [of 8 "n + 7"] by (simp add: align8_def)

lemma align8_add: "align8 (8 * k + n) = 8 * k + align8 n"
  by (simp add: align8_def add.assoc)

lemma le_digits: "foldr (\<lambda>b v. uint b + 256 * v) (map (\<lambda>i. word_of_int (v div 256 ^ i) :: byte) [0..<n]) 0 = v mod 256 ^ n"
proof (induction n arbitrary: v)
  case (Suc n)
  have "map (\<lambda>i. word_of_int (v div 256 ^ i) :: byte) [0..<Suc n] =
      word_of_int v # map (\<lambda>i. word_of_int ((v div 256) div 256 ^ i)) [0..<n]"
    by (simp add: upt_conv_Cons map_Suc_upt [symmetric] div_mult2_eq' del: upt_Suc) (simp add: zdiv_zmult2_eq)
  moreover have "uint (word_of_int v :: byte) = v mod 256"
    by (simp add: uint_word_of_int_eq take_bit_eq_mod)
  ultimately have "foldr (\<lambda>b v. uint b + 256 * v) (map (\<lambda>i. word_of_int (v div 256 ^ i) :: byte) [0..<Suc n]) 0 =
      v mod 256 + 256 * (v div 256 mod 256 ^ n)"
    by (simp add: Suc.IH)
  then show ?case
    by (simp add: mod_mult2_eq' zmod_zmult2_eq)
qed simp

lemma from_to_le_bytes:
  assumes "LENGTH('a) \<le> 8 * n"
  shows "from_le_bytes (to_le_bytes n w) = (w :: 'a::len word)"
proof -
  have "uint w < 2 ^ LENGTH('a)"
    by simp
  also have "(2 :: int) ^ LENGTH('a) \<le> 2 ^ (8 * n)"
    using assms by (intro power_increasing) auto
  finally have "uint w < 256 ^ n"
    by (simp add: power_mult)
  then show ?thesis
    by (simp add: from_le_bytes_def to_le_bytes_def le_digits)
qed

lemma digits_bound: "0 \<le> foldr (\<lambda>b v. uint (b :: byte) + 256 * v) bs 0 \<and> foldr (\<lambda>b v. uint b + 256 * v) bs 0 < 256 ^ length bs"
proof (induction bs)
  case (Cons b bs)
  then show ?case
    using uint_lt2p [of b] uint_ge_0 [of b] by auto
qed simp

lemma digits_le:
  "map (\<lambda>i. word_of_int (foldr (\<lambda>b v. uint b + 256 * v) bs 0 div 256 ^ i) :: byte) [0..<length bs] = bs"
proof (induction bs)
  case (Cons b bs)
  let ?v = "foldr (\<lambda>b v. uint b + 256 * v) bs 0"
  have "(uint b + 256 * ?v) div 256 = ?v"
    using uint_lt2p [of b] by simp
  then have "(uint b + 256 * ?v) div 256 ^ Suc i = ?v div 256 ^ i" for i
    by (simp add: zdiv_zmult2_eq)
  moreover have "word_of_int (uint b + 256 * ?v) = b"
    using uint_lt2p [of b] by (simp only: word_uint_eq_iff uint_word_of_int_eq take_bit_eq_mod) simp
  ultimately show ?case
    using Cons.IH by (simp add: upt_conv_Cons map_Suc_upt [symmetric] comp_def del: upt_Suc power_Suc)
qed simp

lemma to_from_le_bytes:
  assumes "8 * length bs \<le> LENGTH('a)"
  shows "to_le_bytes (length bs) (from_le_bytes bs :: 'a::len word) = bs"
proof -
  have "(256 :: int) ^ length bs \<le> 2 ^ LENGTH('a)"
    using power_increasing [OF assms, of "2 :: int"] by (simp add: power_mult)
  then have "uint (from_le_bytes bs :: 'a word) = foldr (\<lambda>b v. uint b + 256 * v) bs 0"
    using digits_bound [of bs] by (simp add: from_le_bytes_def uint_word_of_int_eq take_bit_int_eq_self)
  then show ?thesis
    by (simp add: to_le_bytes_def digits_le)
qed

lemma slice_drop: "slice (off + a) (off + b) xs = slice a b (drop off xs)"
  by (simp add: slice_def add.commute)

lemma slice_append_left: "b \<le> length xs \<Longrightarrow> slice a b (xs @ ys) = slice a b xs"
  by (simp add: slice_def)

lemma slice_append_right: "length xs \<le> a \<Longrightarrow> slice a b (xs @ ys) = slice (a - length xs) (b - length xs) ys"
  by (simp add: slice_def)

lemma slice_all: "a = 0 \<Longrightarrow> length xs \<le> b \<Longrightarrow> slice a b xs = xs"
  by (simp add: slice_def)

end
