(* ===== verification/Wal.thy ===== *)
theory Wal
  imports Core_Types Bytes
begin

text \<open>
  The crate \<open>wal\<close>: the append-only file of records written through a memory map (\<open>log.rs\<close>), its variant for
  persistent memory (\<open>pmem.rs\<close>), and the scan that replays it after a restart (\<open>recovery.rs\<close>).

  The mapped file is its list of bytes. CRC32 and bincode are crates the sources call: they are parameters, as
  is the outcome of \<open>msync\<close>. A record is 32 header bytes (seq, ts, payload length, crc, term), the payload and
  zero padding to a multiple of 8.
\<close>

subsection \<open>Writing (log.rs)\<close>

record wal_deps =
  crc32 :: "byte list \<Rightarrow> u32"
  ser_command :: "inbound_command \<Rightarrow> byte list option"
  de_command :: "byte list \<Rightarrow> inbound_command option"
  ser_event :: "event \<Rightarrow> byte list option"
  flush_range :: "byte list \<Rightarrow> nat \<Rightarrow> nat \<Rightarrow> bool"

datatype wal_error =
    WalIo
  | CapacityExhausted nat nat
  | Serialise
  | StaleTerm u64 u64
  | InvalidMagic
  | UnsupportedVersion u32

definition wal_magic :: "byte list" where
  "wal_magic = [0x4D, 0x52, 0x45, 0x57, 0x41, 0x4C, 0x30, 0x31]"

definition wal_version :: u32 where
  "wal_version = 2"

definition file_header_size :: nat where
  "file_header_size = 32"

definition record_header_size :: nat where
  "record_header_size = 32"

record wal_writer_config =
  file_capacity :: nat
  sync_on_write :: bool

definition wal_config_default :: wal_writer_config where
  "wal_config_default = \<lparr>file_capacity = 512 * 1024 * 1024, sync_on_write = True\<rparr>"

record file_wal_writer =
  w_mmap :: "byte list"
  w_cursor :: nat
  w_config :: wal_writer_config
  w_last_seq :: u64
  w_highest_term :: u64

definition write_file_header :: "byte list \<Rightarrow> byte list option" where
  "write_file_header mmap =
     (if length mmap < 12 then None else Some (write_at 8 (to_le_bytes 4 wal_version) (write_at 0 wal_magic mmap)))"

definition validate_file_header :: "byte list \<Rightarrow> (wal_error + unit) option" where
  "validate_file_header mmap =
     (if length mmap < 8 then None
      else if slice 0 8 mmap \<noteq> wal_magic then Some (Inl InvalidMagic)
      else if length mmap < 12 then None
      else
        let version = from_le_bytes (slice 8 12 mmap) in
        if version \<noteq> wal_version then Some (Inl (UnsupportedVersion version)) else Some (Inr ()))"

lemma scan_advances:
  "\<not> length (xs :: byte list) < off + record_header_size \<Longrightarrow>
   length xs - (off + align8 (record_header_size + len)) < length xs - off"
  using align8_ge [of "record_header_size + len"] by (simp add: record_header_size_def)

function scan_to_end_from :: "wal_deps \<Rightarrow> byte list \<Rightarrow> nat \<Rightarrow> u64 \<Rightarrow> u64 \<Rightarrow> nat \<times> u64 \<times> u64" where
  "scan_to_end_from deps mmap off last_seq highest_term =
     (if length mmap < off + record_header_size then (off, last_seq, highest_term)
      else
        let seq = from_le_bytes (slice off (off + 8) mmap) in
        if seq = 0 then (off, last_seq, highest_term)
        else
          let len = unat (from_le_bytes (slice (off + 16) (off + 20) mmap) :: u32);
              crc_stored = from_le_bytes (slice (off + 20) (off + 24) mmap);
              term = from_le_bytes (slice (off + 24) (off + 32) mmap);
              payload_end = off + record_header_size + len in
          if length mmap < payload_end then (off, last_seq, highest_term)
          else if crc32 deps (slice (off + record_header_size) payload_end mmap) \<noteq> crc_stored then (off, last_seq, highest_term)
          else scan_to_end_from deps mmap (off + align8 (record_header_size + len)) seq term)"
  by pat_completeness auto
termination
  by (relation "measure (\<lambda>(deps, mmap, off, _). length mmap - off)") (simp_all add: scan_advances)

definition scan_to_end :: "wal_deps \<Rightarrow> byte list \<Rightarrow> nat \<times> u64 \<times> u64" where
  "scan_to_end deps mmap = scan_to_end_from deps mmap file_header_size 0 0"

text \<open>Opening. \<open>mapped\<close> is the mapping of the opened file, resized to the capacity, or the I/O error.\<close>

definition set_len :: "nat \<Rightarrow> byte list \<Rightarrow> byte list" where
  "set_len n xs = take n xs @ replicate (n - length xs) 0"

definition wal_open :: "wal_deps \<Rightarrow> (unit + byte list) \<Rightarrow> wal_writer_config \<Rightarrow> (wal_error + file_wal_writer) option" where
  "wal_open deps mapped config =
     (case mapped of Inl _ \<Rightarrow> Some (Inl WalIo)
      | Inr mmap \<Rightarrow>
        if length mmap < 8 then None
        else if slice 0 8 mmap \<noteq> wal_magic then
          do { mmap \<leftarrow> write_file_header mmap;
               Some (Inr \<lparr>w_mmap = mmap, w_cursor = file_header_size, w_config = config, w_last_seq = 0, w_highest_term = 0\<rparr>) }
        else
          do { v \<leftarrow> validate_file_header mmap;
               case v of Inl e \<Rightarrow> Some (Inl e)
               | Inr _ \<Rightarrow>
                 (case scan_to_end deps mmap of (cursor, last_seq, highest_term) \<Rightarrow>
                    Some (Inr \<lparr>w_mmap = mmap, w_cursor = cursor, w_config = config, w_last_seq = last_seq,
                               w_highest_term = highest_term\<rparr>)) })"

text \<open>The writes into the record's slice, in order: the header fields, the payload, the padding.\<close>

definition write_record ::
  "wal_deps \<Rightarrow> file_wal_writer \<Rightarrow> u64 \<Rightarrow> u64 \<Rightarrow> u64 \<Rightarrow> byte list \<Rightarrow> (wal_error + nat) \<times> file_wal_writer" where
  "write_record deps w seq term ts_ns payload =
     (let payload_len = length payload;
          record_size = align8 (record_header_size + payload_len);
          end_off = w_cursor w + record_size in
      if length (w_mmap w) < end_off then (Inl (CapacityExhausted (length (w_mmap w)) end_off), w)
      else
        let crc = crc32 deps payload;
            offset = w_cursor w;
            buf = slice offset (offset + record_size) (w_mmap w);
            buf = write_at 0 (to_le_bytes 8 seq) buf;
            buf = write_at 8 (to_le_bytes 8 ts_ns) buf;
            buf = write_at 16 (to_le_bytes 4 (of_nat payload_len :: u32)) buf;
            buf = write_at 20 (to_le_bytes 4 crc) buf;
            buf = write_at 24 (to_le_bytes 8 term) buf;
            buf = write_at 32 payload buf;
            buf = write_at (32 + payload_len) (replicate (record_size - (32 + payload_len)) 0) buf;
            w = w\<lparr>w_mmap := write_at offset buf (w_mmap w)\<rparr> in
        if sync_on_write (w_config w) \<and> \<not> flush_range deps (w_mmap w) offset record_size then (Inl WalIo, w)
        else (Inr offset, w\<lparr>w_cursor := end_off, w_last_seq := seq\<rparr>))"

definition wal_append :: "wal_deps \<Rightarrow> file_wal_writer \<Rightarrow> sequenced_command \<Rightarrow> (wal_error + nat) \<times> file_wal_writer" where
  "wal_append deps w sc =
     (if sc_term sc < w_highest_term w then (Inl (StaleTerm (sc_term sc) (w_highest_term w)), w)
      else
        let w = w\<lparr>w_highest_term := sc_term sc\<rparr> in
        case ser_command deps (sc_cmd sc) of
          None \<Rightarrow> (Inl Serialise, w)
        | Some payload \<Rightarrow> write_record deps w (sc_seq sc) (sc_term sc) (sc_ts_ns sc) payload)"

text \<open>The \<open>WalWriter\<close> trait: the file writer, with the reading of the clock as an argument, and the null writer.\<close>

definition file_append_event :: "wal_deps \<Rightarrow> u64 \<Rightarrow> file_wal_writer \<Rightarrow> event \<Rightarrow> (wal_error + unit) \<times> file_wal_writer" where
  "file_append_event deps now_ns w ev =
     (case ser_event deps ev of
        None \<Rightarrow> (Inl Serialise, w)
      | Some payload \<Rightarrow>
        (case write_record deps w (seq_get (event_seq ev)) 0 now_ns payload of
           (Inl e, w) \<Rightarrow> (Inl e, w)
         | (Inr _, w) \<Rightarrow> (Inr (), w)))"

definition null_append_event :: "unit \<Rightarrow> event \<Rightarrow> (wal_error + unit) \<times> unit" where
  "null_append_event w ev = (Inr (), w)"

definition wal_flush :: "wal_deps \<Rightarrow> file_wal_writer \<Rightarrow> wal_error + unit" where
  "wal_flush deps w = (if flush_range deps (w_mmap w) 0 (length (w_mmap w)) then Inr () else Inl WalIo)"

subsection \<open>Recovery scan (recovery.rs)\<close>

record scan_result =
  sr_commands :: "sequenced_command list"
  sr_corrupt_records :: nat
  sr_seq_gaps :: nat
  sr_highest_term :: u64

definition scan_start :: scan_result where
  "scan_start = \<lparr>sr_commands = [], sr_corrupt_records = 0, sr_seq_gaps = 0, sr_highest_term = 0\<rparr>"

definition corrupt :: "scan_result \<Rightarrow> scan_result" where
  "corrupt r = r\<lparr>sr_corrupt_records := sr_corrupt_records r + 1\<rparr>"

function scan_wal_from :: "wal_deps \<Rightarrow> byte list \<Rightarrow> u64 \<Rightarrow> nat \<Rightarrow> u64 \<Rightarrow> scan_result \<Rightarrow> scan_result" where
  "scan_wal_from deps data after_seq off last_seq r =
     (if length data < off + record_header_size then r
      else
        let seq = from_le_bytes (slice off (off + 8) data) in
        if seq = 0 then r
        else
          let ts_ns = from_le_bytes (slice (off + 8) (off + 16) data);
              len = unat (from_le_bytes (slice (off + 16) (off + 20) data) :: u32);
              crc_stored = from_le_bytes (slice (off + 20) (off + 24) data);
              term = from_le_bytes (slice (off + 24) (off + 32) data);
              payload_start = off + record_header_size;
              payload_end = payload_start + len in
          if length data < payload_end then corrupt r
          else
            let payload = slice payload_start payload_end data in
            if crc32 deps payload \<noteq> crc_stored then corrupt r
            else if term < sr_highest_term r then scan_wal_from deps data after_seq (off + align8 (record_header_size + len)) last_seq r
            else
              let r = r\<lparr>sr_highest_term := term\<rparr>;
                  r = (if seq \<noteq> last_seq + 1 \<and> last_seq \<noteq> 0 \<and> last_seq \<noteq> after_seq
                       then r\<lparr>sr_seq_gaps := sr_seq_gaps r + 1\<rparr> else r) in
              if after_seq < seq then
                (case de_command deps payload of
                   None \<Rightarrow> corrupt r
                 | Some cmd \<Rightarrow>
                   scan_wal_from deps data after_seq (off + align8 (record_header_size + len)) seq
                     (r\<lparr>sr_commands := sr_commands r @ [\<lparr>sc_term = term, sc_seq = seq, sc_ts_ns = ts_ns, sc_cmd = cmd\<rparr>]\<rparr>))
              else scan_wal_from deps data after_seq (off + align8 (record_header_size + len)) seq r)"
  by pat_completeness auto
termination
  by (relation "measure (\<lambda>(deps, data, after_seq, off, _). length data - off)") (simp_all add: scan_advances)

definition scan_wal :: "wal_deps \<Rightarrow> byte list \<Rightarrow> u64 \<Rightarrow> scan_result" where
  "scan_wal deps data after_seq =
     (if length data < file_header_size then scan_start
      else if slice 0 8 data \<noteq> wal_magic then scan_start
      else scan_wal_from deps data after_seq file_header_size after_seq scan_start)"

subsection \<open>Persistent memory (pmem.rs)\<close>

text \<open>The cache flush instructions leave the contents as they are, and are not modelled.\<close>

definition pmem_version :: u32 where
  "pmem_version = 1"

definition pmem_record_header_size :: nat where
  "pmem_record_header_size = 24"

record pmem_wal_writer =
  p_mmap :: "byte list"
  p_cursor :: nat
  p_last_seq :: u64

lemma pmem_scan_advances:
  "\<not> length (xs :: byte list) < cursor + pmem_record_header_size \<Longrightarrow>
   length xs - align8 (cursor + pmem_record_header_size + len) < length xs - cursor"
  using align8_ge [of "cursor + pmem_record_header_size + len"] by (simp add: pmem_record_header_size_def)

function pmem_scan_from :: "wal_deps \<Rightarrow> byte list \<Rightarrow> nat \<Rightarrow> u64 \<Rightarrow> nat \<times> u64" where
  "pmem_scan_from deps mmap cursor last_seq =
     (if length mmap < cursor + pmem_record_header_size then (cursor, last_seq)
      else
        let seq = from_le_bytes (slice cursor (cursor + 8) mmap) in
        if seq = 0 then (cursor, last_seq)
        else
          let len = unat (from_le_bytes (slice (cursor + 16) (cursor + 20) mmap) :: u32);
              stored_crc = from_le_bytes (slice (cursor + 20) (cursor + 24) mmap);
              payload_start = cursor + pmem_record_header_size;
              payload_end = payload_start + len in
          if length mmap < payload_end then (cursor, last_seq)
          else if crc32 deps (slice payload_start payload_end mmap) \<noteq> stored_crc then (cursor, last_seq)
          else pmem_scan_from deps mmap (align8 payload_end) seq)"
  by pat_completeness auto
termination
  by (relation "measure (\<lambda>(deps, mmap, cursor, _). length mmap - cursor)") (simp_all add: pmem_scan_advances)

definition pmem_open :: "wal_deps \<Rightarrow> (unit + byte list) \<Rightarrow> (wal_error + pmem_wal_writer) option" where
  "pmem_open deps mapped =
     (case mapped of Inl _ \<Rightarrow> Some (Inl WalIo)
      | Inr mmap \<Rightarrow>
        if length mmap < 8 then None
        else if slice 0 8 mmap \<noteq> wal_magic then
          if length mmap < 32 then None
          else
            let mmap = write_at 0 wal_magic mmap;
                mmap = write_at 8 (to_le_bytes 4 pmem_version) mmap;
                mmap = write_at 12 (replicate 20 0) mmap in
            Some (Inr \<lparr>p_mmap = mmap, p_cursor = file_header_size, p_last_seq = 0\<rparr>)
        else
          (case pmem_scan_from deps mmap file_header_size 0 of (cursor, last_seq) \<Rightarrow>
             Some (Inr \<lparr>p_mmap = mmap, p_cursor = cursor, p_last_seq = last_seq\<rparr>)))"

definition pmem_append :: "wal_deps \<Rightarrow> pmem_wal_writer \<Rightarrow> sequenced_command \<Rightarrow> (wal_error + nat) \<times> pmem_wal_writer" where
  "pmem_append deps w sc =
     (case ser_command deps (sc_cmd sc) of
        None \<Rightarrow> (Inl Serialise, w)
      | Some payload \<Rightarrow>
        let record_size = align8 (pmem_record_header_size + length payload);
            end_off = p_cursor w + record_size in
        if length (p_mmap w) < end_off then (Inl (CapacityExhausted (length (p_mmap w)) end_off), w)
        else
          let crc = crc32 deps payload;
              offset = p_cursor w;
              buf = slice offset (offset + record_size) (p_mmap w);
              buf = write_at 0 (to_le_bytes 8 (sc_seq sc)) buf;
              buf = write_at 8 (to_le_bytes 8 (sc_ts_ns sc)) buf;
              buf = write_at 16 (to_le_bytes 4 (of_nat (length payload) :: u32)) buf;
              buf = write_at 20 (to_le_bytes 4 crc) buf;
              buf = write_at pmem_record_header_size payload buf;
              buf = write_at (pmem_record_header_size + length payload)
                (replicate (record_size - (pmem_record_header_size + length payload)) 0) buf in
          (Inr offset, w\<lparr>p_mmap := write_at offset buf (p_mmap w), p_cursor := end_off, p_last_seq := sc_seq sc\<rparr>))"

declare scan_to_end_from.simps [simp del] scan_wal_from.simps [simp del] pmem_scan_from.simps [simp del]

end
