(* ===== verification/Snapshot.thy ===== *)
theory Snapshot
  imports Wal "HOL-Library.List_Lexorder" "HOL-Library.Char_ord"
begin

text \<open>
  Snapshot files and recovery (\<open>wal/src/snapshot.rs\<close>, \<open>recover\<close> of \<open>wal/src/recovery.rs\<close>). The snapshot
  directory is the list of its files, in the order \<open>read_dir\<close> gives them. \<open>SnapshotWriter::write\<close> is the sequence of its
  file system calls, each of which may fail, a write after some of its bytes.
\<close>

subsection \<open>File names\<close>

definition digit_char :: "nat \<Rightarrow> char" where
  "digit_char d = char_of (48 + d)"

fun decimal :: "nat \<Rightarrow> string" where
  "decimal n = (if n < 10 then [digit_char n] else decimal (n div 10) @ [digit_char (n mod 10)])"

declare decimal.simps [simp del]

definition pad0 :: "nat \<Rightarrow> string \<Rightarrow> string" where
  "pad0 k s = replicate (k - length s) CHR ''0'' @ s"

definition shard_prefix :: "u32 \<Rightarrow> string" where
  "shard_prefix shard_id = ''shard_'' @ pad0 4 (decimal (unat shard_id)) @ ''_''"

definition snapshot_path :: "u32 \<Rightarrow> u64 \<Rightarrow> string" where
  "snapshot_path shard_id seq = shard_prefix shard_id @ pad0 20 (decimal (unat seq)) @ ''.snap''"

text \<open>\<open>final_path.with_extension("tmp")\<close>.\<close>

definition tmp_path :: "u32 \<Rightarrow> u64 \<Rightarrow> string" where
  "tmp_path shard_id seq = shard_prefix shard_id @ pad0 20 (decimal (unat seq)) @ ''.tmp''"

subsection \<open>The directory\<close>

type_synonym files = "(string \<times> byte list) list"

datatype snap_dir = NoDir | Unreadable | Dir files

definition file_get :: "string \<Rightarrow> files \<Rightarrow> byte list" where
  "file_get n fs = (case map_of fs n of None \<Rightarrow> [] | Some bs \<Rightarrow> bs)"

definition file_remove :: "string \<Rightarrow> files \<Rightarrow> files" where
  "file_remove n fs = filter (\<lambda>(m, _). m \<noteq> n) fs"

definition file_put :: "string \<Rightarrow> byte list \<Rightarrow> files \<Rightarrow> files" where
  "file_put n bs fs = (n, bs) # file_remove n fs"

datatype fs_op = CreateDirAll | OpenTruncate string | WriteAll string "byte list" | SyncData string | Rename string string

fun fs_files :: "fs_op \<Rightarrow> files \<Rightarrow> files" where
  "fs_files CreateDirAll fs = fs"
| "fs_files (OpenTruncate n) fs = file_put n [] fs"
| "fs_files (WriteAll n bs) fs = file_put n (file_get n fs @ bs) fs"
| "fs_files (SyncData n) fs = fs"
| "fs_files (Rename a b) fs = file_put b (file_get a fs) (file_remove a fs)"

fun fs_do :: "fs_op \<Rightarrow> snap_dir \<Rightarrow> snap_dir" where
  "fs_do op (Dir fs) = Dir (fs_files op fs)"
| "fs_do CreateDirAll NoDir = Dir []"
| "fs_do _ d = d"

text \<open>What a failing call leaves behind: a write may have written \<open>j\<close> of its bytes, the others nothing.\<close>

fun fs_partial :: "nat \<Rightarrow> fs_op \<Rightarrow> snap_dir \<Rightarrow> snap_dir" where
  "fs_partial j (WriteAll n bs) d = fs_do (WriteAll n (take j bs)) d"
| "fs_partial j _ d = d"

subsection \<open>Writing a snapshot\<close>

datatype snapshot_error =
    SnapIo
  | SnapInvalidMagic
  | SnapUnsupportedVersion u32
  | Crc32Mismatch u32 u32
  | SnapSerialise
  | PayloadTooLarge nat

definition snap_magic :: "byte list" where
  "snap_magic = [0x4D, 0x52, 0x45, 0x53, 0x4E, 0x30, 0x30, 0x31]"

definition snap_version :: u32 where
  "snap_version = 1"

definition snap_header_size :: nat where
  "snap_header_size = 48"

record snapshot_meta =
  sm_shard_id :: u32
  sm_seq :: u64
  sm_ts_ns :: u64
  sm_payload_len :: u32
  sm_crc32 :: u32

record snapshot =
  sn_meta :: snapshot_meta
  sn_payload :: "byte list"

definition snapshot_header :: "u32 \<Rightarrow> u32 \<Rightarrow> u64 \<Rightarrow> u64 \<Rightarrow> byte list \<Rightarrow> byte list" where
  "snapshot_header crc shard_id seq ts_ns payload =
     (let header = replicate snap_header_size 0;
          header = write_at 0 snap_magic header;
          header = write_at 8 (to_le_bytes 4 snap_version) header;
          header = write_at 12 (to_le_bytes 4 shard_id) header;
          header = write_at 16 (to_le_bytes 8 seq) header;
          header = write_at 24 (to_le_bytes 8 ts_ns) header;
          header = write_at 32 (to_le_bytes 4 (of_nat (length payload) :: u32)) header in
      write_at 36 (to_le_bytes 4 crc) header)"

definition snapshot_ops :: "wal_deps \<Rightarrow> u32 \<Rightarrow> u64 \<Rightarrow> u64 \<Rightarrow> byte list \<Rightarrow> fs_op list" where
  "snapshot_ops deps shard_id seq ts_ns payload =
     (let tmp = tmp_path shard_id seq in
      [CreateDirAll, OpenTruncate tmp, WriteAll tmp (snapshot_header (crc32 deps payload) shard_id seq ts_ns payload),
       WriteAll tmp payload, SyncData tmp, Rename tmp (snapshot_path shard_id seq)])"

text \<open>\<open>fault\<close> is the call that fails, with the bytes it still writes, if one does.\<close>

definition snapshot_write ::
  "wal_deps \<Rightarrow> nat \<Rightarrow> (nat \<times> nat) option \<Rightarrow> snap_dir \<Rightarrow> u32 \<Rightarrow> u64 \<Rightarrow> u64 \<Rightarrow> byte list \<Rightarrow> (snapshot_error + string) \<times> snap_dir" where
  "snapshot_write deps max_payload fault d shard_id seq ts_ns payload =
     (if max_payload < length payload then (Inl (PayloadTooLarge (length payload)), d)
      else
        let ops = snapshot_ops deps shard_id seq ts_ns payload in
        case fault of
          Some (k, j) \<Rightarrow>
            if k < length ops then (Inl SnapIo, fs_partial j (ops ! k) (fold fs_do (take k ops) d))
            else (Inr (snapshot_path shard_id seq), fold fs_do ops d)
        | None \<Rightarrow> (Inr (snapshot_path shard_id seq), fold fs_do ops d))"

subsection \<open>Reading snapshots\<close>

definition read_snapshot :: "wal_deps \<Rightarrow> byte list option \<Rightarrow> snapshot_error + snapshot" where
  "read_snapshot deps file =
     (case file of None \<Rightarrow> Inl SnapIo
      | Some bs \<Rightarrow>
        if length bs < snap_header_size then Inl SnapIo
        else
          let header = take snap_header_size bs in
          if slice 0 8 header \<noteq> snap_magic then Inl SnapInvalidMagic
          else
            let version = from_le_bytes (slice 8 12 header) in
            if version \<noteq> snap_version then Inl (SnapUnsupportedVersion version)
            else
              let shard_id = from_le_bytes (slice 12 16 header);
                  seq = from_le_bytes (slice 16 24 header);
                  ts_ns = from_le_bytes (slice 24 32 header);
                  payload_len = from_le_bytes (slice 32 36 header);
                  crc_stored = from_le_bytes (slice 36 40 header) in
              if length bs - snap_header_size < unat payload_len then Inl SnapIo
              else
                let payload = take (unat payload_len) (drop snap_header_size bs);
                    crc_computed = crc32 deps payload in
                if crc_stored \<noteq> crc_computed then Inl (Crc32Mismatch crc_stored crc_computed)
                else Inr \<lparr>sn_meta = \<lparr>sm_shard_id = shard_id, sm_seq = seq, sm_ts_ns = ts_ns, sm_payload_len = payload_len,
                                     sm_crc32 = crc_stored\<rparr>, sn_payload = payload\<rparr>)"

definition starts_with :: "string \<Rightarrow> string \<Rightarrow> bool" where
  "starts_with p n \<longleftrightarrow> take (length p) n = p"

definition has_snap_extension :: "string \<Rightarrow> bool" where
  "has_snap_extension n \<longleftrightarrow> 5 < length n \<and> drop (length n - 5) n = ''.snap''"

definition is_candidate :: "u32 \<Rightarrow> string \<Rightarrow> bool" where
  "is_candidate shard_id n \<longleftrightarrow> has_snap_extension n \<and> starts_with (shard_prefix shard_id) n"

fun first_valid :: "wal_deps \<Rightarrow> files \<Rightarrow> string list \<Rightarrow> snapshot option" where
  "first_valid deps fs [] = None"
| "first_valid deps fs (n # ns) =
     (case read_snapshot deps (map_of fs n) of Inr s \<Rightarrow> Some s | Inl _ \<Rightarrow> first_valid deps fs ns)"

definition latest_snapshot :: "wal_deps \<Rightarrow> snap_dir \<Rightarrow> u32 \<Rightarrow> snapshot_error + snapshot option" where
  "latest_snapshot deps d shard_id =
     (case d of
        NoDir \<Rightarrow> Inr None
      | Unreadable \<Rightarrow> Inl SnapIo
      | Dir fs \<Rightarrow> Inr (first_valid deps fs (rev (sort (filter (is_candidate shard_id) (map fst fs))))))"

subsection \<open>Recovery\<close>

datatype recovery_error = RecoveryIo | RecoverySnapshot snapshot_error | WalNotFound | InvalidWalHeader | Deserialise

record recovery_output =
  ro_snapshot :: "snapshot option"
  ro_snapshot_seq :: u64
  ro_commands :: "sequenced_command list"
  ro_last_recovered_seq :: u64
  ro_corrupt_records :: nat
  ro_seq_gaps :: nat
  ro_highest_term :: u64

text \<open>\<open>wal\<close> is the log file: \<open>None\<close> if it does not exist, else what reading it returns.\<close>

definition recover :: "wal_deps \<Rightarrow> (unit + byte list) option \<Rightarrow> snap_dir \<Rightarrow> u32 \<Rightarrow> recovery_error + recovery_output" where
  "recover deps wal d shard_id =
     (case wal of None \<Rightarrow> Inl WalNotFound
      | Some contents \<Rightarrow>
        (case latest_snapshot deps d shard_id of
           Inl e \<Rightarrow> Inl (RecoverySnapshot e)
         | Inr snapshot \<Rightarrow>
           let snapshot_seq = (case snapshot of None \<Rightarrow> 0 | Some s \<Rightarrow> sm_seq (sn_meta s)) in
           case contents of Inl _ \<Rightarrow> Inl RecoveryIo
           | Inr wal_bytes \<Rightarrow>
             let records = scan_wal deps wal_bytes snapshot_seq;
                 commands = sr_commands records in
             Inr \<lparr>ro_snapshot = snapshot, ro_snapshot_seq = snapshot_seq, ro_commands = commands,
                  ro_last_recovered_seq = (if commands = [] then 0 else sc_seq (last commands)),
                  ro_corrupt_records = sr_corrupt_records records, ro_seq_gaps = sr_seq_gaps records,
                  ro_highest_term = sr_highest_term records\<rparr>))"

end
