(* ===== verification/Wal_Props.thy ===== *)
theory Wal_Props
  imports Wal "HOL-Library.Sublist"
begin

text \<open>
  What the write-ahead log guarantees: a record is laid out as the scan reads it, every acknowledged command is
  recovered whatever follows it in the file, and reopening an undamaged log restores the writer.
\<close>

subsection \<open>The layout of a record\<close>

definition record_bytes :: "wal_deps \<Rightarrow> u64 \<Rightarrow> u64 \<Rightarrow> u64 \<Rightarrow> byte list \<Rightarrow> byte list" where
  "record_bytes deps seq term ts_ns payload =
     to_le_bytes 8 seq @ to_le_bytes 8 ts_ns @ to_le_bytes 4 (of_nat (length payload) :: u32) @ to_le_bytes 4 (crc32 deps payload) @
     to_le_bytes 8 term @ payload @ replicate (align8 (32 + length payload) - (32 + length payload)) 0"

lemma length_record_bytes [simp]: "length (record_bytes deps seq term ts_ns payload) = align8 (32 + length payload)"
  using align8_ge [of "32 + length payload"] by (simp add: record_bytes_def)

lemma write_at_skip: "length xs \<le> n \<Longrightarrow> write_at n bs (xs @ ys) = xs @ write_at (n - length xs) bs ys"
  by (simp add: write_at_def)

lemma write_at_0: "write_at 0 bs ys = bs @ drop (length bs) ys"
  by (simp add: write_at_def)

lemma record_buffer:
  assumes "length buf = align8 (32 + length payload)"
  shows "write_at (32 + length payload) (replicate (align8 (32 + length payload) - (32 + length payload)) 0)
     (write_at 32 payload (write_at 24 (to_le_bytes 8 term) (write_at 20 (to_le_bytes 4 (crc32 deps payload))
       (write_at 16 (to_le_bytes 4 (of_nat (length payload) :: u32)) (write_at 8 (to_le_bytes 8 ts_ns)
         (write_at 0 (to_le_bytes 8 seq) buf)))))) = record_bytes deps seq term ts_ns payload"
  using assms align8_ge [of "32 + length payload"] by (simp add: write_at_skip write_at_0 record_bytes_def)

lemma write_record_eq:
  assumes "w_cursor w + align8 (32 + length payload) \<le> length (w_mmap w)"
    "rb = record_bytes deps seq term ts_ns payload" "w' = w\<lparr>w_mmap := write_at (w_cursor w) rb (w_mmap w)\<rparr>"
  shows "write_record deps w seq term ts_ns payload =
    (if sync_on_write (w_config w) \<and> \<not> flush_range deps (w_mmap w') (w_cursor w) (length rb) then (Inl WalIo, w')
     else (Inr (w_cursor w), w'\<lparr>w_cursor := w_cursor w + length rb, w_last_seq := seq\<rparr>))"
proof -
  have "length (slice (w_cursor w) (w_cursor w + align8 (32 + length payload)) (w_mmap w)) = align8 (32 + length payload)"
    using assms(1) by (simp add: slice_def)
  from record_buffer [OF this, of _ deps ts_ns seq] show ?thesis
    using assms by (simp add: write_record_def record_header_size_def Let_def)
qed

lemma record_reads:
  assumes "drop off data = record_bytes deps seq term ts_ns payload @ rest" "length payload < 2 ^ 32"
  shows "\<not> length data < off + record_header_size" "\<not> length data < off + record_header_size + length payload"
    "from_le_bytes (slice off (off + 8) data) = seq" "from_le_bytes (slice (off + 8) (off + 16) data) = ts_ns"
    "unat (from_le_bytes (slice (off + 16) (off + 20) data) :: u32) = length payload"
    "from_le_bytes (slice (off + 20) (off + 24) data) = crc32 deps payload"
    "from_le_bytes (slice (off + 24) (off + 32) data) = term"
    "slice (off + record_header_size) (off + record_header_size + length payload) data = payload"
    "drop (off + align8 (record_header_size + length payload)) data = rest"
proof -
  have "length (drop off data) = align8 (32 + length payload) + length rest"
    by (simp add: assms(1))
  moreover have "0 < align8 (32 + length payload)" "32 + length payload \<le> align8 (32 + length payload)"
    using align8_ge [of "32 + length payload"] by auto
  ultimately have "off + (32 + length payload) \<le> length data"
    by (simp only: length_drop)
  then show "\<not> length data < off + record_header_size" "\<not> length data < off + record_header_size + length payload"
    by (simp_all add: record_header_size_def)
  have sl: "slice (off + a) (off + b) data = slice a b (record_bytes deps seq term ts_ns payload @ rest)" for a b
    by (simp add: slice_drop assms(1))
  note rb = record_bytes_def slice_append_right slice_append_left slice_all
  show "from_le_bytes (slice off (off + 8) data) = seq"
    using sl [of 0 8] by (simp add: rb from_to_le_bytes)
  show "from_le_bytes (slice (off + 8) (off + 16) data) = ts_ns"
    unfolding sl by (simp add: rb from_to_le_bytes)
  have "slice (off + 16) (off + 20) data = to_le_bytes 4 (of_nat (length payload) :: u32)"
    unfolding sl by (simp add: rb)
  then show "unat (from_le_bytes (slice (off + 16) (off + 20) data) :: u32) = length payload"
    using assms(2) by (simp add: from_to_le_bytes unsigned_of_nat take_bit_nat_eq_self)
  show "from_le_bytes (slice (off + 20) (off + 24) data) = crc32 deps payload"
    unfolding sl by (simp add: rb from_to_le_bytes)
  show "from_le_bytes (slice (off + 24) (off + 32) data) = term"
    unfolding sl by (simp add: rb from_to_le_bytes)
  show "slice (off + record_header_size) (off + record_header_size + length payload) data = payload"
    using sl [of 32 "32 + length payload"] by (simp add: rb record_header_size_def add.assoc)
  show "drop (off + align8 (record_header_size + length payload)) data = rest"
  proof -
    have "drop (align8 (32 + length payload)) (drop off data) = rest"
      by (simp add: assms(1))
    then show ?thesis
      by (simp add: record_header_size_def add.commute)
  qed
qed

subsection \<open>The contents of a log\<close>

type_synonym wal_entry = "u64 \<times> u64 \<times> u64 \<times> byte list"

fun entry_bytes :: "wal_deps \<Rightarrow> wal_entry \<Rightarrow> byte list" where
  "entry_bytes deps (seq, term, ts_ns, payload) = record_bytes deps seq term ts_ns payload"

text \<open>The first \<open>n\<close> bytes of the file are a file header and the records of \<open>es\<close>.\<close>

definition log_prefix :: "wal_deps \<Rightarrow> wal_entry list \<Rightarrow> byte list \<Rightarrow> nat \<Rightarrow> bool" where
  "log_prefix deps es data n \<longleftrightarrow> n \<le> length data \<and>
     (\<exists>reserved. length reserved = 20 \<and>
        take n data = wal_magic @ to_le_bytes 4 wal_version @ reserved @ concat (map (entry_bytes deps) es))"

definition wal_holds :: "wal_deps \<Rightarrow> file_wal_writer \<Rightarrow> wal_entry list \<Rightarrow> bool" where
  "wal_holds deps w es \<longleftrightarrow> log_prefix deps es (w_mmap w) (w_cursor w)"

lemma take_write_at: "n \<le> length xs \<Longrightarrow> take n (write_at n bs xs) = take n xs"
  by (simp add: write_at_def)

lemma take_past_write_at: "n \<le> length xs \<Longrightarrow> take (n + length bs) (write_at n bs xs) = take n xs @ bs"
  by (simp add: write_at_def)

lemma write_record_holds:
  assumes "wal_holds deps w es" "write_record deps w seq term ts_ns payload = (r, w')"
  shows "wal_holds deps w' (case r of Inr _ \<Rightarrow> es @ [(seq, term, ts_ns, payload)] | Inl _ \<Rightarrow> es)"
    "w_highest_term w' = w_highest_term w"
proof -
  let ?rb = "record_bytes deps seq term ts_ns payload"
  have "wal_holds deps w' (case r of Inr _ \<Rightarrow> es @ [(seq, term, ts_ns, payload)] | Inl _ \<Rightarrow> es) \<and> w_highest_term w' = w_highest_term w"
  proof (cases "w_cursor w + align8 (32 + length payload) \<le> length (w_mmap w)")
    case True
    then show ?thesis
      using assms(1) write_record_eq [OF True refl refl, of deps seq "term" ts_ns] take_past_write_at [of "w_cursor w" "w_mmap w" ?rb]
      by (auto simp: assms(2) wal_holds_def log_prefix_def take_write_at split: if_splits)
  next
    case False
    then show ?thesis
      using assms by (auto simp: write_record_def record_header_size_def Let_def)
  qed
  then show "wal_holds deps w' (case r of Inr _ \<Rightarrow> es @ [(seq, term, ts_ns, payload)] | Inl _ \<Rightarrow> es)"
    "w_highest_term w' = w_highest_term w"
    by auto
qed

subsection \<open>Logs of commands\<close>

text \<open>Appending a sequence of commands: the acknowledged ones, and the writer at the end.\<close>

fun run_appends :: "wal_deps \<Rightarrow> file_wal_writer \<Rightarrow> sequenced_command list \<Rightarrow> sequenced_command list \<times> file_wal_writer" where
  "run_appends deps w [] = ([], w)"
| "run_appends deps w (sc # scs) =
     (case wal_append deps w sc of
        (Inl _, w) \<Rightarrow> run_appends deps w scs
      | (Inr _, w) \<Rightarrow> (case run_appends deps w scs of (acked, w) \<Rightarrow> (sc # acked, w)))"

definition cmd_entry :: "wal_deps \<Rightarrow> sequenced_command \<Rightarrow> wal_entry" where
  "cmd_entry deps sc = (sc_seq sc, sc_term sc, sc_ts_ns sc, the (ser_command deps (sc_cmd sc)))"

text \<open>What the log relies on in bincode: a serialised command deserialises to itself, and fits the length field.\<close>

definition codec_ok :: "wal_deps \<Rightarrow> bool" where
  "codec_ok deps \<longleftrightarrow>
     (\<forall>c bs. ser_command deps c = Some bs \<longrightarrow> de_command deps bs = Some c \<and> length bs < 2 ^ 32)"

definition loggable :: "wal_deps \<Rightarrow> sequenced_command list \<Rightarrow> bool" where
  "loggable deps scs \<longleftrightarrow> sorted (map sc_term scs) \<and> (\<forall>sc \<in> set scs. ser_command deps (sc_cmd sc) \<noteq> None)"

definition holds_commands :: "wal_deps \<Rightarrow> file_wal_writer \<Rightarrow> sequenced_command list \<Rightarrow> bool" where
  "holds_commands deps w scs \<longleftrightarrow>
     wal_holds deps w (map (cmd_entry deps) scs) \<and> loggable deps scs \<and> (\<forall>sc \<in> set scs. sc_term sc \<le> w_highest_term w)"

lemma wal_append_holds:
  assumes "holds_commands deps w scs" "wal_append deps w sc = (r, w')"
  shows "holds_commands deps w' (case r of Inr _ \<Rightarrow> scs @ [sc] | Inl _ \<Rightarrow> scs)"
proof (cases "sc_term sc < w_highest_term w")
  case True
  then show ?thesis
    using assms by (auto simp: wal_append_def)
next
  case False
  let ?w = "w\<lparr>w_highest_term := sc_term sc\<rparr>"
  have up: "\<forall>sc' \<in> set scs. sc_term sc' \<le> sc_term sc"
    using False assms(1) by (auto simp: holds_commands_def intro: order_trans)
  have w: "wal_holds deps ?w (map (cmd_entry deps) scs)"
    using assms(1) by (simp add: holds_commands_def wal_holds_def)
  show ?thesis
  proof (cases "ser_command deps (sc_cmd sc)")
    case None
    then show ?thesis
      using assms False up w by (auto simp: wal_append_def holds_commands_def)
  next
    case (Some payload)
    then have wr: "write_record deps ?w (sc_seq sc) (sc_term sc) (sc_ts_ns sc) payload = (r, w')"
      using assms(2) False by (simp add: wal_append_def)
    show ?thesis
      using write_record_holds [OF w wr] assms(1) up Some
      by (auto simp: holds_commands_def loggable_def cmd_entry_def sorted_append split: sum.splits)
  qed
qed

lemma run_appends_holds:
  assumes "holds_commands deps w scs" "run_appends deps w new = (acked, w')"
  shows "holds_commands deps w' (scs @ acked)"
  using assms
proof (induction new arbitrary: w scs acked w')
  case (Cons sc new)
  obtain r w1 where a: "wal_append deps w sc = (r, w1)"
    by fastforce
  show ?case
  proof (cases r)
    case (Inl e)
    then show ?thesis
      using Cons a wal_append_holds [OF Cons.prems(1) a] by simp
  next
    case (Inr off)
    obtain rest where rest: "run_appends deps w1 new = (rest, w')" "acked = sc # rest"
      using Cons.prems(2) a Inr by (auto split: prod.splits)
    then show ?thesis
      using Cons.IH [OF _ rest(1), of "scs @ [sc]"] wal_append_holds [OF Cons.prems(1) a] Inr by simp
  qed
qed simp

subsection \<open>Scanning a log of commands\<close>

fun count_gaps :: "u64 \<Rightarrow> u64 \<Rightarrow> sequenced_command list \<Rightarrow> nat" where
  "count_gaps after_seq last_seq [] = 0"
| "count_gaps after_seq last_seq (sc # scs) =
     (if sc_seq sc \<noteq> last_seq + 1 \<and> last_seq \<noteq> 0 \<and> last_seq \<noteq> after_seq then 1 else 0) + count_gaps after_seq (sc_seq sc) scs"

abbreviation log_bytes :: "wal_deps \<Rightarrow> sequenced_command list \<Rightarrow> byte list" where
  "log_bytes deps scs \<equiv> concat (map (entry_bytes deps) (map (cmd_entry deps) scs))"

definition scanned :: "u64 \<Rightarrow> u64 \<Rightarrow> sequenced_command list \<Rightarrow> scan_result \<Rightarrow> scan_result" where
  "scanned after_seq last_seq scs r =
     r\<lparr>sr_commands := sr_commands r @ filter (\<lambda>sc. after_seq < sc_seq sc) scs,
       sr_seq_gaps := sr_seq_gaps r + count_gaps after_seq last_seq scs,
       sr_highest_term := (if scs = [] then sr_highest_term r else sc_term (last scs))\<rparr>"

lemma scanned_Cons:
  "scanned after_seq (sc_seq sc) scs
     (let r = r\<lparr>sr_highest_term := sc_term sc\<rparr>;
          r = (if sc_seq sc \<noteq> last_seq + 1 \<and> last_seq \<noteq> 0 \<and> last_seq \<noteq> after_seq then r\<lparr>sr_seq_gaps := sr_seq_gaps r + 1\<rparr> else r) in
      if after_seq < sc_seq sc then r\<lparr>sr_commands := sr_commands r @ [sc]\<rparr> else r) =
   scanned after_seq last_seq (sc # scs) r"
  by (simp add: scanned_def Let_def)

lemma scan_wal_from_log:
  assumes "codec_ok deps" "drop off data = log_bytes deps scs @ rest" "loggable deps scs"
    "\<forall>sc \<in> set scs. sc_seq sc \<noteq> 0 \<and> sr_highest_term r \<le> sc_term sc"
  shows "scan_wal_from deps data after_seq off last_seq r =
    scan_wal_from deps data after_seq (off + length (log_bytes deps scs)) (if scs = [] then last_seq else sc_seq (last scs))
      (scanned after_seq last_seq scs r)"
  using assms(2-4)
proof (induction scs arbitrary: off last_seq r)
  case Nil
  then show ?case
    by (simp add: scanned_def)
next
  case (Cons sc scs)
  obtain payload where p: "ser_command deps (sc_cmd sc) = Some payload"
    using Cons.prems(2) by (auto simp: loggable_def)
  then have c: "de_command deps payload = Some (sc_cmd sc)" "length payload < 2 ^ 32"
    using assms(1) by (auto simp: codec_ok_def)
  have e: "cmd_entry deps sc = (sc_seq sc, sc_term sc, sc_ts_ns sc, payload)"
    by (simp add: cmd_entry_def p)
  have "drop off data = record_bytes deps (sc_seq sc) (sc_term sc) (sc_ts_ns sc) payload @ log_bytes deps scs @ rest"
    using Cons.prems(1) by (simp add: e)
  note reads = record_reads [OF this c(2)]
  let ?off = "off + align8 (record_header_size + length payload)"
  let ?r = "let r = r\<lparr>sr_highest_term := sc_term sc\<rparr>;
          r = (if sc_seq sc \<noteq> last_seq + 1 \<and> last_seq \<noteq> 0 \<and> last_seq \<noteq> after_seq then r\<lparr>sr_seq_gaps := sr_seq_gaps r + 1\<rparr> else r) in
      if after_seq < sc_seq sc then r\<lparr>sr_commands := sr_commands r @ [sc]\<rparr> else r"
  have one: "scan_wal_from deps data after_seq off last_seq r = scan_wal_from deps data after_seq ?off (sc_seq sc) ?r"
  proof -
    have g: "sc_seq sc \<noteq> 0" "\<not> sc_term sc < sr_highest_term r" "\<lparr>sc_term = sc_term sc, sc_seq = sc_seq sc, sc_ts_ns = sc_ts_ns sc, sc_cmd = sc_cmd sc\<rparr> = sc"
      using Cons.prems(3) by auto
    show ?thesis
      by (subst scan_wal_from.simps) (simp only: reads(1-8) c(1) g Let_def if_False if_True option.case simp_thms
          if_distrib [of "scan_wal_from deps data after_seq ?off (sc_seq sc)"])
  qed
  have "sr_highest_term ?r = sc_term sc"
    by (simp add: Let_def)
  then have rest: "scan_wal_from deps data after_seq ?off (sc_seq sc) ?r =
      scan_wal_from deps data after_seq (?off + length (log_bytes deps scs)) (if scs = [] then sc_seq sc else sc_seq (last scs))
        (scanned after_seq (sc_seq sc) scs ?r)"
    using Cons.prems by (intro Cons.IH [OF reads(9)]) (auto simp: loggable_def)
  have off: "?off + length (log_bytes deps scs) = off + length (log_bytes deps (sc # scs))"
    by (simp add: e record_header_size_def)
  show ?case
    unfolding one rest scanned_Cons off by (cases "scs = []") simp_all
qed

lemma scan_wal_extends: "prefix xs (sr_commands r) \<Longrightarrow> prefix xs (sr_commands (scan_wal_from deps data after_seq off last_seq r))"
proof (induction "length data - off" arbitrary: off last_seq r rule: less_induct)
  case less
  have IH: "prefix xs (sr_commands (scan_wal_from deps data after_seq (off + align8 (record_header_size + len)) l r'))"
    if "\<not> length data < off + record_header_size" "prefix xs (sr_commands r')" for len l r'
    using less.hyps [OF scan_advances [OF that(1)] that(2)] .
  show ?case
    using less.prems
    by (subst scan_wal_from.simps) (auto simp: corrupt_def Let_def prefix_append split: option.splits intro!: IH)
qed

lemma scan_to_end_log:
  assumes "codec_ok deps" "drop off data = log_bytes deps scs @ rest" "loggable deps scs" "\<forall>sc \<in> set scs. sc_seq sc \<noteq> 0"
  shows "scan_to_end_from deps data off last_seq highest =
    scan_to_end_from deps data (off + length (log_bytes deps scs)) (if scs = [] then last_seq else sc_seq (last scs))
      (if scs = [] then highest else sc_term (last scs))"
  using assms(2-4)
proof (induction scs arbitrary: off last_seq highest)
  case (Cons sc scs)
  obtain payload where p: "ser_command deps (sc_cmd sc) = Some payload"
    using Cons.prems(2) by (auto simp: loggable_def)
  then have c: "length payload < 2 ^ 32"
    using assms(1) by (auto simp: codec_ok_def)
  have e: "cmd_entry deps sc = (sc_seq sc, sc_term sc, sc_ts_ns sc, payload)"
    by (simp add: cmd_entry_def p)
  have "drop off data = record_bytes deps (sc_seq sc) (sc_term sc) (sc_ts_ns sc) payload @ log_bytes deps scs @ rest"
    using Cons.prems(1) by (simp add: e)
  note reads = record_reads [OF this c]
  let ?off = "off + align8 (record_header_size + length payload)"
  have one: "scan_to_end_from deps data off last_seq highest = scan_to_end_from deps data ?off (sc_seq sc) (sc_term sc)"
    using Cons.prems(3) by (subst scan_to_end_from.simps) (simp add: reads Let_def)
  have rest: "scan_to_end_from deps data ?off (sc_seq sc) (sc_term sc) =
      scan_to_end_from deps data (?off + length (log_bytes deps scs)) (if scs = [] then sc_seq sc else sc_seq (last scs))
        (if scs = [] then sc_term sc else sc_term (last scs))"
    using Cons.prems by (intro Cons.IH [OF reads(9)]) (auto simp: loggable_def)
  have off: "?off + length (log_bytes deps scs) = off + length (log_bytes deps (sc # scs))"
    by (simp add: e record_header_size_def)
  show ?case
    unfolding one rest off by (cases "scs = []") simp_all
qed simp

subsection \<open>Opening a new file\<close>

lemma length_wal_magic [simp]: "length wal_magic = 8"
  by (simp add: wal_magic_def)

lemma wal_open_new:
  assumes "wal_open deps (Inr mapped) config = Some (Inr w)" "slice 0 8 mapped \<noteq> wal_magic" "file_header_size \<le> length mapped"
  shows "holds_commands deps w []" "w_last_seq w = 0" "w_highest_term w = 0" "w_config w = config"
    "drop (w_cursor w) (w_mmap w) = drop file_header_size mapped"
proof -
  have w: "w = \<lparr>w_mmap = wal_magic @ to_le_bytes 4 wal_version @ drop 12 mapped, w_cursor = file_header_size, w_config = config,
      w_last_seq = 0, w_highest_term = 0\<rparr>"
    using assms by (simp add: wal_open_def write_file_header_def write_at_skip write_at_0 file_header_size_def)
  show "holds_commands deps w []" "drop (w_cursor w) (w_mmap w) = drop file_header_size mapped"
    using assms(3) by (auto simp: w holds_commands_def loggable_def wal_holds_def log_prefix_def file_header_size_def
        intro!: exI [of _ "take 20 (drop 12 mapped)"])
  show "w_last_seq w = 0" "w_highest_term w = 0" "w_config w = config"
    by (simp_all add: w)
qed

lemma log_prefix_drop:
  assumes "log_prefix deps es data n"
  shows "drop file_header_size data = concat (map (entry_bytes deps) es) @ drop n data" "file_header_size \<le> length data"
    "slice 0 8 data = wal_magic" "slice 8 12 data = to_le_bytes 4 wal_version"
    "n = file_header_size + length (concat (map (entry_bytes deps) es))"
proof -
  obtain reserved where r: "length reserved = 20" "n \<le> length data"
    "take n data = wal_magic @ to_le_bytes 4 wal_version @ reserved @ concat (map (entry_bytes deps) es)"
    using assms by (auto simp: log_prefix_def)
  have "data = take n data @ drop n data"
    by simp
  then have d: "data = wal_magic @ to_le_bytes 4 wal_version @ reserved @ concat (map (entry_bytes deps) es) @ drop n data"
    by (simp add: r(3))
  have "drop file_header_size (wal_magic @ to_le_bytes 4 wal_version @ reserved @ x) = x" for x
    using r(1) by (simp add: file_header_size_def)
  then show "drop file_header_size data = concat (map (entry_bytes deps) es) @ drop n data"
    by (subst d) blast
  show "file_header_size \<le> length data"
    by (subst d) (simp add: r(1) file_header_size_def)
  show "slice 0 8 data = wal_magic"
    by (subst d) (simp add: slice_append_left slice_all)
  show "slice 8 12 data = to_le_bytes 4 wal_version"
    by (subst d) (simp add: slice_append_right slice_append_left slice_all)
  show "n = file_header_size + length (concat (map (entry_bytes deps) es))"
    using arg_cong [OF r(3), of length] r(1,2) by (simp only: length_take) (simp add: file_header_size_def)
qed

lemma scan_wal_log:
  assumes "codec_ok deps" "log_prefix deps (map (cmd_entry deps) scs) data n" "loggable deps scs" "\<forall>sc \<in> set scs. sc_seq sc \<noteq> 0"
  shows "scan_wal deps data after_seq =
    scan_wal_from deps data after_seq n (if scs = [] then after_seq else sc_seq (last scs)) (scanned after_seq after_seq scs scan_start)"
proof -
  note lp = log_prefix_drop [OF assms(2)]
  have "\<forall>sc \<in> set scs. sc_seq sc \<noteq> 0 \<and> sr_highest_term scan_start \<le> sc_term sc"
    using assms(4) by (simp add: scan_start_def)
  from scan_wal_from_log [OF assms(1) lp(1) assms(3) this, of after_seq after_seq] show ?thesis
    using lp(2,3,5) by (simp add: scan_wal_def)
qed

text \<open>C27: Every acknowledged command survives. After any sequence of appends to a new log, some of which may have failed,
  and whatever the bytes behind the writer's cursor are (a torn record, an unsynced one, garbage), recovery replays the
  acknowledged commands after the snapshot in their order before anything else.\<close>

theorem acked_commands_survive:
  assumes "codec_ok deps" "wal_open deps (Inr mapped) config = Some (Inr w)" "slice 0 8 mapped \<noteq> wal_magic"
    "file_header_size \<le> length mapped" "run_appends deps w scs = (acked, w')" "\<forall>sc \<in> set acked. sc_seq sc \<noteq> 0"
    "w_cursor w' \<le> length data" "take (w_cursor w') data = take (w_cursor w') (w_mmap w')"
  shows "prefix (filter (\<lambda>sc. after_seq < sc_seq sc) acked) (sr_commands (scan_wal deps data after_seq))"
proof -
  have "holds_commands deps w' acked"
    using run_appends_holds [OF wal_open_new(1) [OF assms(2-4)] assms(5)] by simp
  then have "log_prefix deps (map (cmd_entry deps) acked) data (w_cursor w')" "loggable deps acked"
    using assms(7,8) by (simp_all add: holds_commands_def wal_holds_def log_prefix_def)
  from scan_wal_log [OF assms(1) this assms(6)] show ?thesis
    by (simp add: scan_wal_extends scanned_def scan_start_def)
qed

subsection \<open>An undamaged log\<close>

definition tail_zero :: "file_wal_writer \<Rightarrow> bool" where
  "tail_zero w \<longleftrightarrow> (\<forall>b \<in> set (drop (w_cursor w) (w_mmap w)). b = 0)"

definition clean_log :: "wal_deps \<Rightarrow> file_wal_writer \<Rightarrow> sequenced_command list \<Rightarrow> bool" where
  "clean_log deps w scs \<longleftrightarrow> holds_commands deps w scs \<and> tail_zero w \<and>
     w_last_seq w = (if scs = [] then 0 else sc_seq (last scs)) \<and> w_highest_term w = (if scs = [] then 0 else sc_term (last scs))"

lemma wal_append_clean:
  assumes "clean_log deps w scs" "wal_append deps w sc = (Inr off, w')"
  shows "clean_log deps w' (scs @ [sc])" "w_config w' = w_config w"
proof -
  obtain payload where p: "ser_command deps (sc_cmd sc) = Some payload"
    "write_record deps (w\<lparr>w_highest_term := sc_term sc\<rparr>) (sc_seq sc) (sc_term sc) (sc_ts_ns sc) payload = (Inr off, w')"
    using assms(2) by (auto simp: wal_append_def Let_def split: if_splits option.splits)
  let ?size = "align8 (32 + length payload)"
  have fits: "w_cursor w + ?size \<le> length (w_mmap w)"
    using p(2) by (auto simp: write_record_def record_header_size_def Let_def split: if_splits)
  then have w': "w_mmap w' = write_at (w_cursor w) (record_bytes deps (sc_seq sc) (sc_term sc) (sc_ts_ns sc) payload) (w_mmap w)"
    "w_cursor w' = w_cursor w + ?size" "w_last_seq w' = sc_seq sc" "w_highest_term w' = sc_term sc" "w_config w' = w_config w"
    using write_record_eq [OF _ refl refl, of "w\<lparr>w_highest_term := sc_term sc\<rparr>" payload deps "sc_seq sc" "sc_term sc" "sc_ts_ns sc"] p(2)
    by (auto split: if_splits)
  have "drop (w_cursor w') (w_mmap w') = drop (w_cursor w + ?size) (w_mmap w)"
    using fits by (simp add: w' write_at_def)
  also have "set \<dots> \<subseteq> set (drop (w_cursor w) (w_mmap w))"
    by (simp add: set_drop_subset_set_drop)
  finally have "tail_zero w'"
    using assms(1) by (auto simp: clean_log_def tail_zero_def)
  then show "clean_log deps w' (scs @ [sc])" "w_config w' = w_config w"
    using wal_append_holds [OF _ assms(2)] assms(1) w' by (auto simp: clean_log_def)
qed

lemma length_run_appends: "run_appends deps w scs = (acked, w') \<Longrightarrow> length acked \<le> length scs"
proof (induction scs arbitrary: w acked)
  case (Cons sc scs)
  then show ?case
    by (fastforce split: prod.splits sum.splits dest!: Cons.IH)
qed simp

lemma run_appends_clean:
  assumes "clean_log deps w old" "run_appends deps w scs = (scs, w')"
  shows "clean_log deps w' (old @ scs) \<and> w_config w' = w_config w"
  using assms
proof (induction scs arbitrary: w old)
  case (Cons sc scs)
  obtain r w1 where a: "wal_append deps w sc = (r, w1)"
    by fastforce
  then obtain off where r: "r = Inr off"
    using Cons.prems(2) length_run_appends [of deps w1 scs] by (cases r) fastforce+
  then have "run_appends deps w1 scs = (scs, w')"
    using Cons.prems(2) a by (auto split: prod.splits)
  then show ?case
    using Cons.IH [of w1 "old @ [sc]"] wal_append_clean [OF Cons.prems(1)] a r by simp
qed simp

lemma from_le_zeros: "\<forall>b \<in> set bs. b = 0 \<Longrightarrow> from_le_bytes bs = 0"
proof -
  have "foldr (\<lambda>b v. uint b + 256 * v) bs 0 = 0" if "\<forall>b \<in> set bs. b = 0"
    using that by (induction bs) auto
  then show "\<forall>b \<in> set bs. b = 0 \<Longrightarrow> from_le_bytes bs = 0"
    by (simp add: from_le_bytes_def)
qed

lemma scan_stops_at_zeros:
  assumes "\<forall>b \<in> set (drop off data). b = 0"
  shows "scan_wal_from deps data after_seq off last_seq r = r" "scan_to_end_from deps data off last_seq highest = (off, last_seq, highest)"
proof -
  have "\<forall>b \<in> set (slice off (off + 8) data). b = 0"
    using assms by (auto simp: slice_def dest: in_set_takeD)
  then have z: "from_le_bytes (slice off (off + 8) data) = (0 :: u64)"
    by (rule from_le_zeros)
  show "scan_wal_from deps data after_seq off last_seq r = r"
    by (subst scan_wal_from.simps) (simp add: z)
  show "scan_to_end_from deps data off last_seq highest = (off, last_seq, highest)"
    by (subst scan_to_end_from.simps) (simp add: z)
qed

lemma zeros_not_magic: "slice 0 8 (replicate cap 0 :: byte list) \<noteq> wal_magic"
proof
  assume eq: "slice 0 8 (replicate cap 0 :: byte list) = wal_magic"
  have "77 \<in> set (slice 0 8 (replicate cap 0 :: byte list))"
    unfolding eq by (simp add: wal_magic_def)
  then show False
    by (simp add: slice_def take_replicate split: if_splits)
qed

lemma clean_log_of_new:
  assumes "wal_open deps (Inr (replicate cap 0)) config = Some (Inr w)" "file_header_size \<le> cap" "run_appends deps w scs = (scs, w')"
  shows "clean_log deps w' scs" "w_config w' = config"
proof -
  note new = wal_open_new [OF assms(1) zeros_not_magic]
  have "clean_log deps w []"
    using new assms(2) by (simp add: clean_log_def tail_zero_def)
  from run_appends_clean [OF this assms(3)] show "clean_log deps w' scs" "w_config w' = config"
    using new(4) assms(2) by simp_all
qed

lemma clean_log_scans:
  assumes "codec_ok deps" "clean_log deps w scs" "\<forall>sc \<in> set scs. sc_seq sc \<noteq> 0"
  shows "scan_wal deps (w_mmap w) after_seq = scanned after_seq after_seq scs scan_start"
    "scan_to_end deps (w_mmap w) = (w_cursor w, w_last_seq w, w_highest_term w)"
    "validate_file_header (w_mmap w) = Some (Inr ())" "8 \<le> length (w_mmap w)" "slice 0 8 (w_mmap w) = wal_magic"
proof -
  have lp: "log_prefix deps (map (cmd_entry deps) scs) (w_mmap w) (w_cursor w)" and lg: "loggable deps scs"
    and tz: "\<forall>b \<in> set (drop (w_cursor w) (w_mmap w)). b = 0"
    using assms(2) by (simp_all add: clean_log_def holds_commands_def wal_holds_def tail_zero_def)
  note d = log_prefix_drop [OF lp]
  show "scan_wal deps (w_mmap w) after_seq = scanned after_seq after_seq scs scan_start"
    using scan_wal_log [OF assms(1) lp lg assms(3), of after_seq] scan_stops_at_zeros(1) [OF tz] by simp
  show "scan_to_end deps (w_mmap w) = (w_cursor w, w_last_seq w, w_highest_term w)"
    using scan_to_end_log [OF assms(1) d(1) lg assms(3), of 0 0] scan_stops_at_zeros(2) [OF tz, of deps] d(5) assms(2)
    by (simp add: scan_to_end_def clean_log_def)
  show "validate_file_header (w_mmap w) = Some (Inr ())" "8 \<le> length (w_mmap w)" "slice 0 8 (w_mmap w) = wal_magic"
    using d(2-4) by (simp_all add: validate_file_header_def from_to_le_bytes file_header_size_def)
qed

text \<open>C28: Reopening an undamaged log is the identity. When every append to a new, zeroed log was acknowledged, opening the file
  again gives back the writer with its cursor, last sequence number and fencing term, and recovery returns exactly the commands
  after the snapshot, with no corrupt record.\<close>

theorem reopen_restores_writer:
  assumes "codec_ok deps" "wal_open deps (Inr (replicate cap 0)) config = Some (Inr w)" "file_header_size \<le> cap"
    "run_appends deps w scs = (scs, w')" "\<forall>sc \<in> set scs. sc_seq sc \<noteq> 0"
  shows "wal_open deps (Inr (w_mmap w')) config = Some (Inr w') \<and>
    scan_wal deps (w_mmap w') after_seq =
      \<lparr>sr_commands = filter (\<lambda>sc. after_seq < sc_seq sc) scs, sr_corrupt_records = 0,
       sr_seq_gaps = count_gaps after_seq after_seq scs, sr_highest_term = (if scs = [] then 0 else sc_term (last scs))\<rparr>"
proof -
  note clean = clean_log_of_new [OF assms(2-4)]
  show ?thesis
    using clean_log_scans [OF assms(1) clean(1) assms(5)] clean(2) by (simp add: wal_open_def scanned_def scan_start_def)
qed

subsection \<open>Examples\<close>

text \<open>A codec for two kinds of command, and a log with a refused stale command in it.\<close>

definition ex_deps :: wal_deps where
  "ex_deps =
     \<lparr>crc32 = (\<lambda>bs. foldr (\<lambda>b c. 3 * c + ucast b + 1) bs 0),
      ser_command = (\<lambda>c. case c of FreezeAccount a \<Rightarrow> Some (0 # to_le_bytes 8 a)
                           | Cancel a i \<Rightarrow> Some (1 # to_le_bytes 8 a @ to_le_bytes 8 i) | _ \<Rightarrow> None),
      de_command = (\<lambda>bs. case bs of [] \<Rightarrow> None
                           | b # bs \<Rightarrow> if b = 0 then Some (FreezeAccount (from_le_bytes bs))
                                       else Some (Cancel (from_le_bytes (take 8 bs)) (from_le_bytes (drop 8 bs)))),
      ser_event = (\<lambda>ev. Some (to_le_bytes 8 (seq_get (event_seq ev)))),
      flush_range = (\<lambda>_ _ _. True)\<rparr>"

lemma ex_codec_ok: "codec_ok ex_deps"
  by (auto simp: codec_ok_def ex_deps_def from_to_le_bytes split: inbound_command.splits)

definition ex_config :: wal_writer_config where
  "ex_config = \<lparr>file_capacity = 160, sync_on_write = True\<rparr>"

definition ex_commands :: "sequenced_command list" where
  "ex_commands = [\<lparr>sc_term = 1, sc_seq = 1, sc_ts_ns = 10, sc_cmd = FreezeAccount 7\<rparr>,
     \<lparr>sc_term = 0, sc_seq = 2, sc_ts_ns = 20, sc_cmd = Cancel 7 1\<rparr>, \<lparr>sc_term = 2, sc_seq = 3, sc_ts_ns = 30, sc_cmd = Cancel 8 2\<rparr>]"

definition ex_writer :: file_wal_writer where
  "ex_writer = (case wal_open ex_deps (Inr (replicate 160 0)) ex_config of
     Some (Inr w) \<Rightarrow> w | _ \<Rightarrow> \<lparr>w_mmap = [], w_cursor = 0, w_config = ex_config, w_last_seq = 0, w_highest_term = 0\<rparr>)"

lemma ex_writer_open: "wal_open ex_deps (Inr (replicate 160 0)) ex_config = Some (Inr ex_writer)"
  by code_simp

theorem acked_commands_survive_witness:
  "prefix [ex_commands ! 2]
     (sr_commands (scan_wal ex_deps (set_len 159 (w_mmap (snd (run_appends ex_deps ex_writer ex_commands)))) 1))"
proof -
  let ?w = "snd (run_appends ex_deps ex_writer ex_commands)"
  let ?acked = "[ex_commands ! 0, ex_commands ! 2]"
  have run: "run_appends ex_deps ex_writer ex_commands = (?acked, ?w)"
    by code_simp
  have new: "slice 0 8 (replicate 160 (0 :: byte)) \<noteq> wal_magic" "file_header_size \<le> length (replicate 160 (0 :: byte))"
    by code_simp+
  have seqs: "\<forall>sc \<in> set ?acked. sc_seq sc \<noteq> 0"
    by code_simp
  have data: "w_cursor ?w \<le> length (set_len 159 (w_mmap ?w))"
    "take (w_cursor ?w) (set_len 159 (w_mmap ?w)) = take (w_cursor ?w) (w_mmap ?w)"
    by code_simp+
  have "filter (\<lambda>sc. 1 < sc_seq sc) ?acked = [ex_commands ! 2]"
    by code_simp
  with acked_commands_survive [OF ex_codec_ok ex_writer_open new run seqs data, of 1] show ?thesis
    by simp
qed

theorem reopen_restores_writer_witness:
  "wal_open ex_deps (Inr (w_mmap (snd (run_appends ex_deps ex_writer [ex_commands ! 0, ex_commands ! 2])))) ex_config =
   Some (Inr (snd (run_appends ex_deps ex_writer [ex_commands ! 0, ex_commands ! 2])))"
proof -
  let ?scs = "[ex_commands ! 0, ex_commands ! 2]"
  have "run_appends ex_deps ex_writer ?scs = (?scs, snd (run_appends ex_deps ex_writer ?scs))"
    by code_simp
  moreover have "\<forall>sc \<in> set ?scs. sc_seq sc \<noteq> 0" "file_header_size \<le> 160"
    by code_simp+
  ultimately show ?thesis
    using reopen_restores_writer [OF ex_codec_ok ex_writer_open] by blast
qed

text \<open>\<open>pmem.rs\<close> documents its log as byte-compatible with the file writer's. It is not: its record headers have no term and
  its version is 1, so the file writer refuses to open it, and recovery does not find the command in it.\<close>

definition ex_pmem :: "byte list" where
  "ex_pmem = (case pmem_open ex_deps (Inr (replicate 160 0)) of
     Some (Inr p) \<Rightarrow> p_mmap (snd (pmem_append ex_deps p (ex_commands ! 0))) | _ \<Rightarrow> [])"

lemma pmem_log_not_compatible:
  "wal_open ex_deps (Inr ex_pmem) ex_config = Some (Inl (UnsupportedVersion 1))"
  "map_sum id p_last_seq (the (pmem_open ex_deps (Inr ex_pmem))) = Inr 1"
  "sr_commands (scan_wal ex_deps ex_pmem 0) = []"
  by code_simp+

end
