(* ===== verification/Snapshot_Props.thy ===== *)
theory Snapshot_Props
  imports Snapshot Wal_Props "HOL-Library.Multiset"
begin

text \<open>
  Snapshots are written atomically, the newest valid one is the one recovery starts from, and recovery returns
  it with the commands logged after it.
\<close>

subsection \<open>Zero-padded decimals are ordered like numbers\<close>

fun digits :: "nat \<Rightarrow> nat \<Rightarrow> string" where
  "digits 0 n = []"
| "digits (Suc k) n = digits k (n div 10) @ [digit_char (n mod 10)]"

lemma length_digits [simp]: "length (digits k n) = k"
  by (induction k arbitrary: n) auto

lemma digits_0: "digits k 0 = replicate k CHR ''0''"
proof -
  have "digit_char 0 = CHR ''0''"
    by code_simp
  then show ?thesis
    by (induction k) (auto simp: replicate_append_same)
qed

lemma pad0_decimal: "n < 10 ^ k \<Longrightarrow> 0 < k \<Longrightarrow> pad0 k (decimal n) = digits k n"
proof (induction n arbitrary: k rule: decimal.induct)
  case (1 n)
  obtain k' where k: "k = Suc k'"
    using 1 by (cases k) auto
  show ?case
  proof (cases "n < 10")
    case True
    then show ?thesis
      by (simp add: k decimal.simps [of n] pad0_def digits_0)
  next
    case False
    have "k' \<noteq> 0"
      using 1(2) False by (cases "k' = 0") (simp_all add: k)
    moreover have "n div 10 < 10 ^ k'"
      using 1(2) by (simp add: k less_mult_imp_div_less mult.commute)
    ultimately have IH: "pad0 k' (decimal (n div 10)) = digits k' (n div 10)"
      using 1(1) [OF False] by simp
    have "pad0 (Suc k') (xs @ [c]) = pad0 k' xs @ [c]" for xs c
      by (simp add: pad0_def)
    then show ?thesis
      using False IH by (simp add: k decimal.simps [of n])
  qed
qed

lemma lexord_same_length:
  assumes "length xs = length ys"
  shows "xs @ us < ys @ vs \<longleftrightarrow> xs < ys \<or> (xs = ys \<and> us < (vs :: 'a::linorder list))"
  using assms by (induction xs ys rule: list_induct2) auto

lemma digit_char_less: "a < b \<Longrightarrow> b < 10 \<Longrightarrow> digit_char a < digit_char b"
  by (simp add: digit_char_def less_char_def)

lemma digits_less: "n < m \<Longrightarrow> m < 10 ^ k \<Longrightarrow> digits k n < digits k m"
proof (induction k arbitrary: n m)
  case (Suc k)
  have "m div 10 < 10 ^ k"
    using Suc.prems(2) by (simp add: less_mult_imp_div_less mult.commute)
  moreover have "n div 10 < m div 10 \<or> (n div 10 = m div 10 \<and> n mod 10 < m mod 10)"
    using Suc.prems(1) by (metis div_le_mono div_mult_mod_eq le_neq_implies_less less_imp_le nat_add_left_cancel_less)
  ultimately show ?case
    using Suc.IH by (auto simp: lexord_same_length digit_char_less)
qed simp

lemma snapshot_path_less:
  assumes "seq < seq'"
  shows "snapshot_path shard_id seq < snapshot_path shard_id seq'"
proof -
  have u: "unat s < 10 ^ 20" for s :: u64
    using unat_lt64 [of s] by simp
  have "digits 20 (unat seq) < digits 20 (unat seq')"
    using assms u by (intro digits_less) (simp_all add: word_less_nat_alt)
  then have "digits 20 (unat seq) @ ''.snap'' < digits 20 (unat seq') @ ''.snap''"
    by (simp add: lexord_same_length)
  moreover have "pad0 20 (decimal (unat s)) = digits 20 (unat s)" for s :: u64
    by (rule pad0_decimal [OF u]) simp
  ultimately show ?thesis
    using lexord_same_length [of "shard_prefix shard_id" "shard_prefix shard_id"] by (simp add: snapshot_path_def)
qed

subsection \<open>Reading back\<close>

definition snapshot_of :: "wal_deps \<Rightarrow> u32 \<Rightarrow> u64 \<Rightarrow> u64 \<Rightarrow> byte list \<Rightarrow> snapshot" where
  "snapshot_of deps shard_id seq ts_ns payload =
     \<lparr>sn_meta = \<lparr>sm_shard_id = shard_id, sm_seq = seq, sm_ts_ns = ts_ns, sm_payload_len = of_nat (length payload),
                 sm_crc32 = crc32 deps payload\<rparr>, sn_payload = payload\<rparr>"

lemma length_snap_magic [simp]: "length snap_magic = 8"
  by (simp add: snap_magic_def)

lemma snapshot_header_eq:
  "snapshot_header crc shard_id seq ts_ns payload =
     snap_magic @ to_le_bytes 4 snap_version @ to_le_bytes 4 shard_id @ to_le_bytes 8 seq @ to_le_bytes 8 ts_ns @
     to_le_bytes 4 (of_nat (length payload) :: u32) @ to_le_bytes 4 crc @ replicate 8 0"
  by (simp add: snapshot_header_def Let_def write_at_skip write_at_0 snap_header_size_def drop_replicate)

lemma read_written_snapshot:
  assumes "length payload < 2 ^ 32"
  shows "read_snapshot deps (Some (snapshot_header (crc32 deps payload) shard_id seq ts_ns payload @ payload)) =
    Inr (snapshot_of deps shard_id seq ts_ns payload)"
proof -
  have len: "length (snapshot_header (crc32 deps payload) shard_id seq ts_ns payload) = 48"
    by (simp add: snapshot_header_eq)
  have n: "unat (of_nat (length payload) :: u32) = length payload"
    using assms by (simp add: unsigned_of_nat take_bit_nat_eq_self)
  have s: "slice 0 8 (snapshot_header (crc32 deps payload) shard_id seq ts_ns payload) = snap_magic"
    "from_le_bytes (slice 8 12 (snapshot_header (crc32 deps payload) shard_id seq ts_ns payload)) = snap_version"
    "from_le_bytes (slice 12 16 (snapshot_header (crc32 deps payload) shard_id seq ts_ns payload)) = shard_id"
    "from_le_bytes (slice 16 24 (snapshot_header (crc32 deps payload) shard_id seq ts_ns payload)) = seq"
    "from_le_bytes (slice 24 32 (snapshot_header (crc32 deps payload) shard_id seq ts_ns payload)) = ts_ns"
    "from_le_bytes (slice 32 36 (snapshot_header (crc32 deps payload) shard_id seq ts_ns payload)) = (of_nat (length payload) :: u32)"
    "from_le_bytes (slice 36 40 (snapshot_header (crc32 deps payload) shard_id seq ts_ns payload)) = crc32 deps payload"
    by (simp_all add: snapshot_header_eq slice_append_right slice_append_left slice_all from_to_le_bytes)
  show ?thesis
    by (simp add: read_snapshot_def snap_header_size_def len s n Let_def snapshot_of_def)
qed

subsection \<open>The directory after a write\<close>

lemma tmp_not_candidate: "\<not> is_candidate s (tmp_path shard_id seq)"
proof -
  have "\<not> has_snap_extension (xs @ ''.tmp'')" for xs
  proof
    assume "has_snap_extension (xs @ ''.tmp'')"
    then have "last (drop (length (xs @ ''.tmp'') - 5) (xs @ ''.tmp'')) = CHR ''p''" "5 < length (xs @ ''.tmp'')"
      by (simp_all add: has_snap_extension_def)
    then show False
      using \<open>has_snap_extension (xs @ ''.tmp'')\<close> by (simp add: has_snap_extension_def)
  qed
  then show ?thesis
    unfolding is_candidate_def tmp_path_def append_assoc [symmetric] by blast
qed

lemma path_is_candidate: "is_candidate shard_id (snapshot_path shard_id seq)"
  by (simp add: is_candidate_def has_snap_extension_def starts_with_def snapshot_path_def pad0_def shard_prefix_def)

definition agree_except :: "string \<Rightarrow> files \<Rightarrow> files \<Rightarrow> bool" where
  "agree_except t fs fs' \<longleftrightarrow> file_remove t fs = file_remove t fs'"

lemma file_remove_idem [simp]: "file_remove t (file_remove t fs) = file_remove t fs"
  by (simp add: file_remove_def)

lemma agree_put [simp]: "agree_except t fs (file_put t bs fs') \<longleftrightarrow> agree_except t fs fs'"
  by (simp add: agree_except_def file_put_def) (simp add: file_remove_def)

lemma map_of_remove: "map_of (file_remove t fs) n = (if n = t then None else map_of fs n)"
  by (induction fs) (auto simp: file_remove_def)

lemma first_valid_agree:
  assumes "agree_except t fs fs'" "t \<notin> set ns"
  shows "first_valid deps fs ns = first_valid deps fs' ns"
proof -
  have "map_of fs n = map_of fs' n" if "n \<noteq> t" for n
    using assms(1) map_of_remove [of t fs n] map_of_remove [of t fs' n] that by (simp add: agree_except_def)
  then show ?thesis
    using assms(2) by (induction ns) (auto split: sum.splits)
qed

lemma candidates_agree:
  assumes "agree_except t fs fs'" "\<not> is_candidate s t"
  shows "filter (is_candidate s) (map fst fs) = filter (is_candidate s) (map fst fs')"
proof -
  have "filter (is_candidate s) (map fst fs) = filter (is_candidate s) (map fst (file_remove t fs))" for fs
    using assms(2) by (induction fs) (auto simp: file_remove_def)
  then show ?thesis
    using assms(1) unfolding agree_except_def by metis
qed

lemma latest_agree:
  assumes "agree_except t fs fs'" "\<not> is_candidate s t"
  shows "latest_snapshot deps (Dir fs) s = latest_snapshot deps (Dir fs') s"
proof -
  have "t \<notin> set (rev (sort (filter (is_candidate s) (map fst fs))))"
    using assms(2) by auto
  from first_valid_agree [OF assms(1) this] candidates_agree [OF assms] show ?thesis
    by (simp add: latest_snapshot_def)
qed

text \<open>Any number of the calls before the rename leaves every other file as it was.\<close>

lemma ops_before_rename:
  assumes "set ops \<subseteq> {CreateDirAll, OpenTruncate t, SyncData t} \<union> range (WriteAll t)"
  shows "\<exists>fs'. fold fs_do ops (Dir fs) = Dir fs' \<and> agree_except t fs fs'"
  using assms
proof (induction ops rule: rev_induct)
  case Nil
  then show ?case
    by (simp add: agree_except_def)
next
  case (snoc op ops)
  then show ?case
    by (auto simp: image_iff)
qed

lemma ops_done:
  assumes "t \<noteq> n"
  shows "fold fs_do [CreateDirAll, OpenTruncate t, WriteAll t h, WriteAll t p, SyncData t, Rename t n] (Dir fs) =
    Dir (file_put n (h @ p) (file_remove t fs))"
  using assms by (simp add: file_put_def file_get_def) (simp add: file_remove_def)

lemma failed_write_agrees:
  assumes "k < length ops" "ops = [CreateDirAll, OpenTruncate t, WriteAll t h, WriteAll t p, SyncData t, Rename t n]"
  shows "\<exists>fs'. fs_partial j (ops ! k) (fold fs_do (take k ops) (Dir fs)) = Dir fs' \<and> agree_except t fs fs'"
proof -
  have "set (take k ops) \<subseteq> set (take 5 ops)"
    using assms(1) by (intro set_take_subset_set_take) (simp add: assms(2))
  also have "\<dots> \<subseteq> {CreateDirAll, OpenTruncate t, SyncData t} \<union> range (WriteAll t)"
    by (simp add: assms(2))
  finally obtain fs1 where fs1: "fold fs_do (take k ops) (Dir fs) = Dir fs1" "agree_except t fs fs1"
    using ops_before_rename by blast
  moreover have "ops ! k \<in> set ops"
    using assms(1) by (rule nth_mem)
  ultimately show ?thesis
    unfolding assms(2) by auto
qed

lemma latest_after_write:
  assumes "length payload < 2 ^ 32" "\<forall>n \<in> fst ` set fs. is_candidate shard_id n \<longrightarrow> (\<exists>old < seq. n = snapshot_path shard_id old)"
  shows "latest_snapshot deps (fold fs_do (snapshot_ops deps shard_id seq ts_ns payload) (Dir fs)) shard_id =
    Inr (Some (snapshot_of deps shard_id seq ts_ns payload))"
proof -
  let ?t = "tmp_path shard_id seq" and ?n = "snapshot_path shard_id seq"
  let ?h = "snapshot_header (crc32 deps payload) shard_id seq ts_ns payload"
  have ne: "?t \<noteq> ?n"
    using tmp_not_candidate path_is_candidate by metis
  have d: "fold fs_do (snapshot_ops deps shard_id seq ts_ns payload) (Dir fs) = Dir (file_put ?n (?h @ payload) (file_remove ?t fs))"
    unfolding snapshot_ops_def Let_def by (rule ops_done [OF ne])
  let ?old = "filter (is_candidate shard_id) (map fst (file_remove ?n (file_remove ?t fs)))"
  have "\<forall>n \<in> set ?old. n < ?n"
    using assms(2) snapshot_path_less by (fastforce simp: file_remove_def)
  then have "sort (?n # ?old) = sort ?old @ [?n]"
    by (intro properties_for_sort) (auto simp: sorted_append less_imp_le)
  then show ?thesis
    by (simp add: d latest_snapshot_def file_put_def path_is_candidate read_written_snapshot [OF assms(1)])
qed

text \<open>A valid snapshot of the shard whose file name comes after the one for \<open>seq\<close>. By \<open>snapshot_path_less\<close> the names the
  writer makes are ordered as their sequence numbers.\<close>

definition newer_valid :: "wal_deps \<Rightarrow> files \<Rightarrow> u32 \<Rightarrow> u64 \<Rightarrow> bool" where
  "newer_valid deps fs shard_id seq \<longleftrightarrow>
     (\<exists>n \<in> fst ` set fs. is_candidate shard_id n \<and> snapshot_path shard_id seq < n \<and> \<not> isl (read_snapshot deps (map_of fs n)))"

lemma first_valid_append:
  "first_valid deps fs (ns @ ms) = (case first_valid deps fs ns of Some s \<Rightarrow> Some s | None \<Rightarrow> first_valid deps fs ms)"
  by (induction ns) (auto split: sum.splits)

lemma first_valid_None: "first_valid deps fs ns = None \<longleftrightarrow> (\<forall>n \<in> set ns. isl (read_snapshot deps (map_of fs n)))"
  by (induction ns) (auto split: sum.splits)

lemma first_valid_cong: "(\<And>n. n \<in> set ns \<Longrightarrow> map_of fs n = map_of fs' n) \<Longrightarrow> first_valid deps fs ns = first_valid deps fs' ns"
  by (induction ns) (auto split: sum.splits)

lemma sort_split:
  fixes n :: "'a :: linorder"
  shows "sort xs = sort (filter (\<lambda>m. \<not> n < m) xs) @ sort (filter (\<lambda>m. n < m) xs)"
    "sort (n # xs) = sort (filter (\<lambda>m. \<not> n < m) xs) @ n # sort (filter (\<lambda>m. n < m) xs)"
  by (rule properties_for_sort; auto simp: sorted_append less_imp_le intro: less_le_trans)+

lemma latest_after_any_write:
  assumes "length payload < 2 ^ 32"
  shows "latest_snapshot deps (fold fs_do (snapshot_ops deps shard_id seq ts_ns payload) (Dir fs)) shard_id =
    (if newer_valid deps fs shard_id seq then latest_snapshot deps (Dir fs) shard_id
     else Inr (Some (snapshot_of deps shard_id seq ts_ns payload)))"
proof -
  let ?t = "tmp_path shard_id seq" and ?n = "snapshot_path shard_id seq"
  let ?h = "snapshot_header (crc32 deps payload) shard_id seq ts_ns payload"
  have ne: "?t \<noteq> ?n"
    using tmp_not_candidate path_is_candidate by metis
  let ?fs = "file_put ?n (?h @ payload) (file_remove ?t fs)"
  have d: "fold fs_do (snapshot_ops deps shard_id seq ts_ns payload) (Dir fs) = Dir ?fs"
    unfolding snapshot_ops_def Let_def by (rule ops_done [OF ne])
  let ?cs = "filter (is_candidate shard_id) (map fst fs)"
  let ?old = "filter (is_candidate shard_id) (map fst (file_remove ?n (file_remove ?t fs)))"
  let ?up = "filter (\<lambda>m. ?n < m) ?cs"
  have up: "filter (\<lambda>m. ?n < m) ?old = ?up"
    using tmp_not_candidate by (induction fs) (auto simp: file_remove_def)
  have same: "map_of ?fs m = map_of fs m" if "m \<in> set ?up" for m
    using that tmp_not_candidate by (auto simp: file_put_def map_of_remove)
  have v: "first_valid deps ?fs (rev (sort ?up)) = first_valid deps fs (rev (sort ?up))"
    by (rule first_valid_cong) (use same in simp)
  have new: "latest_snapshot deps (Dir ?fs) shard_id = Inr (first_valid deps ?fs (rev (sort (?n # ?old))))"
    by (simp add: latest_snapshot_def file_put_def path_is_candidate)
  have written: "read_snapshot deps (map_of ?fs ?n) = Inr (snapshot_of deps shard_id seq ts_ns payload)"
    by (simp add: file_put_def read_written_snapshot [OF assms])
  have none: "first_valid deps fs (rev (sort ?up)) = None \<longleftrightarrow> \<not> newer_valid deps fs shard_id seq"
    by (auto simp: first_valid_None newer_valid_def)
  have old: "latest_snapshot deps (Dir fs) shard_id = Inr (first_valid deps fs (rev (sort ?cs)))"
    by (simp add: latest_snapshot_def)
  show ?thesis
    unfolding d new old sort_split(2) [of ?n ?old] sort_split(1) [of ?cs ?n] up rev_append
    using none v written by (auto simp: first_valid_append split: option.splits)
qed

text \<open>C29: Writing a snapshot is atomic. If it fails, for its size or in any file system call, even in the middle of a write, no
  reader sees a difference: the newest valid snapshot of every shard is what it was. If it succeeds, the newest valid snapshot
  of its shard is the one written, read back as written, unless the directory holds a valid one with a later name: then that
  one stays the newest.\<close>

theorem snapshot_write_atomic:
  assumes "snapshot_write deps max_payload fault (Dir fs) shard_id seq ts_ns payload = (r, d)" "length payload < 2 ^ 32"
  shows "case r of
      Inl _ \<Rightarrow> (\<forall>s. latest_snapshot deps d s = latest_snapshot deps (Dir fs) s)
    | Inr _ \<Rightarrow> latest_snapshot deps d shard_id =
        (if newer_valid deps fs shard_id seq then latest_snapshot deps (Dir fs) shard_id
         else Inr (Some (snapshot_of deps shard_id seq ts_ns payload)))"
proof -
  let ?t = "tmp_path shard_id seq" and ?n = "snapshot_path shard_id seq"
  let ?h = "snapshot_header (crc32 deps payload) shard_id seq ts_ns payload"
  let ?ops = "snapshot_ops deps shard_id seq ts_ns payload"
  have ops: "?ops = [CreateDirAll, OpenTruncate ?t, WriteAll ?t ?h, WriteAll ?t payload, SyncData ?t, Rename ?t ?n]"
    by (simp add: snapshot_ops_def Let_def)
  consider (big) "r = Inl (PayloadTooLarge (length payload))" "d = Dir fs"
    | (failed) k j where "k < length ?ops" "r = Inl SnapIo" "d = fs_partial j (?ops ! k) (fold fs_do (take k ?ops) (Dir fs))"
    | (ok) "r = Inr ?n" "d = fold fs_do ?ops (Dir fs)"
    using assms(1) by (auto simp: snapshot_write_def Let_def split: if_splits option.splits)
  then show ?thesis
  proof cases
    case big
    then show ?thesis
      by simp
  next
    case failed
    then obtain fs' where "d = Dir fs'" "agree_except ?t fs fs'"
      using failed_write_agrees [OF failed(1) ops] by auto
    then show ?thesis
      using failed(2) latest_agree [OF _ tmp_not_candidate] by auto
  next
    case ok
    then show ?thesis
      using latest_after_any_write [OF assms(2)] by simp
  qed
qed

text \<open>C30: Recovery is complete. After a snapshot at sequence number \<open>seq\<close> and a log all of whose appends were acknowledged,
  recovery returns that snapshot and exactly the logged commands with a larger sequence number, in order.\<close>

theorem recover_snapshot_and_tail:
  assumes "codec_ok deps" "wal_open deps (Inr (replicate cap 0)) config = Some (Inr w)" "file_header_size \<le> cap"
    "run_appends deps w scs = (scs, w')" "\<forall>sc \<in> set scs. sc_seq sc \<noteq> 0"
    "snapshot_write deps max_payload None (Dir fs) shard_id seq ts_ns payload = (Inr path, d)" "length payload < 2 ^ 32"
    "\<forall>n \<in> fst ` set fs. is_candidate shard_id n \<longrightarrow> (\<exists>old < seq. n = snapshot_path shard_id old)"
  shows "\<exists>out. recover deps (Some (Inr (w_mmap w'))) d shard_id = Inr out \<and>
    ro_snapshot out = Some (snapshot_of deps shard_id seq ts_ns payload) \<and> ro_snapshot_seq out = seq \<and>
    ro_commands out = filter (\<lambda>sc. seq < sc_seq sc) scs \<and> ro_corrupt_records out = 0"
proof -
  have "d = fold fs_do (snapshot_ops deps shard_id seq ts_ns payload) (Dir fs)"
    using assms(6) by (simp add: snapshot_write_def Let_def split: if_splits)
  then have l: "latest_snapshot deps d shard_id = Inr (Some (snapshot_of deps shard_id seq ts_ns payload))"
    by (simp add: latest_after_write [OF assms(7,8)])
  have "sm_seq (sn_meta (snapshot_of deps shard_id seq ts_ns payload)) = seq"
    by (simp add: snapshot_of_def)
  with l show ?thesis
    using clean_log_scans(1) [OF assms(1) clean_log_of_new(1) [OF assms(2-4)] assms(5), of seq]
    by (simp add: recover_def Let_def scanned_def scan_start_def)
qed

subsection \<open>Examples\<close>

theorem snapshot_write_atomic_witness:
  "latest_snapshot ex_deps (snd (snapshot_write ex_deps 100 (Some (3, 2)) (Dir []) 0 7 5 [1, 2, 3])) 0 = latest_snapshot ex_deps (Dir []) 0 \<and>
   latest_snapshot ex_deps (snd (snapshot_write ex_deps 100 None (Dir [(snapshot_path 0 9, [9])]) 0 7 5 [1, 2, 3])) 0 =
     Inr (Some (snapshot_of ex_deps 0 7 5 [1, 2, 3]))"
proof -
  have a: "snapshot_write ex_deps 100 (Some (3, 2)) (Dir []) 0 7 5 [1, 2, 3] =
      (Inl SnapIo, snd (snapshot_write ex_deps 100 (Some (3, 2)) (Dir []) 0 7 5 [1, 2, 3]))"
    by (simp add: snapshot_write_def snapshot_ops_def Let_def)
  have b: "snapshot_write ex_deps 100 None (Dir [(snapshot_path 0 9, [9])]) 0 7 5 [1, 2, 3] =
      (Inr (snapshot_path 0 7), snd (snapshot_write ex_deps 100 None (Dir [(snapshot_path 0 9, [9])]) 0 7 5 [1, 2, 3]))"
    by (simp add: snapshot_write_def)
  have "\<not> newer_valid ex_deps [(snapshot_path 0 9, [9])] 0 7"
    by (simp add: newer_valid_def read_snapshot_def snap_header_size_def)
  then show ?thesis
    using snapshot_write_atomic [OF a] snapshot_write_atomic [OF b] by simp
qed

theorem recover_snapshot_and_tail_witness:
  "\<exists>out. recover ex_deps (Some (Inr (w_mmap (snd (run_appends ex_deps ex_writer [ex_commands ! 0, ex_commands ! 2])))))
     (snd (snapshot_write ex_deps 100 None (Dir []) 0 1 5 [1, 2, 3])) 0 = Inr out \<and> ro_commands out = [ex_commands ! 2]"
proof -
  let ?scs = "[ex_commands ! 0, ex_commands ! 2]"
  have run: "run_appends ex_deps ex_writer ?scs = (?scs, snd (run_appends ex_deps ex_writer ?scs))"
    by code_simp
  have size: "file_header_size \<le> 160" and seqs: "\<forall>sc \<in> set ?scs. sc_seq sc \<noteq> 0"
    by code_simp+
  have wr: "snapshot_write ex_deps 100 None (Dir []) 0 1 5 [1, 2, 3] =
      (Inr (snapshot_path 0 1), snd (snapshot_write ex_deps 100 None (Dir []) 0 1 5 [1, 2, 3]))"
    by (simp add: snapshot_write_def)
  have "filter (\<lambda>sc. 1 < sc_seq sc) ?scs = [ex_commands ! 2]"
    by code_simp
  with recover_snapshot_and_tail [OF ex_codec_ok ex_writer_open size run seqs wr] show ?thesis
    by auto
qed

text \<open>When every logged command is covered by the snapshot, \<open>last_recovered_seq\<close> is 0 rather than the snapshot's sequence number:
  a sequencer resumed from it would number its next command 1.\<close>

lemma last_recovered_seq_reset:
  "map_sum id (\<lambda>out. (ro_snapshot_seq out, ro_last_recovered_seq out))
     (recover ex_deps (Some (Inr (w_mmap (snd (run_appends ex_deps ex_writer [ex_commands ! 0])))))
       (snd (snapshot_write ex_deps 100 None (Dir []) 0 1 5 [1, 2, 3])) 0) = Inr (1, 0)"
  by code_simp

end
