(* ===== verification/Matching_Engine.thy ===== *)
theory Matching_Engine
  imports Book_Market Broadcast_Ring Ring_Buffer Seqlock Metrics Wal
begin

text \<open>
  The crate \<open>matching-engine\<close>: the inline risk check (\<open>risk_check.rs\<close>), the translation of book events to gateway
  events (\<open>mapper.rs\<close>) and the engine that ties the book, the risk states, the log and the rings together
  (\<open>engine.rs\<close>).

  The rings are shared with other threads, and the log is any \<open>WalWriter\<close>: the engine is given by the operations it calls on
  them. Clock readings are arguments. A risk state whose writer never finishes makes the engine spin: \<open>None\<close>.
\<close>

subsection \<open>The risk check (risk_check.rs)\<close>

datatype risk_reject_reason =
    MaxOrderQtyExceeded
  | MaxOrderNotionalExceeded
  | AccountHalted
  | AccountFrozen
  | PositionLimitExceeded
  | OpenOrderLimitExceeded
  | PriceOutOfBand
  | UnknownAccount

record tier0_limits =
  tl_max_order_qty :: qty
  tl_max_order_notional :: u64
  tl_max_open_orders :: u32
  tl_max_position_abs :: i64
  tl_price_band_bps :: u32

definition tier0_limits_default :: tier0_limits where
  "tier0_limits_default = \<lparr>tl_max_order_qty = -1, tl_max_order_notional = -1, tl_max_open_orders = -1,
     tl_max_position_abs = i64_of i64_max, tl_price_band_bps = 0\<rparr>"

definition notional_of :: "price \<Rightarrow> qty \<Rightarrow> u64" where
  "notional_of price qty =
     (let p = sint price; q = uint qty in
      if p \<le> 0 then 0
      else
        let prod = p * q sdiv 100000000 in
        if prod \<le> 0 then 0
        else if 2 ^ 64 - 1 < prod then -1
        else word_of_int prod)"

definition price_out_of_band :: "price \<Rightarrow> price \<Rightarrow> u32 \<Rightarrow> bool" where
  "price_out_of_band price reference band_bps =
     (let p = sint price; r = sint reference in
      if r = 0 then False
      else
        let diff = \<bar>p - r\<bar>; bps = diff * 10000 sdiv r in
        uint band_bps < bps)"

definition projected_position :: "i64 \<Rightarrow> side \<Rightarrow> qty \<Rightarrow> i64" where
  "projected_position current side qty =
     (let delta = qty in
      case side of Buy \<Rightarrow> i64_saturating_add current delta | Sell \<Rightarrow> i64_saturating_sub current delta)"

definition check_new_order ::
  "new_order \<Rightarrow> account_id \<Rightarrow> tier0_limits \<Rightarrow> account_risk_state \<Rightarrow> price option \<Rightarrow> (risk_reject_reason + unit) option" where
  "check_new_order order account limits risk_state reference_price = do {
     halted \<leftarrow> is_halted risk_state;
     if halted then Some (Inl AccountHalted)
     else do {
       frozen \<leftarrow> is_frozen risk_state;
       if frozen then Some (Inl AccountFrozen)
       else if tl_max_order_qty limits < no_qty order then Some (Inl MaxOrderQtyExceeded)
       else
         let px = no_price order; notional = notional_of px (no_qty order) in
         if tl_max_order_notional limits < notional then Some (Inl MaxOrderNotionalExceeded)
         else if 0 < tl_price_band_bps limits \<and>
                 (case reference_price of None \<Rightarrow> False | Some r \<Rightarrow> price_out_of_band px r (tl_price_band_bps limits))
           then Some (Inl PriceOutOfBand)
         else do {
           open_orders \<leftarrow> state_open_order_count risk_state;
           if tl_max_open_orders limits \<le> open_orders then Some (Inl OpenOrderLimitExceeded)
           else do {
             position \<leftarrow> state_position risk_state;
             let prospective_position = projected_position position (no_side order) (no_qty order);
             if sint (tl_max_position_abs limits) < sint (i64_of \<bar>sint prospective_position\<bar>) then Some (Inl PositionLimitExceeded)
             else Some (Inr ())
           }
         }
     }
   }"

subsection \<open>Gateway events (mapper.rs)\<close>

definition seq_or_first :: "u64 \<Rightarrow> sequence_no" where
  "seq_or_first seq = (case seq_new seq of Some s \<Rightarrow> s | None \<Rightarrow> seq_first)"

fun map_engine_event :: "engine_event \<Rightarrow> event option" where
  "map_engine_event (Trade t) =
     Some (EvFilled (seq_or_first (tr_seq t))
       \<lparr>fl_instrument_id = ucast (tr_symbol t), fl_aggressor_order_id = tr_taker_order t,
        fl_aggressor_account_id = tr_taker_acct t, fl_aggressor_side = opposite (tr_maker_side t),
        fl_resting_order_id = tr_maker_order t, fl_resting_account_id = tr_maker_acct t, fl_price = tr_price t, fl_qty = tr_qty t,
        fl_resting_remaining_qty = tr_maker_remaining_qty t, fl_aggressor_remaining_qty = tr_taker_remaining_qty t\<rparr>)"
| "map_engine_event (Accepted seq order_id _ symb account_id client_order_id side price qty) =
     Some (EvAccepted (seq_or_first seq) (ucast symb) order_id account_id client_order_id side price qty)"
| "map_engine_event (Rejected seq _ account_id client_order_id reason) =
     Some (EvRejected (seq_or_first seq) account_id client_order_id reason)"
| "map_engine_event (OrderCancelled order_id account_id seq symb) =
     Some (EvCanceled (seq_or_first seq) (ucast symb) order_id account_id UserRequested 0)"
| "map_engine_event _ = None"

subsection \<open>The engine (engine.rs)\<close>

record ('i, 'o, 'r, 'w) engine_io =
  pop_in :: "'i \<Rightarrow> (sequenced_command option \<times> 'i) option"
  push_out :: "'o \<Rightarrow> event \<Rightarrow> ((event + unit) \<times> 'o) option"
  push_risk :: "'r \<Rightarrow> engine_event \<Rightarrow> ((engine_event + unit) \<times> 'r) option"
  append_event :: "'w \<Rightarrow> event \<Rightarrow> (wal_error + unit) \<times> 'w"

record ('k, 's, 'i, 'o, 'r, 'w) matching_engine =
  me_limits :: tier0_limits
  me_book :: "('k, 's) order_book"
  me_inbound :: 'i
  me_outbound :: 'o
  me_risk_out :: 'r
  me_risk_states :: account_risk_table
  me_wal :: 'w
  me_metrics :: engine_metrics
  me_reference_price :: "price option"
  me_running :: bool
  me_highest_term_seen :: u64

definition engine_new ::
  "tier0_limits \<Rightarrow> ('k, 's) order_book \<Rightarrow> 'i \<Rightarrow> 'o \<Rightarrow> 'r \<Rightarrow> account_risk_table \<Rightarrow> 'w \<Rightarrow> ('k, 's, 'i, 'o, 'r, 'w) matching_engine" where
  "engine_new limits book inbound outbound risk_out risk_states wal =
     \<lparr>me_limits = limits, me_book = book, me_inbound = inbound, me_outbound = outbound, me_risk_out = risk_out,
      me_risk_states = risk_states, me_wal = wal, me_metrics = metrics_new, me_reference_price = None, me_running = True,
      me_highest_term_seen = 0\<rparr>"

definition engine_shutdown :: "('k, 's, 'i, 'o, 'r, 'w) matching_engine \<Rightarrow> ('k, 's, 'i, 'o, 'r, 'w) matching_engine" where
  "engine_shutdown e = e\<lparr>me_running := False\<rparr>"

definition max_retries :: nat where
  "max_retries = 64"

fun push_retry :: "nat \<Rightarrow> ('q \<Rightarrow> 'a \<Rightarrow> (('a + unit) \<times> 'q) option) \<Rightarrow> 'q \<Rightarrow> 'a \<Rightarrow> (bool \<times> 'q) option" where
  "push_retry 0 push q item = Some (False, q)"
| "push_retry (Suc n) push q item = do {
     (r, q) \<leftarrow> push q item;
     case r of Inr _ \<Rightarrow> Some (True, q) | Inl rejected \<Rightarrow> push_retry n push q rejected
   }"

definition publish_to_risk ::
  "('i, 'o, 'r, 'w) engine_io \<Rightarrow> ('k, 's, 'i, 'o, 'r, 'w) matching_engine \<Rightarrow> engine_event \<Rightarrow>
   ('k, 's, 'i, 'o, 'r, 'w) matching_engine option" where
  "publish_to_risk io e ev = do {
     (_, q) \<leftarrow> push_retry max_retries (push_risk io) (me_risk_out e) ev;
     Some (e\<lparr>me_risk_out := q\<rparr>)
   }"

definition publish_and_log ::
  "('i, 'o, 'r, 'w) engine_io \<Rightarrow> ('k, 's, 'i, 'o, 'r, 'w) matching_engine \<Rightarrow> event \<Rightarrow>
   ('k, 's, 'i, 'o, 'r, 'w) matching_engine option" where
  "publish_and_log io e ev =
     (case append_event io (me_wal e) ev of
        (Inl _, w) \<Rightarrow> Some (e\<lparr>me_wal := w, me_metrics := record_wal_failure (me_metrics e), me_running := False\<rparr>)
      | (Inr _, w) \<Rightarrow> do {
          let e = e\<lparr>me_wal := w\<rparr>;
          (published, q) \<leftarrow> push_retry max_retries (push_out io) (me_outbound e) ev;
          let e = e\<lparr>me_outbound := q\<rparr>;
          Some (if published then e else e\<lparr>me_metrics := record_outbound_drop (me_metrics e)\<rparr>)
        })"

fun map_risk_reject_reason :: "risk_reject_reason \<Rightarrow> reject_reason" where
  "map_risk_reject_reason MaxOrderQtyExceeded = InvalidQuantity"
| "map_risk_reject_reason MaxOrderNotionalExceeded = RiskLimitBreach"
| "map_risk_reject_reason AccountHalted = RiskLimitBreach"
| "map_risk_reject_reason AccountFrozen = RiskLimitBreach"
| "map_risk_reject_reason PositionLimitExceeded = RiskLimitBreach"
| "map_risk_reject_reason OpenOrderLimitExceeded = RiskLimitBreach"
| "map_risk_reject_reason PriceOutOfBand = PriceOutOfRange"
| "map_risk_reject_reason UnknownAccount = RiskLimitBreach"

text \<open>The loop over the events of one book operation: fan out, translate, log and publish.\<close>

fun publish_events ::
  "('i, 'o, 'r, 'w) engine_io \<Rightarrow> ('k, 's, 'i, 'o, 'r, 'w) matching_engine \<Rightarrow> engine_event list \<Rightarrow>
   ('k, 's, 'i, 'o, 'r, 'w) matching_engine option" where
  "publish_events io e [] = Some e"
| "publish_events io e (ev # evs) = do {
     e \<leftarrow> publish_to_risk io e ev;
     e \<leftarrow> (case map_engine_event ev of None \<Rightarrow> Some e | Some out_ev \<Rightarrow> publish_and_log io e out_ev);
     publish_events io e evs
   }"

fun is_fill_event :: "event \<Rightarrow> bool" where
  "is_fill_event (EvFilled _ _) = True"
| "is_fill_event _ = False"

fun note_trade :: "engine_event \<Rightarrow> ('k, 's, 'i, 'o, 'r, 'w) matching_engine \<Rightarrow> ('k, 's, 'i, 'o, 'r, 'w) matching_engine" where
  "note_trade (Trade t) e = e\<lparr>me_reference_price := Some (tr_price t)\<rparr>"
| "note_trade _ e = e"

text \<open>The loop of a new order also keeps the reference price and counts the fills.\<close>

fun publish_order_events ::
  "('i, 'o, 'r, 'w) engine_io \<Rightarrow> ('k, 's, 'i, 'o, 'r, 'w) matching_engine \<Rightarrow> u64 \<Rightarrow> engine_event list \<Rightarrow>
   (('k, 's, 'i, 'o, 'r, 'w) matching_engine \<times> u64) option" where
  "publish_order_events io e n_fills [] = Some (e, n_fills)"
| "publish_order_events io e n_fills (ev # evs) = do {
     let e = note_trade ev e;
     e \<leftarrow> publish_to_risk io e ev;
     (e, n_fills) \<leftarrow> (case map_engine_event ev of
         None \<Rightarrow> Some (e, n_fills)
       | Some out_ev \<Rightarrow> do {
           e \<leftarrow> publish_and_log io e out_ev;
           Some (e, if is_fill_event out_ev then n_fills + 1 else n_fills)
         });
     publish_order_events io e n_fills evs
   }"

fun cancel_orders ::
  "('k, 's) arena_ops \<Rightarrow> ('i, 'o, 'r, 'w) engine_io \<Rightarrow> sequenced_command \<Rightarrow> account_id \<Rightarrow>
   ('k, 's, 'i, 'o, 'r, 'w) matching_engine \<Rightarrow> order_id list \<Rightarrow> ('k, 's, 'i, 'o, 'r, 'w) matching_engine option" where
  "cancel_orders sm io cmd account e [] = Some e"
| "cancel_orders sm io cmd account e (oid # oids) = do {
     (b, events) \<leftarrow> apply_cmd sm (me_book e) (cmd\<lparr>sc_cmd := Cancel account oid\<rparr>);
     e \<leftarrow> publish_events io (e\<lparr>me_book := b\<rparr>) events;
     cancel_orders sm io cmd account e oids
   }"

definition risk_result ::
  "('k, 's, 'i, 'o, 'r, 'w) matching_engine \<Rightarrow> account_id \<Rightarrow> new_order \<Rightarrow> (risk_reject_reason + unit) option" where
  "risk_result e account order =
     (case table_get (me_risk_states e) account of
        Some state \<Rightarrow> check_new_order order account (me_limits e) state (me_reference_price e)
      | None \<Rightarrow> Some (Inl UnknownAccount))"

definition handle_new_order ::
  "('k, 's) arena_ops \<Rightarrow> ('i, 'o, 'r, 'w) engine_io \<Rightarrow> u64 \<Rightarrow> ('k, 's, 'i, 'o, 'r, 'w) matching_engine \<Rightarrow> sequenced_command \<Rightarrow>
   new_order \<Rightarrow> ('k, 's, 'i, 'o, 'r, 'w) matching_engine option" where
  "handle_new_order sm io risk_ns e cmd order = do {
     r \<leftarrow> risk_result e (no_account_id order) order;
     let m = me_metrics e;
     let e = e\<lparr>me_metrics := m\<lparr>em_risk_check_latency := record_latency (em_risk_check_latency m) risk_ns\<rparr>\<rparr>;
     case r of
       Inr _ \<Rightarrow> do {
         (b, engine_events) \<leftarrow> apply_cmd sm (me_book e) cmd;
         (e, n_fills) \<leftarrow> publish_order_events io (e\<lparr>me_book := b\<rparr>) 0 engine_events;
         Some (e\<lparr>me_metrics := record_order (me_metrics e) n_fills False\<rparr>)
       }
     | Inl reason \<Rightarrow>
         publish_and_log io (e\<lparr>me_metrics := record_order (me_metrics e) 0 True\<rparr>)
           (EvRejected (seq_or_first (sc_seq cmd)) (no_account_id order) (no_client_order_id order) (map_risk_reject_reason reason))
   }"

text \<open>The match over the kind of the command, and the whole handler.\<close>

definition match_command ::
  "('k, 's) arena_ops \<Rightarrow> ('i, 'o, 'r, 'w) engine_io \<Rightarrow> u64 \<Rightarrow> ('k, 's, 'i, 'o, 'r, 'w) matching_engine \<Rightarrow> sequenced_command \<Rightarrow>
   ('k, 's, 'i, 'o, 'r, 'w) matching_engine option" where
  "match_command sm io risk_ns e cmd =
     (case sc_cmd cmd of
        NewOrder account client_order_id symb side price qty order_type time_in_force \<Rightarrow>
          handle_new_order sm io risk_ns e cmd
            \<lparr>no_account_id = account, no_instrument_id = ucast symb, no_client_order_id = client_order_id, no_side = side,
             no_price = price, no_order_type = order_type, no_qty = qty, no_time_in_force = time_in_force\<rparr>
      | Cancel _ _ \<Rightarrow> do {
          (b, events) \<leftarrow> apply_cmd sm (me_book e) cmd;
          publish_events io (e\<lparr>me_book := b\<rparr>) events
        }
      | Liquidate _ account \<Rightarrow> cancel_orders sm io cmd account e (open_order_ids_for_account sm (me_book e) account)
      | FreezeAccount account \<Rightarrow>
          (case table_get (me_risk_states e) account of
             Some state \<Rightarrow> do {
               state \<leftarrow> set_frozen state True;
               Some (e\<lparr>me_risk_states := table_put (me_risk_states e) account state\<rparr>)
             }
           | None \<Rightarrow> Some e))"

definition handle_command ::
  "('k, 's) arena_ops \<Rightarrow> ('i, 'o, 'r, 'w) engine_io \<Rightarrow> u64 \<Rightarrow> u64 \<Rightarrow> ('k, 's, 'i, 'o, 'r, 'w) matching_engine \<Rightarrow> sequenced_command \<Rightarrow>
   ('k, 's, 'i, 'o, 'r, 'w) matching_engine option" where
  "handle_command sm io risk_ns match_ns e cmd =
     (if sc_term cmd < me_highest_term_seen e then
        Some (e\<lparr>me_highest_term_seen := max (me_highest_term_seen e) (sc_term cmd)\<rparr>)
      else do {
        e \<leftarrow> match_command sm io risk_ns e cmd;
        let m = me_metrics e;
        Some (e\<lparr>me_metrics := m\<lparr>em_match_latency := record_latency (em_match_latency m) match_ns\<rparr>\<rparr>)
      })"

text \<open>One turn of the hot loop, and \<open>n\<close> turns. The loop itself ends only when \<open>running\<close> is false.\<close>

definition engine_turn ::
  "('k, 's) arena_ops \<Rightarrow> ('i, 'o, 'r, 'w) engine_io \<Rightarrow> u64 \<Rightarrow> u64 \<Rightarrow> ('k, 's, 'i, 'o, 'r, 'w) matching_engine \<Rightarrow>
   ('k, 's, 'i, 'o, 'r, 'w) matching_engine option" where
  "engine_turn sm io risk_ns match_ns e = do {
     (popped, q) \<leftarrow> pop_in io (me_inbound e);
     let e = e\<lparr>me_inbound := q\<rparr>;
     case popped of
       Some cmd \<Rightarrow> handle_command sm io risk_ns match_ns e cmd
     | None \<Rightarrow> Some (e\<lparr>me_metrics := record_idle_spin (me_metrics e)\<rparr>)
   }"

fun engine_turns ::
  "('k, 's) arena_ops \<Rightarrow> ('i, 'o, 'r, 'w) engine_io \<Rightarrow> (u64 \<times> u64) list \<Rightarrow> ('k, 's, 'i, 'o, 'r, 'w) matching_engine \<Rightarrow>
   ('k, 's, 'i, 'o, 'r, 'w) matching_engine option" where
  "engine_turns sm io [] e = Some e"
| "engine_turns sm io ((risk_ns, match_ns) # clock) e =
     (if \<not> me_running e then Some e else do { e \<leftarrow> engine_turn sm io risk_ns match_ns e; engine_turns sm io clock e })"

end
