(* ===== verification/Engine_Props.thy ===== *)
theory Engine_Props
  imports Matching_Engine Wal_Props Channel
begin

text \<open>
  What the matching engine guarantees. The contract of the engine's rings and log is a locale; it is interpreted on the
  model's rings, with their consumers popping between the engine's pushes, and on the file log.
\<close>

subsection \<open>Published and logged events\<close>

text \<open>What was published is a subsequence of what is in the log, and the difference is counted as drops.\<close>

definition streams_ok ::
  "('o \<Rightarrow> event list \<Rightarrow> bool) \<Rightarrow> ('r \<Rightarrow> bool) \<Rightarrow> ('w \<Rightarrow> event list \<Rightarrow> bool) \<Rightarrow> ('k, 's, 'i, 'o, 'r, 'w) matching_engine \<Rightarrow> bool" where
  "streams_ok sent risk_ok logged e \<longleftrightarrow> risk_ok (me_risk_out e) \<and>
     (\<exists>ps ls. sent (me_outbound e) ps \<and> logged (me_wal e) ls \<and> subseq ps ls \<and>
        of_nat (length ls) = of_nat (length ps) + em_outbound_drops (me_metrics e))"

text \<open>The parts of the engine that publishing leaves alone.\<close>

definition same_core :: "('k, 's, 'i, 'o, 'r, 'w) matching_engine \<Rightarrow> ('k, 's, 'i, 'o, 'r, 'w) matching_engine \<Rightarrow> bool" where
  "same_core e e' \<longleftrightarrow> me_book e' = me_book e \<and> me_risk_states e' = me_risk_states e \<and> me_limits e' = me_limits e \<and>
     me_highest_term_seen e' = me_highest_term_seen e"

lemma same_core_refl [simp]: "same_core e e"
  by (simp add: same_core_def)

lemma same_core_trans: "same_core a b \<Longrightarrow> same_core b c \<Longrightarrow> same_core a c"
  by (simp add: same_core_def)

lemma streams_ok_core [simp]:
  "streams_ok sent risk_ok logged (e\<lparr>me_book := b\<rparr>) = streams_ok sent risk_ok logged e"
  "streams_ok sent risk_ok logged (e\<lparr>me_risk_states := t\<rparr>) = streams_ok sent risk_ok logged e"
  "streams_ok sent risk_ok logged (e\<lparr>me_reference_price := p\<rparr>) = streams_ok sent risk_ok logged e"
  "streams_ok sent risk_ok logged (e\<lparr>me_highest_term_seen := n\<rparr>) = streams_ok sent risk_ok logged e"
  "em_outbound_drops m = em_outbound_drops (me_metrics e) \<Longrightarrow>
   streams_ok sent risk_ok logged (e\<lparr>me_metrics := m\<rparr>) = streams_ok sent risk_ok logged e"
  by (simp_all add: streams_ok_def)

subsection \<open>Cancels on a ready book\<close>

lemma cancel_step:
  assumes "order_arena sm sm_inv" "book_ready sm sm_inv b (sc_seq cmd)" "sc_cmd cmd = Cancel acct oid"
  shows "\<exists>b' es. apply_cmd sm b cmd = Some (b', es) \<and> book_ready sm sm_inv b' (sc_seq cmd) \<and>
    (\<forall>s. ab_queue (abs_of sm b') s = filter (\<lambda>m. \<not> (bo_id m = oid \<and> bo_account m = acct)) (ab_queue (abs_of sm b) s))"
proof -
  obtain b' es where b': "apply_cmd sm b cmd = Some (b', es)" "spec_apply (abs_of sm b) cmd = (abs_of sm b', es)"
    "book_inv sm sm_inv b'" "ab_ok (abs_of sm b')"
    using ready_step [OF assms(1,2)] by blast
  have inv: "book_inv sm sm_inv b" and seqs: "\<forall>m \<in> ab_orders (abs_of sm b). bo_seq m < sc_seq cmd"
    using assms(2) by (simp_all add: book_ready_def)
  have sp: "spec_cancel (abs_of sm b) (sc_seq cmd) acct oid = (abs_of sm b', es)"
    using b'(2) assms(3) by (simp add: spec_apply_def)
  have ab: "abs_of sm b' = fst (spec_cancel (abs_of sm b) (sc_seq cmd) acct oid)"
    by (simp add: sp)
  have unique: "find_order (abs_of sm b) oid = Some m" if "m \<in> set (ab_queue (abs_of sm b) s)" "bo_id m = oid" for m s
    using find_by_id [OF assms(1) inv, of m] that by (auto simp: in_ab_orders)
  have q: "ab_queue (abs_of sm b') s = filter (\<lambda>m. \<not> (bo_id m = oid \<and> bo_account m = acct)) (ab_queue (abs_of sm b) s)" for s
  proof (cases "find_order (abs_of sm b) oid")
    case None
    then have "filter (\<lambda>m. \<not> (bo_id m = oid \<and> bo_account m = acct)) (ab_queue (abs_of sm b) s) = ab_queue (abs_of sm b) s"
      using unique [of _ s] by (intro filter_True) auto
    then show ?thesis
      using None by (simp add: ab spec_cancel_def)
  next
    case (Some x)
    have "filter (\<lambda>m. \<not> (bo_id m = oid \<and> bo_account m = acct)) (ab_queue (abs_of sm b) s) =
        filter (\<lambda>m. bo_id m = oid \<longrightarrow> bo_account x \<noteq> acct) (ab_queue (abs_of sm b) s)"
      using unique [of _ s] Some by (intro filter_cong) auto
    then show ?thesis
      using Some by (simp add: ab spec_cancel_def)
  qed
  then have "\<forall>m \<in> ab_orders (abs_of sm b'). bo_seq m < sc_seq cmd"
    using seqs by (auto simp: in_ab_orders)
  then show ?thesis
    using b' q by (auto simp: book_ready_def)
qed

subsection \<open>Runs of commands\<close>

text \<open>The commands the loop takes from its ring, one after the other, with the clock readings of each. Before each command the
  risk shards may have written to the shared table, in whatever way \<open>shards\<close> says.\<close>

fun handle_all ::
  "('k, 's) arena_ops \<Rightarrow> ('i, 'o, 'r, 'w) engine_io \<Rightarrow> ('k, 's, 'i, 'o, 'r, 'w) matching_engine \<Rightarrow>
   ((account_risk_table \<Rightarrow> account_risk_table) \<times> u64 \<times> u64 \<times> sequenced_command) list \<Rightarrow>
   ('k, 's, 'i, 'o, 'r, 'w) matching_engine option" where
  "handle_all sm io e [] = Some e"
| "handle_all sm io e ((shards, risk_ns, match_ns, cmd) # cmds) = do {
     e \<leftarrow> handle_command sm io risk_ns match_ns (e\<lparr>me_risk_states := shards (me_risk_states e)\<rparr>) cmd;
     handle_all sm io e cmds
   }"

text \<open>Writes that finish: every update the shards began is complete when the engine reads.\<close>

definition finished_writes :: "(account_risk_table \<Rightarrow> account_risk_table) \<Rightarrow> bool" where
  "finished_writes shards \<longleftrightarrow> (\<forall>t. (\<forall>st \<in> set t. quiet st) \<longrightarrow> (\<forall>st \<in> set (shards t). quiet st))"

definition book_upto :: "('k, 's) arena_ops \<Rightarrow> ('s \<Rightarrow> bool) \<Rightarrow> ('k, 's) order_book \<Rightarrow> u64 \<Rightarrow> bool" where
  "book_upto sm sm_inv b seq \<longleftrightarrow> book_inv sm sm_inv b \<and> ab_ok (abs_of sm b) \<and> (\<forall>m \<in> ab_orders (abs_of sm b). bo_seq m \<le> seq)"

lemma ready_upto: "book_ready sm sm_inv b seq \<Longrightarrow> book_upto sm sm_inv b seq"
  by (auto simp: book_ready_def book_upto_def less_imp_le)

lemma upto_ready: "book_upto sm sm_inv b seq \<Longrightarrow> seq < seq' \<Longrightarrow> book_ready sm sm_inv b seq'"
  by (auto simp: book_ready_def book_upto_def)

subsection \<open>The risk check on readable states\<close>

lemma check_new_order_total:
  assumes "quiet st"
  shows "\<exists>r. check_new_order order account limits st ref = Some r"
  using assms by (simp add: check_new_order_def is_halted_def is_frozen_def state_open_order_count_def state_position_def Let_def)

lemma sdiv_pos: "0 \<le> x \<Longrightarrow> 0 < y \<Longrightarrow> x sdiv y = x div (y :: int)"
  by (simp add: signed_divide_int_def sgn_if)

lemma notional_within:
  assumes "0 < sint p" "m \<noteq> -1"
  shows "notional_of p q \<le> m \<longleftrightarrow> sint p * uint q div 100000000 \<le> uint m"
proof -
  let ?prod = "sint p * uint q div 100000000"
  have nn: "0 \<le> ?prod"
    using assms(1) by (simp add: pos_imp_zdiv_nonneg_iff)
  have top: "uint (-1 :: u64) = 2 ^ 64 - 1"
    by code_simp
  have mb: "uint m < 2 ^ 64 - 1"
  proof -
    have "uint m \<noteq> uint (-1 :: u64)"
      using assms(2) by (simp add: word_uint_eq_iff)
    then show ?thesis
      using uint_lt2p [of m] top by simp
  qed
  consider "?prod = 0" | "0 < ?prod" "?prod \<le> 2 ^ 64 - 1" | "2 ^ 64 - 1 < ?prod"
    using nn by linarith
  then show ?thesis
  proof cases
    case 2
    then have "uint (word_of_int ?prod :: u64) = ?prod"
      by (simp add: uint_word_of_int_eq take_bit_int_eq_self)
    then show ?thesis
      using 2 assms(1) by (simp add: notional_of_def Let_def sdiv_pos word_le_def)
  qed (use assms(1) mb top in \<open>simp_all add: notional_of_def Let_def sdiv_pos word_le_def\<close>)
qed

lemma table_get_in: "table_get t a = Some st \<Longrightarrow> st \<in> set t"
  by (auto simp: table_get_def list_get_def split: if_splits)

lemma risk_result_total:
  assumes "\<forall>st \<in> set (me_risk_states e). quiet st"
  shows "\<exists>r. risk_result e account order = Some r"
  using check_new_order_total assms by (auto simp: risk_result_def table_get_in split: option.splits)

subsection \<open>The contract of the rings and the log\<close>

text \<open>\<open>sent q es\<close>: the events pushed into the outbound ring so far are \<open>es\<close>; \<open>logged w es\<close>: the log holds the events \<open>es\<close>.\<close>

locale engine_channels =
  fixes io :: "('i, 'o, 'r, 'w) engine_io"
    and sent :: "'o \<Rightarrow> event list \<Rightarrow> bool"
    and risk_ok :: "'r \<Rightarrow> bool"
    and logged :: "'w \<Rightarrow> event list \<Rightarrow> bool"
  assumes push_out: "sent q es \<Longrightarrow> \<exists>r q'. push_out io q x = Some (r, q') \<and>
      (case r of Inr _ \<Rightarrow> sent q' (es @ [x]) | Inl y \<Rightarrow> y = x \<and> sent q' es)"
    and push_risk: "risk_ok p \<Longrightarrow> \<exists>r q'. push_risk io p y = Some (r, q') \<and> risk_ok q'"
    and append: "logged w es \<Longrightarrow> append_event io w x = (res, w') \<Longrightarrow>
      (case res of Inr _ \<Rightarrow> logged w' (es @ [x]) | Inl _ \<Rightarrow> logged w' es)"
begin

abbreviation ok :: "('k, 's, 'i, 'o, 'r, 'w) matching_engine \<Rightarrow> bool" where
  "ok \<equiv> streams_ok sent risk_ok logged"

lemma push_retry_out:
  "sent q es \<Longrightarrow> \<exists>b q'. push_retry n (push_out io) q x = Some (b, q') \<and> sent q' (if b then es @ [x] else es)"
proof (induction n arbitrary: q)
  case (Suc n)
  obtain r q' where "push_out io q x = Some (r, q')" "case r of Inr _ \<Rightarrow> sent q' (es @ [x]) | Inl y \<Rightarrow> y = x \<and> sent q' es"
    using push_out [OF Suc.prems] by blast
  then show ?case
    using Suc.IH by (cases r) auto
qed auto

lemma push_retry_risk: "risk_ok p \<Longrightarrow> \<exists>b q'. push_retry n (push_risk io) p y = Some (b, q') \<and> risk_ok q'"
proof (induction n arbitrary: p y)
  case (Suc n)
  obtain r q' where "push_risk io p y = Some (r, q')" "risk_ok q'"
    using push_risk [OF Suc.prems] by blast
  then show ?case
    using Suc.IH by (cases r) auto
qed auto

lemma publish_to_risk_ok:
  assumes "ok e"
  shows "\<exists>e'. publish_to_risk io e ev = Some e' \<and> ok e' \<and> same_core e e' \<and> me_running e' = me_running e"
  using assms push_retry_risk [of "me_risk_out e" max_retries ev]
  by (fastforce simp: streams_ok_def publish_to_risk_def same_core_def)

lemma publish_and_log_ok:
  assumes "ok e"
  shows "\<exists>e'. publish_and_log io e ev = Some e' \<and> ok e' \<and> same_core e e'"
proof -
  obtain ps ls where s: "sent (me_outbound e) ps" "logged (me_wal e) ls" "subseq ps ls" "risk_ok (me_risk_out e)"
    "of_nat (length ls) = of_nat (length ps) + em_outbound_drops (me_metrics e)"
    using assms by (auto simp: streams_ok_def)
  obtain res w where w: "append_event io (me_wal e) ev = (res, w)"
    by fastforce
  note w' = append [OF s(2) w]
  show ?thesis
  proof (cases res)
    case (Inl err)
    then show ?thesis
      using s w w' by (auto simp: publish_and_log_def streams_ok_def same_core_def record_wal_failure_def)
  next
    case (Inr u)
    obtain b q where q: "push_retry max_retries (push_out io) (me_outbound e) ev = Some (b, q)" "sent q (if b then ps @ [ev] else ps)"
      using push_retry_out [OF s(1)] by blast
    have "subseq (if b then ps @ [ev] else ps) (ls @ [ev])"
      using s(3) list_emb_append_mono [of "(=)" ps ls "[]" "[ev]"] by (simp add: list_emb_append_mono)
    then have "ok ((e\<lparr>me_wal := w, me_outbound := q\<rparr>)
        \<lparr>me_metrics := if b then me_metrics e else record_outbound_drop (me_metrics e)\<rparr>)"
      using s(4,5) q(2) w' Inr unfolding streams_ok_def
      by (intro conjI exI [of _ "if b then ps @ [ev] else ps"] exI [of _ "ls @ [ev]"]) (auto simp: record_outbound_drop_def)
    then show ?thesis
      using w q(1) Inr by (cases b) (auto simp: publish_and_log_def same_core_def Let_def)
  qed
qed

lemma publish_events_ok:
  "ok e \<Longrightarrow> \<exists>e'. publish_events io e evs = Some e' \<and> ok e' \<and> same_core e e'"
proof (induction evs arbitrary: e)
  case (Cons ev evs)
  obtain e1 where e1: "publish_to_risk io e ev = Some e1" "ok e1" "same_core e e1"
    using publish_to_risk_ok [OF Cons.prems] by blast
  obtain e2 where e2: "(case map_engine_event ev of None \<Rightarrow> Some e1 | Some out_ev \<Rightarrow> publish_and_log io e1 out_ev) = Some e2"
    "ok e2" "same_core e1 e2"
    using publish_and_log_ok [OF e1(2)] e1(2) by (cases "map_engine_event ev") auto
  obtain e3 where "publish_events io e2 evs = Some e3" "ok e3" "same_core e2 e3"
    using Cons.IH [OF e2(2)] by blast
  then show ?case
    using e1 e2 by (auto intro: same_core_trans)
qed simp

lemma note_trade_ok: "ok (note_trade ev e) = ok e" "same_core e (note_trade ev e)"
  by (cases ev; simp add: same_core_def)+

lemma publish_order_events_ok:
  "ok e \<Longrightarrow> \<exists>e' n'. publish_order_events io e n evs = Some (e', n') \<and> ok e' \<and> same_core e e'"
proof (induction evs arbitrary: e n)
  case (Cons ev evs)
  obtain e1 where e1: "publish_to_risk io (note_trade ev e) ev = Some e1" "ok e1" "same_core (note_trade ev e) e1"
    using publish_to_risk_ok [of "note_trade ev e"] Cons.prems note_trade_ok(1) by blast
  obtain e2 n2 where e2: "(case map_engine_event ev of None \<Rightarrow> Some (e1, n) | Some out_ev \<Rightarrow> do {
           e \<leftarrow> publish_and_log io e1 out_ev;
           Some (e, if is_fill_event out_ev then n + 1 else n)
         }) = Some (e2, n2)"
    "ok e2" "same_core e1 e2"
  proof (cases "map_engine_event ev")
    case (Some out_ev)
    obtain e' where "publish_and_log io e1 out_ev = Some e'" "ok e'" "same_core e1 e'"
      using publish_and_log_ok [OF e1(2)] by blast
    then show ?thesis
      using that Some by simp
  qed (use that e1(2) in simp)
  obtain e3 n3 where "publish_order_events io e2 n2 evs = Some (e3, n3)" "ok e3" "same_core e2 e3"
    using Cons.IH [OF e2(2)] by blast
  then show ?case
    using e1 e2 note_trade_ok(2) [of e ev] by (auto intro: same_core_trans)
qed simp

text \<open>The handlers return, keep the streams in order, and their effect on the book is that of the book operation.\<close>

lemma cancel_orders_ok:
  assumes ar: "order_arena sm sm_inv"
  shows "ok e \<Longrightarrow> book_ready sm sm_inv (me_book e) (sc_seq cmd) \<Longrightarrow>
    \<exists>e'. cancel_orders sm io cmd account e oids = Some e' \<and> ok e' \<and> book_ready sm sm_inv (me_book e') (sc_seq cmd) \<and>
      me_risk_states e' = me_risk_states e \<and> me_highest_term_seen e' = me_highest_term_seen e \<and>
      (\<forall>s. ab_queue (abs_of sm (me_book e')) s =
         filter (\<lambda>m. \<not> (bo_id m \<in> set oids \<and> bo_account m = account)) (ab_queue (abs_of sm (me_book e)) s))"
proof (induction oids arbitrary: e)
  case (Cons oid oids)
  obtain b es where b: "apply_cmd sm (me_book e) (cmd\<lparr>sc_cmd := Cancel account oid\<rparr>) = Some (b, es)" "book_ready sm sm_inv b (sc_seq cmd)"
    "\<forall>s. ab_queue (abs_of sm b) s = filter (\<lambda>m. \<not> (bo_id m = oid \<and> bo_account m = account)) (ab_queue (abs_of sm (me_book e)) s)"
    using cancel_step [OF ar, of "me_book e" "cmd\<lparr>sc_cmd := Cancel account oid\<rparr>" account oid] Cons.prems(2) by auto
  obtain e1 where e1: "publish_events io (e\<lparr>me_book := b\<rparr>) es = Some e1" "ok e1" "same_core (e\<lparr>me_book := b\<rparr>) e1"
    using publish_events_ok [of "e\<lparr>me_book := b\<rparr>" es] Cons.prems(1) by auto
  obtain e2 where e2: "cancel_orders sm io cmd account e1 oids = Some e2" "ok e2" "book_ready sm sm_inv (me_book e2) (sc_seq cmd)"
    "me_risk_states e2 = me_risk_states e1" "me_highest_term_seen e2 = me_highest_term_seen e1"
    "\<forall>s. ab_queue (abs_of sm (me_book e2)) s =
      filter (\<lambda>m. \<not> (bo_id m \<in> set oids \<and> bo_account m = account)) (ab_queue (abs_of sm (me_book e1)) s)"
    using Cons.IH [OF e1(2)] e1(3) b(2) by (auto simp: same_core_def)
  have "filter (\<lambda>m. \<not> (bo_id m \<in> set oids \<and> bo_account m = account)) (filter (\<lambda>m. \<not> (bo_id m = oid \<and> bo_account m = account)) xs) =
      filter (\<lambda>m. \<not> (bo_id m \<in> set (oid # oids) \<and> bo_account m = account)) xs" for xs :: "book_order list"
    by (induction xs) auto
  then show ?case
    using b(1,3) e1(1,3) e2 by (auto simp: same_core_def)
qed simp

lemma handle_new_order_ok:
  assumes "order_arena sm sm_inv" "ok e" "book_ready sm sm_inv (me_book e) (sc_seq cmd)" "\<forall>st \<in> set (me_risk_states e). quiet st"
    "sc_cmd cmd = NewOrder account coid symb side price qty order_type tif" "no_account_id order = account"
  shows "\<exists>r e'. risk_result e account order = Some r \<and> handle_new_order sm io risk_ns e cmd order = Some e' \<and> ok e' \<and>
    me_risk_states e' = me_risk_states e \<and> me_highest_term_seen e' = me_highest_term_seen e \<and>
    (case r of Inl _ \<Rightarrow> me_book e' = me_book e | Inr _ \<Rightarrow> Some (me_book e') = map_option fst (apply_cmd sm (me_book e) cmd))"
proof -
  obtain r where r: "risk_result e account order = Some r"
    using risk_result_total [OF assms(4)] by blast
  let ?e = "e\<lparr>me_metrics := (me_metrics e)\<lparr>em_risk_check_latency := record_latency (em_risk_check_latency (me_metrics e)) risk_ns\<rparr>\<rparr>"
  have e: "ok ?e"
    using assms(2) by simp
  show ?thesis
  proof (cases r)
    case (Inl reason)
    have "ok (?e\<lparr>me_metrics := record_order (me_metrics ?e) 0 True\<rparr>)"
      using e by (subst streams_ok_core(5)) (simp_all add: record_order_def)
    from publish_and_log_ok [OF this] show ?thesis
      using r Inl assms(6) by (fastforce simp: handle_new_order_def Let_def same_core_def)
  next
    case (Inr u)
    obtain b es where b: "apply_cmd sm (me_book e) cmd = Some (b, es)"
      using ready_step [OF assms(1,3)] by blast
    obtain e1 n where e1: "publish_order_events io (?e\<lparr>me_book := b\<rparr>) 0 es = Some (e1, n)" "ok e1" "same_core (?e\<lparr>me_book := b\<rparr>) e1"
      using publish_order_events_ok [of "?e\<lparr>me_book := b\<rparr>" 0 es] e by auto
    have "ok (e1\<lparr>me_metrics := record_order (me_metrics e1) n False\<rparr>)"
      using e1(2) by (subst streams_ok_core(5)) (simp_all add: record_order_def Let_def)
    then show ?thesis
      using r Inr b e1 assms(6) by (simp add: handle_new_order_def Let_def same_core_def)
  qed
qed

text \<open>What every command leaves behind: the streams in order, the risk states readable, the book ready for the next command.\<close>

lemma match_command_ok:
  assumes "order_arena sm sm_inv" "ok e" "book_ready sm sm_inv (me_book e) (sc_seq cmd)" "\<forall>st \<in> set (me_risk_states e). quiet st"
  shows "\<exists>e'. match_command sm io risk_ns e cmd = Some e' \<and> ok e' \<and> (\<forall>st \<in> set (me_risk_states e'). quiet st) \<and>
    book_upto sm sm_inv (me_book e') (sc_seq cmd) \<and> me_highest_term_seen e' = me_highest_term_seen e"
proof (cases "sc_cmd cmd")
  case (NewOrder account coid symb side price qty order_type tif)
  let ?order = "\<lparr>no_account_id = account, no_instrument_id = ucast symb, no_client_order_id = coid, no_side = side, no_price = price,
    no_order_type = order_type, no_qty = qty, no_time_in_force = tif\<rparr>"
  obtain r :: "risk_reject_reason + unit" and e' where e': "handle_new_order sm io risk_ns e cmd ?order = Some e'" "ok e'" "me_risk_states e' = me_risk_states e"
    "me_highest_term_seen e' = me_highest_term_seen e"
    "case r of Inl _ \<Rightarrow> me_book e' = me_book e | Inr _ \<Rightarrow> Some (me_book e') = map_option fst (apply_cmd sm (me_book e) cmd)"
    using handle_new_order_ok [OF assms NewOrder, of ?order risk_ns] by fastforce
  obtain b es where b: "apply_cmd sm (me_book e) cmd = Some (b, es)" "book_upto sm sm_inv b (sc_seq cmd)"
    using ready_step [OF assms(1,3)] by (auto simp: book_upto_def)
  have "book_upto sm sm_inv (me_book e') (sc_seq cmd)"
    using e'(5) b ready_upto [OF assms(3)] by (cases r) auto
  then show ?thesis
    using e' assms(4) by (simp add: match_command_def NewOrder)
next
  case (Cancel account oid)
  obtain b es where b: "apply_cmd sm (me_book e) cmd = Some (b, es)" "book_ready sm sm_inv b (sc_seq cmd)"
    using cancel_step [OF assms(1,3) Cancel] by blast
  have "ok (e\<lparr>me_book := b\<rparr>)"
    using assms(2) by simp
  from publish_events_ok [OF this, of es] show ?thesis
    using b ready_upto [OF b(2)] assms(4) by (auto simp: match_command_def Cancel same_core_def)
next
  case (Liquidate symb account)
  show ?thesis
    using cancel_orders_ok [OF assms(1-3), of account "open_order_ids_for_account sm (me_book e) account"] assms(4) ready_upto
    by (fastforce simp: match_command_def Liquidate)
next
  case (FreezeAccount account)
  show ?thesis
  proof (cases "table_get (me_risk_states e) account")
    case None
    then show ?thesis
      using assms(2,4) ready_upto [OF assms(3)] by (simp add: match_command_def FreezeAccount)
  next
    case (Some st)
    then have "quiet st"
      using assms(4) table_get_in by blast
    then have "set_frozen st True = Some (state_update st ((st_cells st)\<lparr>frozen := True\<rparr>))" "quiet (state_update st s)" for s
      by (simp_all add: set_frozen_quiet)
    then show ?thesis
      using Some assms(2,4) ready_upto [OF assms(3)]
      by (auto simp: match_command_def FreezeAccount table_put_def dest!: set_update_subset_insert [THEN subsetD])
  qed
qed

lemma handle_command_ok:
  assumes "order_arena sm sm_inv" "ok e" "book_ready sm sm_inv (me_book e) (sc_seq cmd)" "\<forall>st \<in> set (me_risk_states e). quiet st"
  shows "\<exists>e'. handle_command sm io risk_ns match_ns e cmd = Some e' \<and> ok e' \<and> (\<forall>st \<in> set (me_risk_states e'). quiet st) \<and>
    book_upto sm sm_inv (me_book e') (sc_seq cmd)"
proof (cases "sc_term cmd < me_highest_term_seen e")
  case True
  then show ?thesis
    using ready_upto [OF assms(3)] assms(2,4) by (simp add: handle_command_def)
next
  case False
  obtain e' where "match_command sm io risk_ns e cmd = Some e'" "ok e'" "\<forall>st \<in> set (me_risk_states e'). quiet st"
    "book_upto sm sm_inv (me_book e') (sc_seq cmd)"
    using match_command_ok [OF assms] by blast
  then show ?thesis
    using False by (simp add: handle_command_def Let_def)
qed

lemma handle_all_ok:
  assumes "order_arena sm sm_inv"
  shows "ok e \<Longrightarrow> \<forall>st \<in> set (me_risk_states e). quiet st \<Longrightarrow> sorted_wrt (<) (map (\<lambda>(_, _, _, c). sc_seq c) cmds) \<Longrightarrow>
    \<forall>(shards, _, _, c) \<in> set cmds. finished_writes shards \<and> book_ready sm sm_inv (me_book e) (sc_seq c) \<Longrightarrow>
    \<exists>e'. handle_all sm io e cmds = Some e' \<and> ok e' \<and> (book_inv sm sm_inv (me_book e) \<longrightarrow> book_inv sm sm_inv (me_book e'))"
proof (induction cmds arbitrary: e)
  case (Cons c cmds)
  obtain shards risk_ns match_ns cmd where c: "c = (shards, risk_ns, match_ns, cmd)"
    by (cases c)
  let ?e = "e\<lparr>me_risk_states := shards (me_risk_states e)\<rparr>"
  have "ok ?e" "book_ready sm sm_inv (me_book ?e) (sc_seq cmd)" "\<forall>st \<in> set (me_risk_states ?e). quiet st"
    using Cons.prems(1,2,4) c by (simp_all add: finished_writes_def)
  then obtain e1 where e1: "handle_command sm io risk_ns match_ns ?e cmd = Some e1" "ok e1" "\<forall>st \<in> set (me_risk_states e1). quiet st"
    "book_upto sm sm_inv (me_book e1) (sc_seq cmd)"
    using handle_command_ok [OF assms] by blast
  have "\<forall>(shards, _, _, c) \<in> set cmds. finished_writes shards \<and> book_ready sm sm_inv (me_book e1) (sc_seq c)"
    using upto_ready [OF e1(4)] Cons.prems(3,4) c by auto
  then obtain e' where "handle_all sm io e1 cmds = Some e'" "ok e'" "book_inv sm sm_inv (me_book e1) \<longrightarrow> book_inv sm sm_inv (me_book e')"
    using Cons.IH [OF e1(2,3)] Cons.prems(3) by auto
  then show ?case
    using e1 c by (auto simp: book_upto_def)
qed simp

end

subsection \<open>The model's rings and log keep the contract\<close>

definition risk_ring_ok :: "u64 \<Rightarrow> 'a spmc \<Rightarrow> bool" where
  "risk_ring_ok cap q \<longleftrightarrow> is_power_of_two cap \<and> length (m_slots q) = unat cap"

definition events_logged :: "wal_deps \<Rightarrow> file_wal_writer \<Rightarrow> event list \<Rightarrow> bool" where
  "events_logged deps w evs \<longleftrightarrow>
     (\<exists>es. wal_holds deps w es \<and> map (\<lambda>(seq, _, _, p). (seq, Some p)) es = map (\<lambda>ev. (seq_get (event_seq ev), ser_event deps ev)) evs)"

text \<open>The log reads the clock for every record: the state of the engine's log is the writer and the readings to come.\<close>

type_synonym clocked_wal = "file_wal_writer \<times> (nat \<Rightarrow> u64)"

definition clocked_append :: "wal_deps \<Rightarrow> clocked_wal \<Rightarrow> event \<Rightarrow> (wal_error + unit) \<times> clocked_wal" where
  "clocked_append deps w ev =
     (let (r, writer) = file_append_event deps (snd w 0) (fst w) ev in (r, writer, \<lambda>i. snd w (Suc i)))"

definition engine_logged :: "wal_deps \<Rightarrow> clocked_wal \<Rightarrow> event list \<Rightarrow> bool" where
  "engine_logged deps w evs \<longleftrightarrow> events_logged deps (fst w) evs"

definition engine_rings ::
  "wal_deps \<Rightarrow> (sequenced_command spsc, event channel, engine_event spmc, clocked_wal) engine_io" where
  "engine_rings deps =
     \<lparr>pop_in = spsc_try_pop 4096, push_out = channel_push 1024, push_risk = spmc_try_push 16384, append_event = clocked_append deps\<rparr>"

lemma risk_push_ok:
  assumes "risk_ring_ok cap q"
  shows "\<exists>r q'. spmc_try_push cap q x = Some (r, q') \<and> risk_ring_ok cap q'"
proof -
  have "ring_mask cap (m_cached_head q) = unat (m_cached_head q) mod unat cap"
    using ring_mask_of_nat [of cap "unat (m_cached_head q)"] assms by (simp add: risk_ring_ok_def)
  then have "ring_mask cap (m_cached_head q) < length (m_slots q)"
    using assms power_of_two_pos by (simp add: risk_ring_ok_def)
  then show ?thesis
    using assms by (simp add: spmc_try_push_def risk_ring_ok_def Let_def)
qed

lemma file_append_logged:
  assumes "events_logged deps w evs" "file_append_event deps now_ns w ev = (r, w')"
  shows "case r of Inr _ \<Rightarrow> events_logged deps w' (evs @ [ev]) | Inl _ \<Rightarrow> events_logged deps w' evs"
proof -
  obtain es where es: "wal_holds deps w es"
    "map (\<lambda>(seq, _, _, p). (seq, Some p)) es = map (\<lambda>ev. (seq_get (event_seq ev), ser_event deps ev)) evs"
    using assms(1) by (auto simp: events_logged_def)
  show ?thesis
  proof (cases "ser_event deps ev")
    case None
    then show ?thesis
      using assms by (auto simp: file_append_event_def)
  next
    case (Some payload)
    obtain r1 where wr: "write_record deps w (seq_get (event_seq ev)) 0 now_ns payload = (r1, w')"
      "r = (case r1 of Inl e \<Rightarrow> Inl e | Inr _ \<Rightarrow> Inr ())"
      using assms(2) Some by (auto simp: file_append_event_def split: prod.splits sum.splits)
    have h: "wal_holds deps w' (case r1 of Inr _ \<Rightarrow> es @ [(seq_get (event_seq ev), 0, now_ns, payload)] | Inl _ \<Rightarrow> es)"
      by (rule write_record_holds(1) [OF es(1) wr(1)])
    show ?thesis
    proof (cases r1)
      case (Inl e)
      then show ?thesis
        using h es(2) wr(2) by (auto simp: events_logged_def)
    next
      case (Inr off)
      then show ?thesis
        using h es(2) wr(2) Some by (auto simp: events_logged_def intro!: exI [of _ "es @ [(seq_get (event_seq ev), 0, now_ns, payload)]"])
    qed
  qed
qed

interpretation rings: engine_channels "engine_rings deps" "channel_sent 1024" "risk_ring_ok 16384" "engine_logged deps" for deps
proof
  fix q :: "event channel" and es x
  assume "channel_sent 1024 q es"
  from channel_push_sent [OF this] show "\<exists>r q'. push_out (engine_rings deps) q x = Some (r, q') \<and>
      (case r of Inr _ \<Rightarrow> channel_sent 1024 q' (es @ [x]) | Inl y \<Rightarrow> y = x \<and> channel_sent 1024 q' es)"
    by (simp add: engine_rings_def)
next
  fix p :: "engine_event spmc" and y
  assume "risk_ring_ok 16384 p"
  from risk_push_ok [OF this] show "\<exists>r q'. push_risk (engine_rings deps) p y = Some (r, q') \<and> risk_ring_ok 16384 q'"
    by (simp add: engine_rings_def)
next
  fix w es x res w'
  assume "engine_logged deps w es" "append_event (engine_rings deps) w x = (res, w')"
  then show "case res of Inr _ \<Rightarrow> engine_logged deps w' (es @ [x]) | Inl _ \<Rightarrow> engine_logged deps w' es"
    using file_append_logged [of deps "fst w" es "snd w 0" x res "fst w'"]
    by (auto simp: engine_rings_def engine_logged_def clocked_append_def split: prod.splits sum.splits)
qed

subsection \<open>Logging before publishing\<close>

lemma new_risk_ring: "spmc_queue cap n = Some q \<Longrightarrow> risk_ring_ok cap q"
  by (auto simp: spmc_queue_def risk_ring_ok_def split: if_splits)

lemma new_log_empty:
  assumes "wal_open deps (Inr mapped) config = Some (Inr w)" "slice 0 8 mapped \<noteq> wal_magic" "file_header_size \<le> length mapped"
  shows "events_logged deps w []"
  using wal_open_new(1) [OF assms] by (simp add: holds_commands_def events_logged_def)

text \<open>C31: The engine logs before it publishes, and loses nothing silently. A new engine handles every run of commands with
  increasing sequence numbers without panicking or spinning, however its consumer is scheduled, whichever log writes fail,
  whatever the clock says, and whatever finished updates the risk shards make to the shared table between commands;
  the events it has published are at every moment a subsequence of those in the log, and the ones missing are those
  \<open>outbound_drops\<close> counts.\<close>

theorem wal_before_publish:
  assumes "order_arena sm sm_inv" "config_ok cfg" "channel_new 1024 plan = Some q" "spmc_queue 16384 n = Some r"
    "wal_open deps (Inr mapped) config = Some (Inr w)" "slice 0 8 mapped \<noteq> wal_magic" "file_header_size \<le> length mapped"
    "sorted_wrt (<) (map (\<lambda>(_, _, _, c). sc_seq c) cmds)" "\<forall>(shards, _, _, _) \<in> set cmds. finished_writes shards"
  shows "\<exists>e ps ls. handle_all sm (engine_rings deps)
      (engine_new limits (book_new sm cfg) inbound q r (table_new accounts) (w, clock)) cmds = Some e \<and>
    channel_sent 1024 (me_outbound e) ps \<and> engine_logged deps (me_wal e) ls \<and> subseq ps ls \<and>
    of_nat (length ls) = of_nat (length ps) + em_outbound_drops (me_metrics e)"
proof -
  let ?e = "engine_new limits (book_new sm cfg) inbound q r (table_new accounts) (w, clock)"
  have "streams_ok (channel_sent 1024) (risk_ring_ok 16384) (engine_logged deps) ?e"
    using channel_new_sent [OF assms(3)] new_risk_ring [OF assms(4)] new_log_empty [OF assms(5-7)]
    by (auto simp: streams_ok_def engine_logged_def engine_new_def metrics_new_def intro!: exI [of _ "[]"])
  moreover have "\<forall>st \<in> set (me_risk_states ?e). quiet st"
    by (simp add: engine_new_def table_new_def)
  moreover have "\<forall>(shards, _, _, c) \<in> set cmds. finished_writes shards \<and> book_ready sm sm_inv (me_book ?e) (sc_seq c)"
    using new_ready [OF assms(1,2)] assms(9) by (auto simp: engine_new_def)
  ultimately obtain e where "handle_all sm (engine_rings deps) ?e cmds = Some e"
    "streams_ok (channel_sent 1024) (risk_ring_ok 16384) (engine_logged deps) e"
    using rings.handle_all_ok [OF assms(1), of deps ?e cmds] assms(8) by blast
  then show ?thesis
    unfolding streams_ok_def by blast
qed

subsection \<open>Commands and the book\<close>

text \<open>C32: A liquidation clears the account. The handler cancels every resting order of the account and touches no other order,
  and the rest of each queue keeps its order.\<close>

theorem liquidate_clears_account:
  assumes "order_arena sm sm_inv" "streams_ok (channel_sent 1024) (risk_ring_ok 16384) (engine_logged deps) e"
    "book_ready sm sm_inv (me_book e) (sc_seq cmd)" "sc_cmd cmd = Liquidate symb account" "me_highest_term_seen e \<le> sc_term cmd"
  shows "\<exists>e'. handle_command sm (engine_rings deps) risk_ns match_ns e cmd = Some e' \<and>
    (\<forall>s. ab_queue (abs_of sm (me_book e')) s = filter (\<lambda>m. bo_account m \<noteq> account) (ab_queue (abs_of sm (me_book e)) s)) \<and>
    open_order_ids_for_account sm (me_book e') account = []"
proof -
  let ?ids = "open_order_ids_for_account sm (me_book e) account"
  obtain e1 where e1: "cancel_orders sm (engine_rings deps) cmd account e ?ids = Some e1"
    "book_ready sm sm_inv (me_book e1) (sc_seq cmd)"
    "\<forall>s. ab_queue (abs_of sm (me_book e1)) s =
      filter (\<lambda>m. \<not> (bo_id m \<in> set ?ids \<and> bo_account m = account)) (ab_queue (abs_of sm (me_book e)) s)"
    using rings.cancel_orders_ok [OF assms(1-3)] by blast
  have "set ?ids = {bo_id m |m. m \<in> ab_orders (abs_of sm (me_book e)) \<and> bo_account m = account}"
    using account_order_ids [OF assms(1,3)] by blast
  then have q: "\<forall>s. ab_queue (abs_of sm (me_book e1)) s = filter (\<lambda>m. bo_account m \<noteq> account) (ab_queue (abs_of sm (me_book e)) s)"
  proof (intro allI)
    fix s
    assume ids: "set ?ids = {bo_id m |m. m \<in> ab_orders (abs_of sm (me_book e)) \<and> bo_account m = account}"
    have "filter (\<lambda>m. \<not> (bo_id m \<in> set ?ids \<and> bo_account m = account)) (ab_queue (abs_of sm (me_book e)) s) =
        filter (\<lambda>m. bo_account m \<noteq> account) (ab_queue (abs_of sm (me_book e)) s)"
      unfolding ids by (intro filter_cong) (auto simp: in_ab_orders)
    then show "ab_queue (abs_of sm (me_book e1)) s = filter (\<lambda>m. bo_account m \<noteq> account) (ab_queue (abs_of sm (me_book e)) s)"
      using e1(3) by simp
  qed
  have "set (open_order_ids_for_account sm (me_book e1) account) = {}"
    using account_order_ids [OF assms(1) e1(2), of account] q by (auto simp: in_ab_orders)
  then show ?thesis
    using e1(1) q assms(4) not_less [THEN iffD2, OF assms(5)] by (simp add: handle_command_def match_command_def Let_def)
qed

text \<open>C33: The risk check guards the book against new orders. A \<open>NewOrder\<close> command of a current term is checked first; when the
  check rejects it the book stays as it is, and when it passes the effect on the book is exactly the book operation. A new order
  of an account whose risk state is frozen never changes the book, whatever the limits. Nothing is said of other commands: a
  frozen account's cancels still reach the book.\<close>

theorem risk_check_guards_book:
  assumes "order_arena sm sm_inv" "streams_ok (channel_sent 1024) (risk_ring_ok 16384) (engine_logged deps) e"
    "book_ready sm sm_inv (me_book e) (sc_seq cmd)" "\<forall>st \<in> set (me_risk_states e). quiet st" "me_highest_term_seen e \<le> sc_term cmd"
    "sc_cmd cmd = NewOrder account coid symb side price qty order_type tif"
    "order = \<lparr>no_account_id = account, no_instrument_id = ucast symb, no_client_order_id = coid, no_side = side, no_price = price,
       no_order_type = order_type, no_qty = qty, no_time_in_force = tif\<rparr>"
  shows "\<exists>r e'. risk_result e account order = Some r \<and>
    handle_command sm (engine_rings deps) risk_ns match_ns e cmd = Some e' \<and>
    (case r of Inl _ \<Rightarrow> me_book e' = me_book e | Inr _ \<Rightarrow> Some (me_book e') = map_option fst (apply_cmd sm (me_book e) cmd)) \<and>
    (\<forall>st. table_get (me_risk_states e) account = Some st \<longrightarrow> frozen (st_cells st) \<longrightarrow> me_book e' = me_book e)"
proof -
  obtain r e1 where e1: "risk_result e account order = Some r"
    "handle_new_order sm (engine_rings deps) risk_ns e cmd order = Some e1"
    "case r of Inl _ \<Rightarrow> me_book e1 = me_book e | Inr _ \<Rightarrow> Some (me_book e1) = map_option fst (apply_cmd sm (me_book e) cmd)"
    using rings.handle_new_order_ok [OF assms(1-4) assms(6), of order] assms(7) by fastforce
  let ?e = "e1\<lparr>me_metrics := (me_metrics e1)\<lparr>em_match_latency := record_latency (em_match_latency (me_metrics e1)) match_ns\<rparr>\<rparr>"
  have h: "handle_command sm (engine_rings deps) risk_ns match_ns e cmd = Some ?e"
    using e1(2) assms(5-7) by (simp add: handle_command_def match_command_def Let_def)
  have "me_book e1 = me_book e" if st: "table_get (me_risk_states e) account = Some st" "frozen (st_cells st)" for st
  proof -
    have "quiet st"
      using assms(4) table_get_in [OF st(1)] by blast
    then have "r = Inl AccountHalted \<or> r = Inl AccountFrozen"
      using e1(1) st by (auto simp: risk_result_def check_new_order_def is_halted_def is_frozen_def split: if_splits)
    then show ?thesis
      using e1(3) by auto
  qed
  then show ?thesis
    using e1(1,3) h by (intro exI [of _ r] exI [of _ ?e]) (auto split: sum.splits)
qed

text \<open>C34: What the risk check establishes of an order it accepts, with its exemptions. The account is neither halted nor frozen,
  the quantity is at most its maximum, and there is room for an open order. The notional value is at most its maximum if the
  price is positive and the maximum is not the largest \<open>u64\<close>; an order with a price of 0 or less has no notional limit. The price
  is inside the band if a band is set and the reference price is positive. The position after the order, with the quantity read
  as a signed number, is at most the limit if it is in the 64-bit range and not its least value.\<close>

theorem check_new_order_sound:
  assumes "quiet st" "check_new_order order account limits st ref = Some (Inr ())"
    "d = (if no_side order = Buy then sint (no_qty order) else - sint (no_qty order))"
  shows "\<not> halted (st_cells st) \<and> \<not> frozen (st_cells st) \<and> no_qty order \<le> tl_max_order_qty limits \<and>
    (0 < sint (no_price order) \<longrightarrow> tl_max_order_notional limits \<noteq> -1 \<longrightarrow>
       sint (no_price order) * uint (no_qty order) div 100000000 \<le> uint (tl_max_order_notional limits)) \<and>
    (\<forall>r. ref = Some r \<longrightarrow> 0 < sint r \<longrightarrow> tl_price_band_bps limits \<noteq> 0 \<longrightarrow>
       \<bar>sint (no_price order) - sint r\<bar> * 10000 div sint r \<le> uint (tl_price_band_bps limits)) \<and>
    open_order_count (st_cells st) < tl_max_open_orders limits \<and>
    (in_i64 (sint (position (st_cells st)) + d) \<longrightarrow> sint (position (st_cells st)) + d \<noteq> i64_min \<longrightarrow>
       \<bar>sint (position (st_cells st)) + d\<bar> \<le> sint (tl_max_position_abs limits))"
proof -
  note defs = check_new_order_def is_halted_def is_frozen_def state_open_order_count_def state_position_def Let_def
  have c: "\<not> halted (st_cells st)" "\<not> frozen (st_cells st)" "\<not> tl_max_order_qty limits < no_qty order"
    "\<not> tl_max_order_notional limits < notional_of (no_price order) (no_qty order)"
    "\<not> (0 < tl_price_band_bps limits \<and>
         (case ref of None \<Rightarrow> False | Some r \<Rightarrow> price_out_of_band (no_price order) r (tl_price_band_bps limits)))"
    "\<not> tl_max_open_orders limits \<le> open_order_count (st_cells st)"
    "\<not> sint (tl_max_position_abs limits) <
       sint (i64_of \<bar>sint (projected_position (position (st_cells st)) (no_side order) (no_qty order))\<bar>)"
    using assms(1,2) by (simp_all add: defs split: if_splits)
  have n: "sint (no_price order) * uint (no_qty order) div 100000000 \<le> uint (tl_max_order_notional limits)"
    if "0 < sint (no_price order)" "tl_max_order_notional limits \<noteq> -1"
    using notional_within [OF that] c(4) by (simp add: not_less)
  have b: "\<bar>sint (no_price order) - sint r\<bar> * 10000 div sint r \<le> uint (tl_price_band_bps limits)"
    if "ref = Some r" "0 < sint r" "tl_price_band_bps limits \<noteq> 0" for r
    using c(5) that by (auto simp: price_out_of_band_def Let_def sdiv_pos word_neq_0_conv)
  have p: "\<bar>sint (position (st_cells st)) + d\<bar> \<le> sint (tl_max_position_abs limits)"
    if "in_i64 (sint (position (st_cells st)) + d)" "sint (position (st_cells st)) + d \<noteq> i64_min"
  proof -
    have "sint (projected_position (position (st_cells st)) (no_side order) (no_qty order)) = sint (position (st_cells st)) + d"
      using that(1) by (cases "no_side order") (simp_all add: assms(3) projected_position_def i64_saturating_add_def i64_saturating_sub_def sint_i64_sat_exact)
    moreover have "in_i64 \<bar>sint (position (st_cells st)) + d\<bar>"
      using that by (auto simp: in_i64_def)
    ultimately show ?thesis
      using c(7) by (simp add: sint_i64_of)
  qed
  show ?thesis
    using c n b p by (simp add: not_less not_le)
qed

subsection \<open>Examples\<close>

definition ex_engine :: "(slot_key, slot_key resting_order vslots, sequenced_command spsc, event channel, engine_event spmc, clocked_wal) matching_engine" where
  "ex_engine = (engine_new tier0_limits_default ex_book (the (spsc_queue 4096)) (the (channel_new 1024 (\<lambda>i. i mod 3)))
     (the (spmc_queue 16384 2)) (table_new 10) (ex_writer, \<lambda>i. of_nat i))\<lparr>me_reference_price := Some 104\<rparr>"

lemma ex_rings: "channel_new 1024 plan = Some (the (channel_new 1024 plan))" "spmc_queue 16384 2 = Some (the (spmc_queue 16384 2))"
proof -
  have "is_power_of_two 1024" "is_power_of_two 16384"
    by code_simp+
  then show "channel_new 1024 plan = Some (the (channel_new 1024 plan))" "spmc_queue 16384 2 = Some (the (spmc_queue 16384 2))"
    by (simp_all add: channel_new_def spsc_queue_def spmc_queue_def)
qed

lemma ex_new_log: "slice 0 8 (replicate 160 (0 :: byte)) \<noteq> wal_magic" "file_header_size \<le> length (replicate 160 (0 :: byte))"
  by code_simp+

lemma ex_engine_ok:
  "streams_ok (channel_sent 1024) (risk_ring_ok 16384) (engine_logged ex_deps) ex_engine" "me_book ex_engine = ex_book"
  "me_risk_states ex_engine = table_new 10" "me_highest_term_seen ex_engine = 0" "\<forall>st \<in> set (me_risk_states ex_engine). quiet st"
  using channel_new_sent [OF ex_rings(1) [of "\<lambda>i. i mod 3"]] new_risk_ring [OF ex_rings(2)] new_log_empty [OF ex_writer_open ex_new_log]
  by (auto simp: ex_engine_def streams_ok_def engine_logged_def engine_new_def metrics_new_def table_new_def intro!: exI [of _ "[]"])

theorem wal_before_publish_witness:
  "\<exists>e ps ls. handle_all vs_ops (engine_rings ex_deps)
      (engine_new tier0_limits_default (book_new vs_ops ex_cfg) (the (spsc_queue 4096)) (the (channel_new 1024 (\<lambda>i. i mod 2)))
         (the (spmc_queue 16384 2)) (table_new 10) (ex_writer, \<lambda>i. of_nat i))
      [(id, 1, 2, mk_cmd 1 (NewOrder 7 1 1 Sell 105 10 Limit Gtc)),
       (\<lambda>t. t[8 := state_update (t ! 8) (snap 5 1)], 1, 2, mk_cmd 2 (NewOrder 8 1 1 Buy 105 4 Limit Gtc))] = Some e \<and>
    channel_sent 1024 (me_outbound e) ps \<and> engine_logged ex_deps (me_wal e) ls \<and> subseq ps ls"
proof -
  let ?upd = "\<lambda>t. t[8 := state_update (t ! 8) (snap 5 1)]"
  let ?cmds = "[(id, 1, 2, mk_cmd 1 (NewOrder 7 1 1 Sell 105 10 Limit Gtc)), (?upd, 1, 2, mk_cmd 2 (NewOrder 8 1 1 Buy 105 4 Limit Gtc))]"
  have "quiet st" if "st \<in> set (?upd t)" "\<forall>st \<in> set t. quiet st" for st t
    using that by (cases "8 < length t") (auto dest!: set_update_subset_insert [THEN subsetD] simp: list_update_beyond)
  then have "sorted_wrt (<) (map (\<lambda>(_, _, _, c). sc_seq c) ?cmds)" "\<forall>(shards, _, _, _) \<in> set ?cmds. finished_writes shards"
    by (auto simp: mk_cmd_def finished_writes_def)
  from wal_before_publish [OF vs_arena ex_config_ok ex_rings(1) [of "\<lambda>i. i mod 2"] ex_rings(2) ex_writer_open ex_new_log this]
  show ?thesis
    by blast
qed

theorem liquidate_clears_account_witness:
  "\<exists>e'. handle_command vs_ops (engine_rings ex_deps) 1 2 ex_engine (mk_cmd 4 (Liquidate 1 7)) = Some e' \<and>
     open_order_ids_for_account vs_ops (me_book e') 7 = []"
  using liquidate_clears_account [OF vs_arena ex_engine_ok(1), of "mk_cmd 4 (Liquidate 1 7)" 1 7 1 2] ex_book_ready [of 4]
  by (auto simp: ex_engine_ok mk_cmd_def)

theorem risk_check_guards_book_witness:
  "\<exists>r e'. risk_result ex_engine 7 \<lparr>no_account_id = 7, no_instrument_id = 1, no_client_order_id = 9, no_side = Buy, no_price = 105,
       no_order_type = Limit, no_qty = 3, no_time_in_force = Gtc\<rparr> = Some r \<and>
     handle_command vs_ops (engine_rings ex_deps) 1 2 ex_engine (mk_cmd 4 (NewOrder 7 9 1 Buy 105 3 Limit Gtc)) = Some e'"
  using risk_check_guards_book [OF vs_arena ex_engine_ok(1) _ ex_engine_ok(5), of "mk_cmd 4 (NewOrder 7 9 1 Buy 105 3 Limit Gtc)"
      7 9 1 Buy 105 3 Limit Gtc _ 1 2] ex_book_ready [of 4]
  by (auto simp: ex_engine_ok mk_cmd_def)

theorem check_new_order_sound_witness:
  "\<bar>sint (position (st_cells risk_state_new)) + 3\<bar> \<le> sint (tl_max_position_abs tier0_limits_default)"
proof -
  let ?order = "\<lparr>no_account_id = 7, no_instrument_id = 1, no_client_order_id = 9, no_side = Buy, no_price = 105,
    no_order_type = Limit, no_qty = 3, no_time_in_force = Gtc\<rparr>"
  have c: "check_new_order ?order 7 tier0_limits_default risk_state_new (Some 104) = Some (Inr ())"
    by code_simp
  have d: "(3 :: int) = (if no_side ?order = Buy then sint (no_qty ?order) else - sint (no_qty ?order))"
    by simp
  show ?thesis
    using check_new_order_sound [OF quiet_new c d] by (auto simp: risk_state_new_def snapshot_default_def in_i64_def)
qed

subsection \<open>Where the engine and its documentation differ\<close>

text \<open>The fencing term only changes in the branch for stale commands, where the maximum is the old value: it stays at its
  initial 0, and no command of a deposed leader is ever dropped.\<close>

lemma term_never_advances:
  assumes "order_arena sm sm_inv" "streams_ok (channel_sent 1024) (risk_ring_ok 16384) (engine_logged deps) e"
    "book_ready sm sm_inv (me_book e) (sc_seq cmd)" "\<forall>st \<in> set (me_risk_states e). quiet st"
    "handle_command sm (engine_rings deps) risk_ns match_ns e cmd = Some e'"
  shows "me_highest_term_seen e' = me_highest_term_seen e"
  using rings.match_command_ok [OF assms(1-4), of risk_ns] assms(5)
  by (auto simp: handle_command_def Let_def max_def split: if_splits)

text \<open>The frozen flag stops new orders only: a frozen account's cancel takes its order off the book.\<close>

lemma frozen_account_cancels:
  assumes "order_arena sm sm_inv" "streams_ok (channel_sent 1024) (risk_ring_ok 16384) (engine_logged deps) e"
    "book_ready sm sm_inv (me_book e) (sc_seq cmd)" "me_highest_term_seen e \<le> sc_term cmd" "sc_cmd cmd = Cancel account oid"
  shows "\<exists>e'. handle_command sm (engine_rings deps) risk_ns match_ns e cmd = Some e' \<and>
    (\<forall>s. ab_queue (abs_of sm (me_book e')) s = filter (\<lambda>m. \<not> (bo_id m = oid \<and> bo_account m = account)) (ab_queue (abs_of sm (me_book e)) s))"
proof -
  obtain b es where b: "apply_cmd sm (me_book e) cmd = Some (b, es)"
    "\<forall>s. ab_queue (abs_of sm b) s = filter (\<lambda>m. \<not> (bo_id m = oid \<and> bo_account m = account)) (ab_queue (abs_of sm (me_book e)) s)"
    using cancel_step [OF assms(1,3,5)] by blast
  have "streams_ok (channel_sent 1024) (risk_ring_ok 16384) (engine_logged deps) (e\<lparr>me_book := b\<rparr>)"
    using assms(2) by simp
  from rings.publish_events_ok [OF this, of es] obtain e1 where
    "publish_events (engine_rings deps) (e\<lparr>me_book := b\<rparr>) es = Some e1" "me_book e1 = b"
    by (auto simp: same_core_def)
  then show ?thesis
    using b assms(4,5) not_less [THEN iffD2, OF assms(4)] by (simp add: handle_command_def match_command_def Let_def)
qed

text \<open>The book reports a successful cancel as \<open>Cancelled\<close>, for which the mapper has no event: the gateway never hears of it.\<close>

lemma cancel_not_reported: "map_engine_event (Cancelled seq oid) = None"
  by simp

text \<open>With a negative reference price the band check passes every price.\<close>

lemma band_off_for_negative_reference: "\<not> price_out_of_band 1000000 (-1) 1"
  by code_simp

text \<open>A quantity of \<open>2 ^ 63\<close> or more is read as negative: a buy of \<open>2 ^ 64 - 50\<close> by an account at 100 is projected to a position of 50,
  within any limit of at least that.\<close>

lemma huge_buy_passes_position_limit: "projected_position 100 Buy (-50) = 50"
  by code_simp

end
