(* ===== verification/Sequencer.thy ===== *)
theory Sequencer
  imports Core_Types Channel
begin

text \<open>
  The sequencer (\<open>sequencer.rs\<close>) with its halt flag (\<open>halt.rs\<close>) and snapshot schedule (\<open>snapshot_marker.rs\<close>): it polls the
  gateway lanes round robin, numbers and stamps each command, offers it to the log, routes it to the matching engines and
  injects snapshot markers. The four kinds of rings are given by their operations. What another thread or the hardware decides
  in one turn of the loop (the halt flag, the role and the term of the election, the clock) is the argument \<open>turn_env\<close>.
\<close>

subsection \<open>Schedule and halt flag\<close>

type_synonym snapshot_marker_schedule = u64

definition schedule_new :: "u64 \<Rightarrow> snapshot_marker_schedule option" where
  "schedule_new interval_seq = (if 0 < interval_seq then Some interval_seq else None)"

definition schedule_default :: snapshot_marker_schedule where
  "schedule_default = 100000"

text \<open>The remainder by zero panics.\<close>

definition should_fire :: "snapshot_marker_schedule \<Rightarrow> u64 \<Rightarrow> bool option" where
  "should_fire interval_seq seq = (if interval_seq = 0 then None else Some (seq mod interval_seq = 0))"

type_synonym global_halt = bool

definition halt_new :: global_halt where
  "halt_new = False"

definition halt_trigger :: "global_halt \<Rightarrow> global_halt" where
  "halt_trigger h = True"

definition halt_is_set :: "global_halt \<Rightarrow> bool" where
  "halt_is_set h = h"

subsection \<open>The sequencer\<close>

definition max_symbols :: nat where
  "max_symbols = 1024"

record sequencer_config =
  sqc_n_symbols :: nat
  sqc_snapshot_schedule :: snapshot_marker_schedule

definition sequencer_config_new :: "nat \<Rightarrow> sequencer_config option" where
  "sequencer_config_new n =
     (if n \<le> max_symbols then Some \<lparr>sqc_n_symbols = n, sqc_snapshot_schedule = schedule_default\<rparr> else None)"

record ('g, 'm, 'w, 's) sequencer_ops =
  gw_pop :: "'g \<Rightarrow> (inbound_command option \<times> 'g) option"
  me_push :: "'m \<Rightarrow> sequenced_command \<Rightarrow> ((sequenced_command + unit) \<times> 'm) option"
  wal_push :: "'w \<Rightarrow> sequenced_command \<Rightarrow> ((sequenced_command + unit) \<times> 'w) option"
  snap_push :: "'s \<Rightarrow> engine_event \<Rightarrow> ((engine_event + unit) \<times> 's) option"

record ('g, 'm, 'w, 's) sequencer =
  sq_seq :: u64
  sq_gw_inbound :: "'g list"
  sq_me_inbound :: "'m list"
  sq_wal_out :: 'w
  sq_snapshot_out :: "'s list"
  sq_snapshot_schedule :: snapshot_marker_schedule
  sq_gw_cursor :: nat

definition sequencer_new ::
  "'g list \<Rightarrow> 'm list \<Rightarrow> 'w \<Rightarrow> 's list \<Rightarrow> sequencer_config \<Rightarrow> u64 \<Rightarrow> ('g, 'm, 'w, 's) sequencer option" where
  "sequencer_new gw_inbound me_inbound wal_out snapshot_out config initial_seq =
     (if length me_inbound = sqc_n_symbols config then
        Some \<lparr>sq_seq = initial_seq, sq_gw_inbound = gw_inbound, sq_me_inbound = me_inbound, sq_wal_out = wal_out,
              sq_snapshot_out = snapshot_out, sq_snapshot_schedule = sqc_snapshot_schedule config, sq_gw_cursor = 0\<rparr>
      else None)"

fun cmd_symbol :: "inbound_command \<Rightarrow> symbol option" where
  "cmd_symbol (NewOrder _ _ symbol _ _ _ _ _) = Some symbol"
| "cmd_symbol (Cancel _ _) = None"
| "cmd_symbol (Liquidate symbol _) = Some symbol"
| "cmd_symbol (FreezeAccount _) = None"

fun is_cancel :: "inbound_command \<Rightarrow> bool" where
  "is_cancel (Cancel _ _) = True"
| "is_cancel _ = False"

text \<open>The loop over the lanes, from the cursor on; \<open>is\<close> are the offsets still to try.\<close>

fun poll_lanes ::
  "('g, 'm, 'w, 's) sequencer_ops \<Rightarrow> ('g, 'm, 'w, 's) sequencer \<Rightarrow> nat list \<Rightarrow> (inbound_command option \<times> ('g, 'm, 'w, 's) sequencer) option" where
  "poll_lanes ops s [] = Some (None, s)"
| "poll_lanes ops s (i # offsets) = do {
     let n = length (sq_gw_inbound s);
     let idx = (sq_gw_cursor s + i) mod n;
     g \<leftarrow> list_get (sq_gw_inbound s) idx;
     (r, g) \<leftarrow> gw_pop ops g;
     let s = s\<lparr>sq_gw_inbound := (sq_gw_inbound s)[idx := g]\<rparr>;
     case r of
       Some cmd \<Rightarrow> Some (Some cmd, s\<lparr>sq_gw_cursor := (idx + 1) mod n\<rparr>)
     | None \<Rightarrow> poll_lanes ops s offsets
   }"

definition poll_inbound ::
  "('g, 'm, 'w, 's) sequencer_ops \<Rightarrow> ('g, 'm, 'w, 's) sequencer \<Rightarrow> (inbound_command option \<times> ('g, 'm, 'w, 's) sequencer) option" where
  "poll_inbound ops s = poll_lanes ops s [0..<length (sq_gw_inbound s)]"

text \<open>\<open>for q in queues { loop { q.try_push(item) ... } }\<close>\<close>

fun spin_all :: "('q \<Rightarrow> 'a \<Rightarrow> (('a + unit) \<times> 'q) option) \<Rightarrow> 'q list \<Rightarrow> 'a \<Rightarrow> 'q list option" where
  "spin_all push [] x = Some []"
| "spin_all push (q # qs) x = do {
     q \<leftarrow> push_spin push q x;
     qs \<leftarrow> spin_all push qs x;
     Some (q # qs)
   }"

definition route_command ::
  "('g, 'm, 'w, 's) sequencer_ops \<Rightarrow> ('g, 'm, 'w, 's) sequencer \<Rightarrow> sequenced_command \<Rightarrow> ('g, 'm, 'w, 's) sequencer option" where
  "route_command ops s sequenced =
     (case cmd_symbol (sc_cmd sequenced) of
        Some symbol \<Rightarrow> do {
          let idx = unat symbol;
          q \<leftarrow> list_get (sq_me_inbound s) idx;
          q \<leftarrow> push_spin (me_push ops) q sequenced;
          Some (s\<lparr>sq_me_inbound := (sq_me_inbound s)[idx := q]\<rparr>)
        }
      | None \<Rightarrow>
          if is_cancel (sc_cmd sequenced) then do {
            qs \<leftarrow> spin_all (me_push ops) (sq_me_inbound s) sequenced;
            Some (s\<lparr>sq_me_inbound := qs\<rparr>)
          }
          else Some s)"

definition inject_snapshot_marker ::
  "('g, 'm, 'w, 's) sequencer_ops \<Rightarrow> ('g, 'm, 'w, 's) sequencer \<Rightarrow> u64 \<Rightarrow> ('g, 'm, 'w, 's) sequencer option" where
  "inject_snapshot_marker ops s seq = do {
     qs \<leftarrow> spin_all (snap_push ops) (sq_snapshot_out s) (SnapshotMarker seq);
     Some (s\<lparr>sq_snapshot_out := qs\<rparr>)
   }"

record turn_env =
  te_halted :: global_halt
  te_leader :: bool
  te_term :: u64
  te_now_ns :: u64

definition dispatch ::
  "('g, 'm, 'w, 's) sequencer_ops \<Rightarrow> turn_env \<Rightarrow> ('g, 'm, 'w, 's) sequencer \<Rightarrow> inbound_command \<Rightarrow> ('g, 'm, 'w, 's) sequencer option" where
  "dispatch ops env s cmd = do {
     let seq = sq_seq s + 1;
     let s = s\<lparr>sq_seq := seq\<rparr>;
     let sequenced = \<lparr>sc_term = te_term env, sc_seq = seq, sc_ts_ns = te_now_ns env, sc_cmd = cmd\<rparr>;
     (_, w) \<leftarrow> wal_push ops (sq_wal_out s) sequenced;
     s \<leftarrow> route_command ops (s\<lparr>sq_wal_out := w\<rparr>) sequenced;
     fire \<leftarrow> should_fire (sq_snapshot_schedule s) seq;
     if fire then inject_snapshot_marker ops s seq else Some s
   }"

text \<open>One turn of \<open>run\<close>; the panic on a halt is \<open>None\<close>.\<close>

definition sequencer_turn ::
  "('g, 'm, 'w, 's) sequencer_ops \<Rightarrow> turn_env \<Rightarrow> ('g, 'm, 'w, 's) sequencer \<Rightarrow> ('g, 'm, 'w, 's) sequencer option" where
  "sequencer_turn ops env s =
     (if halt_is_set (te_halted env) then None
      else if \<not> te_leader env then Some s
      else do {
        (r, s) \<leftarrow> poll_inbound ops s;
        case r of Some cmd \<Rightarrow> dispatch ops env s cmd | None \<Rightarrow> Some s
      })"

fun sequencer_turns ::
  "('g, 'm, 'w, 's) sequencer_ops \<Rightarrow> ('g, 'm, 'w, 's) sequencer \<Rightarrow> turn_env list \<Rightarrow> ('g, 'm, 'w, 's) sequencer option" where
  "sequencer_turns ops s [] = Some s"
| "sequencer_turns ops s (env # envs) = do {
     s \<leftarrow> sequencer_turn ops env s;
     sequencer_turns ops s envs
   }"

end
