(* ===== verification/Gateway.thy ===== *)
theory Gateway
  imports Core_Types Bytes
begin

text \<open>
  The crate \<open>gateway\<close>: the framing (\<open>codec.rs\<close>), the session that decodes client messages into commands and encodes events
  (\<open>session.rs\<close>), the market data events and the subscription registry (\<open>market_data.rs\<close>), and of \<open>server.rs\<close> a
  connection: its authentication, its read loop, its report and market data tasks and its end, and the encoding of market data. A buffer is the list of its bytes; a socket is
  the list of the chunks its reads return. The lane to the sequencer is any queue, given by its push.
\<close>

subsection \<open>Frames (codec.rs)\<close>

definition max_frame_len :: u32 where
  "max_frame_len = 64 * 1024"

datatype codec_error = FrameTooLarge u32 | FrameTooShort | UnknownMessageType u8

record frame =
  fr_msg_type :: u8
  fr_payload :: "byte list"

definition header_len :: nat where
  "header_len = 4"

definition codec_decode :: "byte list \<Rightarrow> (codec_error + frame option) \<times> byte list" where
  "codec_decode buf =
     (if length buf < header_len then (Inr None, buf)
      else
        let len = from_le_bytes (slice 0 4 buf) in
        if len = 0 then (Inl FrameTooShort, buf)
        else if max_frame_len < len then (Inl (FrameTooLarge len), buf)
        else
          let total_len = header_len + unat len in
          if length buf < total_len then (Inr None, buf)
          else
            let buf = drop header_len buf;
                payload = take (unat len) buf;
                buf = drop (unat len) buf in
            case payload of
              [] \<Rightarrow> (Inl FrameTooShort, buf)
            | msg_type # payload \<Rightarrow> (Inr (Some \<lparr>fr_msg_type = msg_type, fr_payload = payload\<rparr>), buf))"

definition codec_encode :: "u8 \<Rightarrow> byte list \<Rightarrow> byte list \<Rightarrow> (codec_error + unit) \<times> byte list" where
  "codec_encode msg_type payload out =
     (let n = of_nat (length payload) :: u32 in
      if 2 ^ 32 \<le> 1 + uint n then (Inl (FrameTooLarge (-1)), out)
      else
        let len = 1 + n in
        if max_frame_len < len then (Inl (FrameTooLarge len), out)
        else (Inr (), out @ to_le_bytes 4 len @ [msg_type] @ payload))"

subsection \<open>Decoding messages (session.rs)\<close>

abbreviation "msg_new_order \<equiv> (0x01 :: u8)"
abbreviation "msg_cancel_order \<equiv> (0x02 :: u8)"
abbreviation "msg_subscribe_md \<equiv> (0x03 :: u8)"
abbreviation "msg_unsubscribe_md \<equiv> (0x04 :: u8)"
abbreviation "msg_exec_report \<equiv> (0x81 :: u8)"
abbreviation "msg_market_data \<equiv> (0x83 :: u8)"

datatype session_error =
    SessionCodec codec_error
  | MalformedPayload u8 string
  | QueueFull
  | UnsupportedCommand command_conversion_error

text \<open>\<open>get_u64_le\<close> and \<open>get_u8\<close> take their bytes off the front of the payload.\<close>

definition get_u64_le :: "byte list \<Rightarrow> u64 \<times> byte list" where
  "get_u64_le p = (from_le_bytes (take 8 p), drop 8 p)"

definition get_u8 :: "byte list \<Rightarrow> u8 \<times> byte list" where
  "get_u8 p = (hd p, tl p)"

definition decode_new_order :: "account_id \<Rightarrow> byte list \<Rightarrow> session_error + new_order" where
  "decode_new_order account_id payload =
     (if length payload \<noteq> 8 + 8 + 1 + 1 + 8 + 8 + 1 then Inl (MalformedPayload msg_new_order ''unexpected payload length'')
      else
        let (client_order_id, p) = get_u64_le payload;
            (instrument_id, p) = get_u64_le p;
            (side_tag, p) = get_u8 p in
        case (if side_tag = 0 then Some Buy else if side_tag = 1 then Some Sell else None) of
          None \<Rightarrow> Inl (MalformedPayload msg_new_order ''invalid side'')
        | Some side \<Rightarrow>
          let (order_type_tag, p) = get_u8 p;
              (price_raw, p) = get_u64_le p;
              (qty, p) = get_u64_le p;
              (tif_tag, p) = get_u8 p in
          case (if tif_tag = 0 then Some Gtc else if tif_tag = 1 then Some Ioc else if tif_tag = 2 then Some Fok else None) of
            None \<Rightarrow> Inl (MalformedPayload msg_new_order ''invalid time_in_force'')
          | Some tif \<Rightarrow>
            (case (if order_type_tag = 0 then Some Limit else if order_type_tag = 1 then Some Market else None) of
               None \<Rightarrow> Inl (MalformedPayload msg_new_order ''invalid order_type'')
             | Some order_type \<Rightarrow>
               if qty_is_zero qty then Inl (MalformedPayload msg_new_order ''qty must be > 0'')
               else Inr \<lparr>no_account_id = account_id, no_instrument_id = instrument_id, no_client_order_id = client_order_id,
                         no_side = side, no_price = price_raw, no_order_type = order_type, no_qty = qty, no_time_in_force = tif\<rparr>))"

definition decode_cancel_order :: "account_id \<Rightarrow> byte list \<Rightarrow> session_error + cancel_order" where
  "decode_cancel_order account_id payload =
     (if length payload \<noteq> 8 + 8 then Inl (MalformedPayload msg_cancel_order ''unexpected payload length'')
      else
        let (instrument_id, p) = get_u64_le payload;
            (order_id, p) = get_u64_le p in
        Inr \<lparr>co_account_id = account_id, co_instrument_id = instrument_id, co_order_id = order_id\<rparr>)"

definition decode_instrument_id :: "byte list \<Rightarrow> session_error + instrument_id" where
  "decode_instrument_id payload =
     (if length payload \<noteq> 8 then Inl (MalformedPayload msg_subscribe_md ''unexpected payload length'')
      else Inr (fst (get_u64_le payload)))"

subsection \<open>Sessions (session.rs)\<close>

type_synonym session_id = u64

record 'q session =
  ss_id :: session_id
  ss_account_id :: account_id
  ss_cmd_producer :: 'q
  ss_subscriptions :: "instrument_id set"
  ss_client_order_map :: "(client_order_id \<times> order_id) list"

definition session_new :: "session_id \<Rightarrow> account_id \<Rightarrow> 'q \<Rightarrow> 'q session" where
  "session_new sid account_id cmd_producer =
     \<lparr>ss_id = sid, ss_account_id = account_id, ss_cmd_producer = cmd_producer, ss_subscriptions = {}, ss_client_order_map = []\<rparr>"

datatype session_action = WriteFrame "byte list" | Close

type_synonym 'q lane_push = "'q \<Rightarrow> inbound_command \<Rightarrow> ((inbound_command + unit) \<times> 'q) option"

definition enqueue_command :: "'q lane_push \<Rightarrow> 'q session \<Rightarrow> command \<Rightarrow> ((session_error + unit) \<times> 'q session) option" where
  "enqueue_command push s cmd =
     (case inbound_try_from cmd of
        Inl e \<Rightarrow> Some (Inl (UnsupportedCommand e), s)
      | Inr inbound \<Rightarrow> do {
          (r, q) \<leftarrow> push (ss_cmd_producer s) inbound;
          let s = s\<lparr>ss_cmd_producer := q\<rparr>;
          Some (case r of Inl _ \<Rightarrow> Inl QueueFull | Inr _ \<Rightarrow> Inr (), s)
        })"

definition dispatch_frame :: "'q lane_push \<Rightarrow> 'q session \<Rightarrow> frame \<Rightarrow> ((session_error + session_action option) \<times> 'q session) option" where
  "dispatch_frame push s f =
     (if fr_msg_type f = msg_new_order then
        (case decode_new_order (ss_account_id s) (fr_payload f) of
           Inl e \<Rightarrow> Some (Inl e, s)
         | Inr cmd \<Rightarrow> do { (r, s) \<leftarrow> enqueue_command push s (CmdNew cmd); Some (case r of Inl e \<Rightarrow> Inl e | Inr _ \<Rightarrow> Inr None, s) })
      else if fr_msg_type f = msg_cancel_order then
        (case decode_cancel_order (ss_account_id s) (fr_payload f) of
           Inl e \<Rightarrow> Some (Inl e, s)
         | Inr cmd \<Rightarrow> do { (r, s) \<leftarrow> enqueue_command push s (CmdCancel cmd); Some (case r of Inl e \<Rightarrow> Inl e | Inr _ \<Rightarrow> Inr None, s) })
      else if fr_msg_type f = msg_subscribe_md then
        Some (case decode_instrument_id (fr_payload f) of
                Inl e \<Rightarrow> (Inl e, s)
              | Inr i \<Rightarrow> (Inr None, s\<lparr>ss_subscriptions := insert i (ss_subscriptions s)\<rparr>))
      else if fr_msg_type f = msg_unsubscribe_md then
        Some (case decode_instrument_id (fr_payload f) of
                Inl e \<Rightarrow> (Inl e, s)
              | Inr i \<Rightarrow> (Inr None, s\<lparr>ss_subscriptions := ss_subscriptions s - {i}\<rparr>))
      else Some (Inl (MalformedPayload (fr_msg_type f) ''unknown inbound message type''), s))"

definition handle_inbound ::
  "'q lane_push \<Rightarrow> 'q session \<Rightarrow> byte list \<Rightarrow> ((session_error + session_action option) \<times> 'q session \<times> byte list) option" where
  "handle_inbound push s buf =
     (case codec_decode buf of
        (Inl e, buf) \<Rightarrow> Some (Inl (SessionCodec e), s, buf)
      | (Inr None, buf) \<Rightarrow> Some (Inr None, s, buf)
      | (Inr (Some f), buf) \<Rightarrow> do { (r, s) \<leftarrow> dispatch_frame push s f; Some (r, s, buf) })"

text \<open>The map of client order ids is a hash map: an association list in iteration order, reordered by \<open>rehash\<close> on an insertion.\<close>

definition record_order_mapping ::
  "((client_order_id \<times> order_id) list \<Rightarrow> (client_order_id \<times> order_id) list) \<Rightarrow> 'q session \<Rightarrow> client_order_id \<Rightarrow> order_id \<Rightarrow> 'q session" where
  "record_order_mapping rehash s coid oid =
     (let m = ss_client_order_map s in
      s\<lparr>ss_client_order_map :=
          (if map_of m coid = None then rehash ((coid, oid) # m) else map (\<lambda>(k, v). (k, if k = coid then oid else v)) m)\<rparr>)"

definition client_order_id_for :: "'q session \<Rightarrow> order_id \<Rightarrow> client_order_id option" where
  "client_order_id_for s oid = map_option fst (find (\<lambda>(_, v). v = oid) (ss_client_order_map s))"

subsection \<open>Encoding events (session.rs)\<close>

fun cancel_reason_tag :: "cancel_reason \<Rightarrow> u8" where
  "cancel_reason_tag UserRequested = 0"
| "cancel_reason_tag TimeInForceExpired = 1"
| "cancel_reason_tag CancelRiskLimitBreach = 2"
| "cancel_reason_tag CancelInstrumentHalted = 3"

fun reject_reason_tag :: "reject_reason \<Rightarrow> u8" where
  "reject_reason_tag RiskLimitBreach = 0"
| "reject_reason_tag InstrumentHalted = 1"
| "reject_reason_tag InvalidPrice = 2"
| "reject_reason_tag InvalidQuantity = 3"
| "reject_reason_tag UnknownInstrument = 4"
| "reject_reason_tag UnknownOrder = 5"
| "reject_reason_tag InvalidQty = 6"
| "reject_reason_tag PriceOutOfRange = 7"
| "reject_reason_tag IocNoMatch = 8"
| "reject_reason_tag ArenaFull = 9"
| "reject_reason_tag OrderNotFound = 10"
| "reject_reason_tag WrongAccount = 11"
| "reject_reason_tag FokNotFullyFillable = 12"
| "reject_reason_tag UnsupportedOrderType = 13"

fun exec_report_payload :: "event \<Rightarrow> byte list option" where
  "exec_report_payload (EvAccepted _ _ order_id _ client_order_id side price qty) =
     Some ([0] @ to_le_bytes 8 order_id @ to_le_bytes 8 client_order_id @ [if is_buy side then 0 else 1] @ to_le_bytes 8 price @
           to_le_bytes 8 qty)"
| "exec_report_payload (EvFilled _ f) =
     Some ([1] @ to_le_bytes 8 (fl_aggressor_order_id f) @ to_le_bytes 8 (fl_price f) @ to_le_bytes 8 (fl_qty f) @
           to_le_bytes 8 (fl_aggressor_remaining_qty f) @ [1])"
| "exec_report_payload (EvCanceled _ _ order_id _ reason remaining_qty) =
     Some ([2] @ to_le_bytes 8 order_id @ [cancel_reason_tag reason] @ to_le_bytes 8 remaining_qty)"
| "exec_report_payload (EvRejected _ _ client_order_id reason) = Some ([3] @ to_le_bytes 8 client_order_id @ [reject_reason_tag reason])"
| "exec_report_payload (EvModified _ _ order_id _ new_qty new_price) =
     Some ([4] @ to_le_bytes 8 order_id @ to_le_bytes 8 new_qty @
           (case new_price of Some p \<Rightarrow> [1] @ to_le_bytes 8 p | None \<Rightarrow> [0] @ to_le_bytes 8 (0 :: i64)))"
| "exec_report_payload (EvInstrumentHalted _ _) = None"
| "exec_report_payload (EvInstrumentResumed _ _) = None"

definition encode_exec_report :: "event \<Rightarrow> byte list \<Rightarrow> (codec_error + unit) \<times> byte list" where
  "encode_exec_report ev out =
     (case exec_report_payload ev of None \<Rightarrow> (Inr (), out) | Some payload \<Rightarrow> codec_encode msg_exec_report payload out)"

fun event_concerns :: "account_id \<Rightarrow> event \<Rightarrow> bool" where
  "event_concerns a (EvAccepted _ _ _ acct _ _ _ _) = (acct = a)"
| "event_concerns a (EvCanceled _ _ _ acct _ _) = (acct = a)"
| "event_concerns a (EvRejected _ acct _ _) = (acct = a)"
| "event_concerns a (EvModified _ _ _ acct _ _) = (acct = a)"
| "event_concerns a (EvFilled _ f) = (fl_aggressor_account_id f = a \<or> fl_resting_account_id f = a)"
| "event_concerns a _ = False"

definition encode_event_for :: "account_id \<Rightarrow> event \<Rightarrow> byte list \<Rightarrow> (codec_error + bool) \<times> byte list" where
  "encode_event_for account_id ev out =
     (if event_concerns account_id ev then
        (case encode_exec_report ev out of (Inl e, out) \<Rightarrow> (Inl e, out) | (Inr _, out) \<Rightarrow> (Inr True, out))
      else (Inr False, out))"

definition encode_event :: "'q session \<Rightarrow> event \<Rightarrow> byte list \<Rightarrow> (codec_error + bool) \<times> byte list" where
  "encode_event s ev out = encode_event_for (ss_account_id s) ev out"

subsection \<open>Market data (market_data.rs, server.rs)\<close>

datatype market_data_event =
    TopOfBook instrument_id "(price \<times> qty) option" "(price \<times> qty) option"
  | MdTrade instrument_id price qty side
  | HaltStatus instrument_id bool

fun md_instrument_id :: "market_data_event \<Rightarrow> instrument_id" where
  "md_instrument_id (TopOfBook i _ _) = i"
| "md_instrument_id (MdTrade i _ _ _) = i"
| "md_instrument_id (HaltStatus i _) = i"

fun level_bytes :: "(price \<times> qty) option \<Rightarrow> byte list" where
  "level_bytes (Some (p, q)) = [1] @ to_le_bytes 8 p @ to_le_bytes 8 q"
| "level_bytes None = [0] @ to_le_bytes 8 (0 :: i64) @ to_le_bytes 8 (0 :: u64)"

fun market_data_payload :: "market_data_event \<Rightarrow> byte list" where
  "market_data_payload (TopOfBook i bid ask) = [0] @ to_le_bytes 8 i @ level_bytes bid @ level_bytes ask"
| "market_data_payload (MdTrade i p q s) = [1] @ to_le_bytes 8 i @ to_le_bytes 8 p @ to_le_bytes 8 q @ [if is_buy s then 0 else 1]"
| "market_data_payload (HaltStatus i h) = [2] @ to_le_bytes 8 i @ [if h then 1 else 0]"

definition encode_market_data :: "market_data_event \<Rightarrow> byte list \<Rightarrow> (codec_error + unit) \<times> byte list" where
  "encode_market_data ev out = codec_encode msg_market_data (market_data_payload ev) out"

type_synonym subscription_registry = "instrument_id \<rightharpoonup> session_id list"

definition registry_add :: "subscription_registry \<Rightarrow> instrument_id \<Rightarrow> session_id \<Rightarrow> subscription_registry" where
  "registry_add reg i sid =
     (let entry = (case reg i of None \<Rightarrow> [] | Some e \<Rightarrow> e) in
      reg(i \<mapsto> if sid \<in> set entry then entry else entry @ [sid]))"

definition registry_remove :: "subscription_registry \<Rightarrow> instrument_id \<Rightarrow> session_id \<Rightarrow> subscription_registry" where
  "registry_remove reg i sid =
     (case reg i of
        None \<Rightarrow> reg
      | Some entry \<Rightarrow> let entry = filter (\<lambda>s. s \<noteq> sid) entry in if entry = [] then reg(i := None) else reg(i \<mapsto> entry))"

definition subscriber_count :: "subscription_registry \<Rightarrow> instrument_id \<Rightarrow> nat" where
  "subscriber_count reg i = (case reg i of None \<Rightarrow> 0 | Some e \<Rightarrow> length e)"

subsection \<open>The hub (market_data.rs)\<close>

text \<open>The broadcast channels are those of \<open>tokio\<close>: a channel, its send and its subscription are parameters.\<close>

record ('c, 'r) broadcast_ops =
  bc_channel :: "nat \<Rightarrow> 'c"
  bc_send :: "'c \<Rightarrow> market_data_event \<Rightarrow> 'c"
  bc_subscribe :: "'c \<Rightarrow> 'c \<times> 'r"

type_synonym 'c market_data_hub = "instrument_id \<rightharpoonup> 'c"

definition hub_channel_capacity :: nat where
  "hub_channel_capacity = 1024"

definition hub_publish :: "('c, 'r) broadcast_ops \<Rightarrow> 'c market_data_hub \<Rightarrow> market_data_event \<Rightarrow> 'c market_data_hub" where
  "hub_publish bc hub ev =
     (let i = md_instrument_id ev in case hub i of Some tx \<Rightarrow> hub(i \<mapsto> bc_send bc tx ev) | None \<Rightarrow> hub)"

definition hub_subscribe :: "('c, 'r) broadcast_ops \<Rightarrow> 'c market_data_hub \<Rightarrow> instrument_id \<Rightarrow> 'c market_data_hub \<times> 'r" where
  "hub_subscribe bc hub i =
     (let (tx, rx) = bc_subscribe bc (case hub i of Some tx \<Rightarrow> tx | None \<Rightarrow> bc_channel bc hub_channel_capacity) in
      (hub(i \<mapsto> tx), rx))"

subsection \<open>The read loop of a connection (server.rs)\<close>

text \<open>The reads of the socket are a list: \<open>None\<close> is a failed read, an empty chunk or the end of the list is the end of the
  connection.\<close>

datatype io_error = InvalidData | UnexpectedEof | ReadFailed

type_synonym reads = "byte list option list"

fun read_auth_frame :: "byte list \<Rightarrow> reads \<Rightarrow> io_error + (account_id \<times> byte list \<times> reads)" where
  "read_auth_frame buf rs =
     (case codec_decode buf of
        (Inl _, _) \<Rightarrow> Inl InvalidData
      | (Inr (Some f), buf) \<Rightarrow>
          if length (fr_payload f) \<noteq> 8 then Inl InvalidData
          else Inr (fst (get_u64_le (fr_payload f)), buf, rs)
      | (Inr None, buf) \<Rightarrow>
          (case rs of
             [] \<Rightarrow> Inl UnexpectedEof
           | None # _ \<Rightarrow> Inl ReadFailed
           | Some c # rs \<Rightarrow> if c = [] then Inl UnexpectedEof else read_auth_frame (buf @ c) rs))"

declare read_auth_frame.simps [simp del]

text \<open>The inner loop. \<open>Inl\<close> is a return from the connection, \<open>Inr\<close> the break to the next read. \<open>send\<close> tells whether the writer
  task still takes a frame.\<close>

partial_function (option) process_buffered ::
  "(byte list \<Rightarrow> bool) \<Rightarrow> 'q lane_push \<Rightarrow> 'q session \<Rightarrow> byte list \<Rightarrow> ('q session + ('q session \<times> byte list)) option" where
  [code]: "process_buffered send push s buf = do {
     (r, s, buf) \<leftarrow> handle_inbound push s buf;
     case r of
       Inl _ \<Rightarrow> Some (Inl s)
     | Inr None \<Rightarrow> Some (Inr (s, buf))
     | Inr (Some (WriteFrame f)) \<Rightarrow> if send f then process_buffered send push s buf else Some (Inr (s, buf))
     | Inr (Some Close) \<Rightarrow> Some (Inl s)
   }"

text \<open>The outer loop. \<open>forwarded\<close> are the instruments for which a task that forwards market data has been spawned.\<close>

fun read_loop ::
  "(byte list \<Rightarrow> bool) \<Rightarrow> 'q lane_push \<Rightarrow> 'q session \<Rightarrow> byte list \<Rightarrow> instrument_id set \<Rightarrow> reads
     \<Rightarrow> ((io_error + unit) \<times> 'q session \<times> instrument_id set) option" where
  "read_loop send push s buf forwarded rs = do {
     r \<leftarrow> process_buffered send push s buf;
     case r of
       Inl s \<Rightarrow> Some (Inr (), s, forwarded)
     | Inr (s, buf) \<Rightarrow>
         (case rs of
            [] \<Rightarrow> Some (Inr (), s, forwarded)
          | None # _ \<Rightarrow> Some (Inl ReadFailed, s, forwarded)
          | Some c # rs \<Rightarrow>
              if c = [] then Some (Inr (), s, forwarded)
              else read_loop send push s (buf @ c) (forwarded \<union> ss_subscriptions s) rs)
   }"

declare read_loop.simps [simp del]

text \<open>The authentication and the read loop: how they end, the lane, and the instruments with a forwarder.\<close>

definition connection_reads ::
  "(byte list \<Rightarrow> bool) \<Rightarrow> 'q lane_push \<Rightarrow> session_id \<Rightarrow> 'q \<Rightarrow> reads \<Rightarrow> ((io_error + unit) \<times> 'q \<times> instrument_id set) option" where
  "connection_reads send push sid cmd_producer rs =
     (case read_auth_frame [] rs of
        Inl e \<Rightarrow> Some (Inl e, cmd_producer, {})
      | Inr (account_id, buf, rs) \<Rightarrow> do {
          (r, s, forwarded) \<leftarrow> read_loop send push (session_new sid account_id cmd_producer) buf {} rs;
          Some (r, ss_cmd_producer s, forwarded)
        })"

subsection \<open>The tasks of a connection and its end (server.rs)\<close>

text \<open>What \<open>recv\<close> of a broadcast channel returns, in order. At the end of the list the task waits for the next message.\<close>

datatype recv_error = Lagged u64 | Closed

text \<open>The task that forwards execution reports: the frames it sends to the writer, and whether it has ended. It holds a clone of
  the writer's sender until then.\<close>

fun exec_report_task :: "account_id \<Rightarrow> (byte list \<Rightarrow> bool) \<Rightarrow> (recv_error + event) list \<Rightarrow> byte list list \<times> bool" where
  "exec_report_task account_id send [] = ([], False)"
| "exec_report_task account_id send (Inr ev # recvs) =
     (case encode_event_for account_id ev [] of
        (Inr True, buf) \<Rightarrow>
          if send buf then let (frames, ended) = exec_report_task account_id send recvs in (buf # frames, ended) else ([], True)
      | _ \<Rightarrow> exec_report_task account_id send recvs)"
| "exec_report_task account_id send (Inl (Lagged _) # recvs) = exec_report_task account_id send recvs"
| "exec_report_task account_id send (Inl Closed # recvs) = ([], True)"

text \<open>The task that forwards the market data of one instrument ends on any error.\<close>

fun forwarder_task :: "(byte list \<Rightarrow> bool) \<Rightarrow> (recv_error + market_data_event) list \<Rightarrow> byte list list \<times> bool" where
  "forwarder_task send [] = ([], False)"
| "forwarder_task send (Inr ev # recvs) =
     (case encode_market_data ev [] of
        (Inr _, buf) \<Rightarrow> if send buf then let (frames, ended) = forwarder_task send recvs in (buf # frames, ended) else ([], True)
      | (Inl _, _) \<Rightarrow> forwarder_task send recvs)"
| "forwarder_task send (Inl _ # recvs) = ([], True)"

text \<open>What happens around a connection, for ever: the messages of its broadcast receivers and the outcome of each write.\<close>

record conn_env =
  ce_send :: "byte list \<Rightarrow> bool"
  ce_exec_reports :: "(recv_error + event) list"
  ce_market_data :: "instrument_id \<Rightarrow> (recv_error + market_data_event) list"
  ce_write_all :: "byte list \<Rightarrow> bool"

text \<open>\<open>writer_task.await\<close> after \<open>drop(md_tx)\<close>: the writer ends when a write fails, or when every other sender is gone too, those of
  the execution report task and of the forwarders.\<close>

definition writer_task_ends :: "account_id \<Rightarrow> conn_env \<Rightarrow> instrument_id set \<Rightarrow> bool" where
  "writer_task_ends account_id env forwarded \<longleftrightarrow>
     (let (frames, ended) = exec_report_task account_id (\<lambda>_. True) (ce_exec_reports env) in
      (\<exists>f \<in> set frames. \<not> ce_write_all env f) \<or>
      (\<exists>i \<in> forwarded. \<exists>f \<in> set (fst (forwarder_task (\<lambda>_. True) (ce_market_data env i))). \<not> ce_write_all env f) \<or>
      (ended \<and> (\<forall>i \<in> forwarded. snd (forwarder_task (\<lambda>_. True) (ce_market_data env i)))))"

text \<open>The connection. An error of the authentication or of a read returns at once; every other end waits for the writer, and does
  not return if that never ends.\<close>

definition handle_connection ::
  "conn_env \<Rightarrow> 'q lane_push \<Rightarrow> session_id \<Rightarrow> 'q \<Rightarrow> reads \<Rightarrow> ((io_error + unit) \<times> 'q \<times> instrument_id set) option" where
  "handle_connection env push sid cmd_producer rs = do {
     (r, cmd_producer, forwarded) \<leftarrow> connection_reads (ce_send env) push sid cmd_producer rs;
     case (r, read_auth_frame [] rs) of
       (Inr _, Inr (account_id, _)) \<Rightarrow>
         if writer_task_ends account_id env forwarded then Some (Inr (), cmd_producer, forwarded) else None
     | _ \<Rightarrow> Some (r, cmd_producer, forwarded)
   }"

end
