(* ===== verification/Gateway_Props.thy ===== *)
theory Gateway_Props
  imports Gateway Channel
begin

text \<open>
  What the gateway guarantees: frames survive any chunking of the byte stream, an order on the wire reaches the sequencer's lane
  as it was written, and a connection only ever enqueues commands of the account it authenticated.
\<close>

subsection \<open>Frames\<close>

definition frame_ok :: "frame \<Rightarrow> bool" where
  "frame_ok f \<longleftrightarrow> length (fr_payload f) < 65536"

definition wire :: "frame \<Rightarrow> byte list" where
  "wire f = snd (codec_encode (fr_msg_type f) (fr_payload f) [])"

lemma uint_small32: "n < 2 ^ 32 \<Longrightarrow> uint (of_nat n :: u32) = int n"
  by (simp add: unsigned_of_nat take_bit_nat_eq_self uint_nat)

lemma max_frame: "uint max_frame_len = 65536"
  by (simp add: max_frame_len_def)

lemma codec_encode_ok:
  assumes "frame_ok f"
  shows "codec_encode (fr_msg_type f) (fr_payload f) out = (Inr (), out @ wire f)"
    "wire f = to_le_bytes 4 (of_nat (Suc (length (fr_payload f))) :: u32) @ [fr_msg_type f] @ fr_payload f"
proof -
  let ?n = "length (fr_payload f)"
  have n: "uint (of_nat ?n :: u32) = int ?n" "uint (1 + of_nat ?n :: u32) = 1 + int ?n"
    using uint_small32 [of ?n] uint_small32 [of "Suc ?n"] assms by (simp_all add: frame_ok_def)
  then have "\<not> 2 ^ 32 \<le> 1 + uint (of_nat ?n :: u32)" "\<not> max_frame_len < (1 + of_nat ?n :: u32)"
    using assms max_frame by (simp_all add: frame_ok_def word_less_def)
  then show "codec_encode (fr_msg_type f) (fr_payload f) out = (Inr (), out @ wire f)"
    "wire f = to_le_bytes 4 (of_nat (Suc ?n) :: u32) @ [fr_msg_type f] @ fr_payload f"
    by (simp_all add: codec_encode_def wire_def Let_def)
qed

lemma length_wire: "frame_ok f \<Longrightarrow> length (wire f) = 5 + length (fr_payload f)"
  by (simp add: codec_encode_ok(2))

lemma wire_len:
  assumes "frame_ok f" "take 4 buf = take 4 (wire f)"
  shows "from_le_bytes (slice 0 4 buf) = (of_nat (Suc (length (fr_payload f))) :: u32)"
    "uint (of_nat (Suc (length (fr_payload f))) :: u32) = int (Suc (length (fr_payload f)))"
    "unat (of_nat (Suc (length (fr_payload f))) :: u32) = Suc (length (fr_payload f))"
proof -
  show "from_le_bytes (slice 0 4 buf) = (of_nat (Suc (length (fr_payload f))) :: u32)"
    using assms by (simp add: slice_def codec_encode_ok(2) from_to_le_bytes)
  show u: "uint (of_nat (Suc (length (fr_payload f))) :: u32) = int (Suc (length (fr_payload f)))"
    using uint_small32 [of "Suc (length (fr_payload f))"] assms(1) by (simp add: frame_ok_def)
  then show "unat (of_nat (Suc (length (fr_payload f))) :: u32) = Suc (length (fr_payload f))"
    by (simp add: unat_eq_nat_uint)
qed

text \<open>A whole frame at the front of the buffer is decoded and consumed; with less than that, nothing happens.\<close>

lemma decode_header:
  assumes "frame_ok f" "take 4 buf = take 4 (wire f)" "4 \<le> length buf"
  shows "codec_decode buf =
    (if length buf < 5 + length (fr_payload f) then (Inr None, buf)
     else case take (Suc (length (fr_payload f))) (drop 4 buf) of
         [] \<Rightarrow> (Inl FrameTooShort, drop (5 + length (fr_payload f)) buf)
       | msg_type # payload \<Rightarrow> (Inr (Some \<lparr>fr_msg_type = msg_type, fr_payload = payload\<rparr>), drop (5 + length (fr_payload f)) buf))"
proof -
  let ?len = "of_nat (Suc (length (fr_payload f))) :: u32"
  note w = wire_len [OF assms(1,2)]
  have "?len \<noteq> 0"
    using w(2) by (metis of_nat_eq_0_iff old.nat.distinct(2) unsigned_0)
  moreover have "\<not> max_frame_len < ?len"
    using w(2) assms(1) max_frame by (simp only: word_less_def frame_ok_def)
  ultimately show ?thesis
    using assms(3) unfolding codec_decode_def header_len_def Let_def w(1) w(3) by (simp add: add.commute split: list.splits)
qed

lemma decode_wire:
  assumes "frame_ok f"
  shows "codec_decode (wire f @ rest) = (Inr (Some f), rest)"
proof -
  have "take (Suc (length (fr_payload f))) (drop 4 (wire f @ rest)) = fr_msg_type f # fr_payload f"
    "drop (5 + length (fr_payload f)) (wire f @ rest) = rest"
    using codec_encode_ok(2) [OF assms] length_wire [OF assms] by simp_all
  then show ?thesis
    using decode_header [OF assms, of "wire f @ rest"] length_wire [OF assms] by simp
qed

lemma decode_partial:
  assumes "frame_ok f" "buf @ rest = wire f" "rest \<noteq> []"
  shows "codec_decode buf = (Inr None, buf)"
proof (cases "length buf < 4")
  case False
  have "length buf < 5 + length (fr_payload f)"
    using assms length_wire [OF assms(1)] by (metis length_append length_greater_0_conv less_add_same_cancel1)
  moreover have "take 4 buf = take 4 (wire f)"
    using False by (simp flip: assms(2))
  ultimately show ?thesis
    using decode_header [OF assms(1), of buf] False by simp
qed (simp add: codec_decode_def header_len_def)

lemma decode_shorter: "codec_decode buf = (Inr (Some f), buf') \<Longrightarrow> length buf' < length buf"
  by (auto simp: codec_decode_def header_len_def Let_def split: if_splits list.splits)

subsection \<open>Streams of frames\<close>

text \<open>The use of \<open>decode\<close> its documentation gives: decode until no frame is complete, read more bytes, and retry.\<close>

function decode_all :: "byte list \<Rightarrow> (frame list \<times> byte list) option" where
  "decode_all buf =
     (case codec_decode buf of
        (Inl _, _) \<Rightarrow> None
      | (Inr None, buf) \<Rightarrow> Some ([], buf)
      | (Inr (Some f), buf) \<Rightarrow> map_option (\<lambda>(fs, buf). (f # fs, buf)) (decode_all buf))"
  by pat_completeness auto
termination
  by (relation "measure length") (auto dest: decode_shorter [OF sym])

declare decode_all.simps [simp del]

fun decode_reads :: "byte list \<Rightarrow> byte list list \<Rightarrow> (frame list \<times> byte list) option" where
  "decode_reads buf [] = Some ([], buf)"
| "decode_reads buf (c # cs) = do {
     (fs, buf) \<leftarrow> decode_all (buf @ c);
     (fs', buf) \<leftarrow> decode_reads buf cs;
     Some (fs @ fs', buf)
   }"

fun encode_all :: "frame list \<Rightarrow> byte list \<Rightarrow> (codec_error + unit) \<times> byte list" where
  "encode_all [] out = (Inr (), out)"
| "encode_all (f # fs) out =
     (case codec_encode (fr_msg_type f) (fr_payload f) out of
        (Inl e, out) \<Rightarrow> (Inl e, out)
      | (Inr _, out) \<Rightarrow> encode_all fs out)"

lemma encode_all_wire: "\<forall>f \<in> set fs. frame_ok f \<Longrightarrow> encode_all fs out = (Inr (), out @ concat (map wire fs))"
  by (induction fs arbitrary: out) (simp_all add: codec_encode_ok(1))

text \<open>What is left in the buffer starts the next frame and does not complete it.\<close>

definition starts_next :: "byte list \<Rightarrow> frame list \<Rightarrow> bool" where
  "starts_next buf fs \<longleftrightarrow> (case fs of [] \<Rightarrow> buf = [] | f # _ \<Rightarrow> length buf < length (wire f))"

lemma decode_all_prefix:
  "\<forall>f \<in> set fs. frame_ok f \<Longrightarrow> buf @ rest = concat (map wire fs) \<Longrightarrow>
   \<exists>fs1 fs2 buf'. decode_all buf = Some (fs1, buf') \<and> fs = fs1 @ fs2 \<and> buf' @ rest = concat (map wire fs2) \<and> starts_next buf' fs2"
proof (induction fs arbitrary: buf)
  case Nil
  then show ?case
    by (simp add: decode_all.simps codec_decode_def header_len_def starts_next_def)
next
  case (Cons f fs)
  have f: "frame_ok f"
    using Cons.prems by simp
  show ?case
  proof (cases "length buf < length (wire f)")
    case True
    let ?rest = "drop (length buf) (wire f)"
    have "buf = take (length buf) (wire f)"
      using arg_cong [OF Cons.prems(2), of "take (length buf)"] True by simp
    then have "buf @ ?rest = wire f" "?rest \<noteq> []"
      using True append_take_drop_id [of "length buf" "wire f"] by simp_all
    then have "decode_all buf = Some ([], buf)"
      using decode_partial [OF f, of buf ?rest] by (simp add: decode_all.simps)
    then show ?thesis
      using Cons.prems(2) True by (intro exI [of _ "[] :: frame list"] exI [of _ "f # fs"] exI [of _ buf]) (simp add: starts_next_def)
  next
    case False
    define buf1 where "buf1 = drop (length (wire f)) buf"
    have "take (length (wire f)) buf = wire f"
      using False arg_cong [OF Cons.prems(2), of "take (length (wire f))"] by simp
    then have buf1: "buf = wire f @ buf1" "buf1 @ rest = concat (map wire fs)"
      using append_take_drop_id [of "length (wire f)" buf] Cons.prems(2) by (simp_all add: buf1_def)
        (metis append_assoc append_take_drop_id same_append_eq)
    obtain fs1 fs2 buf' where "decode_all buf1 = Some (fs1, buf')" "fs = fs1 @ fs2" "buf' @ rest = concat (map wire fs2)"
      "starts_next buf' fs2"
      using Cons.IH [OF _ buf1(2)] Cons.prems(1) by auto
    then show ?thesis
      using decode_wire [OF f, of buf1] buf1(1)
      by (intro exI [of _ "f # fs1"] exI [of _ fs2] exI [of _ buf']) (simp add: decode_all.simps [of "wire f @ buf1"])
  qed
qed

lemma decode_reads_all:
  "\<forall>f \<in> set fs. frame_ok f \<Longrightarrow> buf @ concat cs = concat (map wire fs) \<Longrightarrow> starts_next buf fs \<Longrightarrow> decode_reads buf cs = Some (fs, [])"
proof (induction cs arbitrary: buf fs)
  case Nil
  then have "fs = []"
    by (cases fs) (auto simp: starts_next_def)
  then show ?case
    using Nil by (simp add: starts_next_def)
next
  case (Cons c cs)
  obtain fs1 fs2 buf' where d: "decode_all (buf @ c) = Some (fs1, buf')" "fs = fs1 @ fs2" "buf' @ concat cs = concat (map wire fs2)"
    "starts_next buf' fs2"
    using decode_all_prefix [OF Cons.prems(1), of "buf @ c" "concat cs"] Cons.prems(2) by auto
  then show ?case
    using Cons.IH [OF _ d(3,4)] Cons.prems(1) by simp
qed

text \<open>C36: Frames survive the byte stream. Frames of at most 65535 payload bytes encode without an error, and however the encoded
  bytes are split into reads, decoding after each read yields exactly these frames in order and leaves the buffer empty.\<close>

theorem frame_stream_roundtrip:
  assumes "\<forall>f \<in> set fs. frame_ok f" "encode_all fs [] = (r, bytes)" "concat cs = bytes"
  shows "r = Inr () \<and> decode_reads [] cs = Some (fs, [])"
proof -
  have r: "r = Inr ()" "bytes = concat (map wire fs)"
    using encode_all_wire [OF assms(1), of "[]"] assms(2) by simp_all
  have "starts_next [] fs"
    using assms(1) length_wire by (cases fs) (auto simp: starts_next_def)
  then show ?thesis
    using decode_reads_all [OF assms(1), of "[]" cs] assms(3) r by simp
qed

subsection \<open>Orders\<close>

text \<open>The layout of a new order, as the comment above its decoder gives it.\<close>

definition side_tag :: "side \<Rightarrow> u8" where
  "side_tag sd = (case sd of Buy \<Rightarrow> 0 | Sell \<Rightarrow> 1)"

definition order_type_tag :: "order_type \<Rightarrow> u8" where
  "order_type_tag t = (case t of Limit \<Rightarrow> 0 | Market \<Rightarrow> 1)"

definition tif_tag :: "time_in_force \<Rightarrow> u8" where
  "tif_tag t = (case t of Gtc \<Rightarrow> 0 | Ioc \<Rightarrow> 1 | Fok \<Rightarrow> 2)"

definition order_payload :: "new_order \<Rightarrow> byte list" where
  "order_payload n = to_le_bytes 8 (no_client_order_id n) @ to_le_bytes 8 (no_instrument_id n) @ [side_tag (no_side n)] @
     [order_type_tag (no_order_type n)] @ to_le_bytes 8 (no_price n) @ to_le_bytes 8 (no_qty n) @ [tif_tag (no_time_in_force n)]"

lemma decode_order_payload:
  assumes "no_qty n \<noteq> 0"
  shows "decode_new_order (no_account_id n) (order_payload n) = Inr n"
proof -
  have "length (order_payload n) = 35"
    by (simp add: order_payload_def)
  then show ?thesis
    using assms unfolding decode_new_order_def
    by (cases n; cases "no_side n"; cases "no_order_type n"; cases "no_time_in_force n")
      (simp_all add: order_payload_def get_u64_le_def get_u8_def from_to_le_bytes side_tag_def order_type_tag_def tif_tag_def qty_is_zero_def)
qed

text \<open>The pieces of a payload of the right length.\<close>

lemma split8: "8 \<le> length xs \<Longrightarrow> \<exists>a b. xs = a @ b \<and> length a = 8 \<and> length b = length xs - 8"
  by (intro exI [of _ "take 8 xs"] exI [of _ "drop 8 xs"]) simp

lemma payload_pieces:
  assumes "length p = 35"
  obtains a b sd ot c d tf where "p = a @ b @ [sd] @ [ot] @ c @ d @ [tf]" "length a = 8" "length b = 8" "length c = 8" "length d = 8"
proof -
  obtain a p1 where a: "p = a @ p1" "length a = 8" "length p1 = 27"
    using split8 [of p] assms by auto
  obtain b p2 where b: "p1 = b @ p2" "length b = 8" "length p2 = 19"
    using split8 [of p1] a by auto
  obtain sd ot p3 where p3: "p2 = sd # ot # p3" "length p3 = 17"
    using b(3) by (auto simp: numeral_eq_Suc length_Suc_conv)
  obtain c p4 where c: "p3 = c @ p4" "length c = 8" "length p4 = 9"
    using split8 [of p3] p3 by auto
  obtain d p5 where d: "p4 = d @ p5" "length d = 8" "length p5 = 1"
    using split8 [of p4] c by auto
  obtain tf where "p5 = [tf]"
    using d(3) by (auto simp: length_Suc_conv)
  then show thesis
    using a b p3 c d that by simp
qed

lemma to_from_le8: "length bs = 8 \<Longrightarrow> to_le_bytes 8 (from_le_bytes bs :: 64 word) = bs"
  using to_from_le_bytes [of bs, where 'a = 64] by simp

lemma decode_only_layout:
  assumes "decode_new_order a p = Inr n"
  shows "no_account_id n = a \<and> no_qty n \<noteq> 0 \<and> p = order_payload n"
proof -
  have "length p = 35"
    using assms by (auto simp: decode_new_order_def split: if_splits)
  then obtain x y sd ot c d tf where p: "p = x @ y @ [sd] @ [ot] @ c @ d @ [tf]" "length x = 8" "length y = 8" "length c = 8" "length d = 8"
    by (rule payload_pieces)
  note n = assms [unfolded p(1) decode_new_order_def]
  show ?thesis
    using n p(2-)
    by (auto simp: p(1) order_payload_def get_u64_le_def get_u8_def side_tag_def order_type_tag_def tif_tag_def qty_is_zero_def to_from_le8
        split: if_splits)
qed

text \<open>C37: The order decoder accepts exactly the documented layout. It returns an order iff the payload is that order's layout,
  byte for byte, the account is the session's and the quantity is not zero; so it inverts the client's encoding, and no payload
  with a wrong length, an unknown tag or a zero quantity is taken.\<close>

theorem new_order_layout_exact:
  "decode_new_order a p = Inr n \<longleftrightarrow> no_account_id n = a \<and> no_qty n \<noteq> 0 \<and> p = order_payload n"
  using decode_order_payload decode_only_layout by metis

subsection \<open>Connections\<close>

text \<open>A command of the account, as the gateway may enqueue it.\<close>

fun owned :: "account_id \<Rightarrow> inbound_command \<Rightarrow> bool" where
  "owned a (NewOrder acct _ _ _ _ qty _ _) \<longleftrightarrow> acct = a \<and> qty \<noteq> 0"
| "owned a (Cancel acct _) \<longleftrightarrow> acct = a"
| "owned a _ \<longleftrightarrow> False"

lemma try_from_owned:
  "inbound_try_from (CmdNew n) = Inr c \<Longrightarrow> no_qty n \<noteq> 0 \<Longrightarrow> owned (no_account_id n) c"
  "inbound_try_from (CmdCancel k) = Inr c \<Longrightarrow> owned (co_account_id k) c"
  by (auto split: sum.splits)

text \<open>The session goes on for the same account, and has added to its lane only commands of that account.\<close>

definition lane_keeps :: "('q \<Rightarrow> inbound_command list \<Rightarrow> bool) \<Rightarrow> 'q session \<Rightarrow> inbound_command list \<Rightarrow> 'q session \<Rightarrow> bool" where
  "lane_keeps sent s es s' \<longleftrightarrow> ss_account_id s' = ss_account_id s \<and>
     (\<exists>cs. sent (ss_cmd_producer s') (es @ cs) \<and> (\<forall>c \<in> set cs. owned (ss_account_id s) c))"

text \<open>The lane from a session to the sequencer.\<close>

locale command_lane = message_queue push sent
  for push :: "'q lane_push" and sent
begin

lemma enqueue_ok:
  assumes "sent (ss_cmd_producer s) es" "\<And>c. inbound_try_from cmd = Inr c \<Longrightarrow> owned a c"
  shows "\<exists>r s' cs. enqueue_command push s cmd = Some (r, s') \<and> ss_account_id s' = ss_account_id s \<and>
    ss_subscriptions s' = ss_subscriptions s \<and> sent (ss_cmd_producer s') (es @ cs) \<and> (\<forall>c \<in> set cs. owned a c)"
proof (cases "inbound_try_from cmd")
  case (Inl e)
  then show ?thesis
    using assms(1) by (auto simp: enqueue_command_def intro!: exI [of _ "[]"])
next
  case (Inr c)
  obtain r q where q: "push (ss_cmd_producer s) c = Some (r, q)" "case r of Inr _ \<Rightarrow> sent q (es @ [c]) | Inl y \<Rightarrow> y = c \<and> sent q es"
    using push_sent [OF assms(1)] by blast
  then show ?thesis
    using Inr assms(2) [OF Inr]
    by (cases r) (auto simp: enqueue_command_def intro: exI [of _ "if isl r then [] else [c]"])
qed

abbreviation keeps :: "'q session \<Rightarrow> inbound_command list \<Rightarrow> 'q session \<Rightarrow> bool" where
  "keeps \<equiv> lane_keeps sent"

lemma keeps_refl: "sent (ss_cmd_producer s) es \<Longrightarrow> keeps s es (s\<lparr>ss_subscriptions := x\<rparr>)" "sent (ss_cmd_producer s) es \<Longrightarrow> keeps s es s"
  by (auto simp: lane_keeps_def intro!: exI [of _ "[]"])

lemma dispatch_ok:
  assumes "sent (ss_cmd_producer s) es"
  shows "\<exists>r s'. dispatch_frame push s f = Some (r, s') \<and> keeps s es s' \<and> (\<forall>a. r \<noteq> Inr (Some a))"
proof -
  have enq_new: "\<exists>r s'. enqueue_command push s (CmdNew n) = Some (r, s') \<and> keeps s es s'"
    if "decode_new_order (ss_account_id s) p = Inr n" for n p
    using enqueue_ok [OF assms, of "CmdNew n" "ss_account_id s"] try_from_owned(1) [of n] decode_only_layout [OF that]
    by (fastforce simp: lane_keeps_def)
  have enq_cancel: "\<exists>r s'. enqueue_command push s (CmdCancel k) = Some (r, s') \<and> keeps s es s'"
    if "decode_cancel_order (ss_account_id s) p = Inr k" for k p
  proof -
    have "co_account_id k = ss_account_id s"
      using that by (auto simp: decode_cancel_order_def split: if_splits prod.splits)
    then show ?thesis
      using enqueue_ok [OF assms, of "CmdCancel k" "ss_account_id s"] try_from_owned(2) [of k] by (fastforce simp: lane_keeps_def)
  qed
  consider (new) n where "fr_msg_type f = 1" "decode_new_order (ss_account_id s) (fr_payload f) = Inr n"
    | (cancel) k where "fr_msg_type f = 2" "decode_cancel_order (ss_account_id s) (fr_payload f) = Inr k"
    | (other) "\<And>n. fr_msg_type f = 1 \<Longrightarrow> decode_new_order (ss_account_id s) (fr_payload f) \<noteq> Inr n"
      "\<And>k. fr_msg_type f = 2 \<Longrightarrow> decode_cancel_order (ss_account_id s) (fr_payload f) \<noteq> Inr k"
    by blast
  then show ?thesis
  proof cases
    case new
    then show ?thesis
      using enq_new [OF new(2)] by (fastforce simp: dispatch_frame_def split: sum.splits)
  next
    case cancel
    then show ?thesis
      using enq_cancel [OF cancel(2)] by (fastforce simp: dispatch_frame_def split: sum.splits)
  next
    case other
    then show ?thesis
      using keeps_refl [OF assms] by (auto simp: dispatch_frame_def split: sum.splits)
  qed
qed

lemma handle_inbound_ok:
  assumes "sent (ss_cmd_producer s) es"
  shows "\<exists>r s' buf'. handle_inbound push s buf = Some (r, s', buf') \<and> keeps s es s' \<and> (\<forall>a. r \<noteq> Inr (Some a))"
proof (cases "codec_decode buf" rule: prod.exhaust)
  case (Pair r buf')
  show ?thesis
  proof (cases "\<exists>f. r = Inr (Some f)")
    case True
    then obtain f where "r = Inr (Some f)"
      by blast
    then show ?thesis
      using Pair dispatch_ok [OF assms, of f] by (auto simp: handle_inbound_def)
  next
    case False
    then show ?thesis
      using Pair keeps_refl(2) [OF assms] by (auto simp: handle_inbound_def split: sum.splits option.splits)
  qed
qed

text \<open>No frame asks for a reply, so the inner loop ends after one call.\<close>

lemma process_buffered_ok:
  assumes "sent (ss_cmd_producer s) es"
  shows "\<exists>r. process_buffered send push s buf = Some r \<and> (case r of Inl s' \<Rightarrow> keeps s es s' | Inr (s', _) \<Rightarrow> keeps s es s')"
proof -
  obtain r s' buf' where "handle_inbound push s buf = Some (r, s', buf')" "keeps s es s'" "\<forall>a. r \<noteq> Inr (Some a)"
    using handle_inbound_ok [OF assms] by blast
  then show ?thesis
    by (subst process_buffered.simps) (auto split: sum.splits option.splits)
qed

lemma keeps_trans:
  assumes "keeps s es s1" "\<And>es1. sent (ss_cmd_producer s1) es1 \<Longrightarrow> \<exists>s2. P s2 \<and> keeps s1 es1 s2"
  shows "\<exists>s2. P s2 \<and> keeps s es s2"
proof -
  obtain cs where cs: "ss_account_id s1 = ss_account_id s" "sent (ss_cmd_producer s1) (es @ cs)" "\<forall>c \<in> set cs. owned (ss_account_id s) c"
    using assms(1) by (auto simp: lane_keeps_def)
  obtain s2 where s2: "P s2" "keeps s1 (es @ cs) s2"
    using assms(2) [OF cs(2)] by blast
  then obtain ds where "sent (ss_cmd_producer s2) (es @ (cs @ ds))" "\<forall>c \<in> set ds. owned (ss_account_id s) c" "ss_account_id s2 = ss_account_id s"
    using cs(1) by (auto simp: lane_keeps_def)
  then have "keeps s es s2"
    using cs(3) unfolding lane_keeps_def by (intro conjI exI [of _ "cs @ ds"]) auto
  then show ?thesis
    using s2(1) by blast
qed

lemma read_loop_ok:
  "sent (ss_cmd_producer s) es \<Longrightarrow>
   \<exists>s'. (\<exists>r fw. read_loop send push s buf forwarded rs = Some (r, s', fw)) \<and> keeps s es s'"
proof (induction rs arbitrary: s es buf forwarded)
  case Nil
  show ?case
    using process_buffered_ok [OF Nil, of send buf] by (fastforce simp: read_loop.simps split: sum.splits)
next
  case (Cons c rs)
  obtain r where r: "process_buffered send push s buf = Some r" "case r of Inl s' \<Rightarrow> keeps s es s' | Inr (s', _) \<Rightarrow> keeps s es s'"
    using process_buffered_ok [OF Cons.prems] by blast
  show ?case
  proof (cases "\<exists>s1 buf1 x. r = Inr (s1, buf1) \<and> c = Some x \<and> x \<noteq> []")
    case True
    then obtain s1 buf1 x where x: "r = Inr (s1, buf1)" "c = Some x" "x \<noteq> []"
      by blast
    then have "read_loop send push s buf forwarded (c # rs) = read_loop send push s1 (buf1 @ x) (forwarded \<union> ss_subscriptions s1) rs"
      using r(1) by (simp add: read_loop.simps [of send push s])
    then show ?thesis
      using keeps_trans [of s es s1] r(2) x Cons.IH by simp
  next
    case False
    then show ?thesis
      using r by (fastforce simp: read_loop.simps [of send push s] split: sum.splits option.splits)
  qed
qed

lemma connection_reads_ok:
  assumes "sent q es"
  shows "\<exists>r q' fw cs. connection_reads send push sid q rs = Some (r, q', fw) \<and> sent q' (es @ cs) \<and>
    (case read_auth_frame [] rs of Inl e \<Rightarrow> r = Inl e \<and> cs = [] | Inr (a, _) \<Rightarrow> \<forall>c \<in> set cs. owned a c)"
proof (cases "read_auth_frame [] rs")
  case (Inl e)
  then show ?thesis
    using assms by (auto simp: connection_reads_def intro!: exI [of _ "[]"])
next
  case (Inr y)
  then obtain a buf rs' where y: "read_auth_frame [] rs = Inr (a, buf, rs')"
    by (cases y) auto
  have "sent (ss_cmd_producer (session_new sid a q)) es" "ss_account_id (session_new sid a q) = a"
    using assms by (simp_all add: session_new_def)
  then show ?thesis
    using read_loop_ok [of "session_new sid a q" es send buf "{}" rs'] y by (fastforce simp: connection_reads_def lane_keeps_def)
qed

end

interpretation lane: command_lane "channel_push cap" "channel_sent cap" for cap :: u64
  by unfold_locales (rule channel_push_sent)

text \<open>C38: A connection acts only for its account. Whatever bytes arrive, in whatever pieces, and however the sequencer drains the
  lane, the authentication and the read loop end without panicking or looping, and every command enqueued is a new order with a
  quantity or a cancel, under the account of the authentication frame; without such a frame nothing is enqueued. The connection
  then returns what they returned, except that after an end that is not an error it returns only if its writer ends: if a write
  fails, or the execution reports and all forwarded market data are closed.\<close>

theorem connection_acts_for_account:
  assumes "channel_new 4096 plan = Some q"
  shows "\<exists>r q' fw cs. connection_reads (ce_send env) (channel_push 4096) sid q rs = Some (r, q', fw) \<and> channel_sent 4096 q' cs \<and>
    (case read_auth_frame [] rs of
       Inl e \<Rightarrow> r = Inl e \<and> cs = [] \<and> handle_connection env (channel_push 4096) sid q rs = Some (r, q', fw)
     | Inr (a, _) \<Rightarrow> (\<forall>c \<in> set cs. owned a c) \<and>
         handle_connection env (channel_push 4096) sid q rs =
           (if r = Inr () \<and> \<not> writer_task_ends a env fw then None else Some (r, q', fw)))"
proof -
  obtain r q' fw cs where c: "connection_reads (ce_send env) (channel_push 4096) sid q rs = Some (r, q', fw)" "channel_sent 4096 q' cs"
    "case read_auth_frame [] rs of Inl e \<Rightarrow> r = Inl e \<and> cs = [] | Inr (a, _) \<Rightarrow> \<forall>c \<in> set cs. owned a c"
    using lane.connection_reads_ok [of 4096 q "[]"] channel_new_sent [OF assms] by fastforce
  then show ?thesis
    by (intro exI [of _ r] exI [of _ q'] exI [of _ fw] exI [of _ cs])
      (auto simp: handle_connection_def split: sum.splits)
qed

subsection \<open>Examples\<close>

definition ex_frames :: "frame list" where
  "ex_frames = [\<lparr>fr_msg_type = 1, fr_payload = [7, 8, 9]\<rparr>, \<lparr>fr_msg_type = 3, fr_payload = []\<rparr>]"

theorem frame_stream_roundtrip_witness:
  "encode_all ex_frames [] = (Inr (), [4, 0, 0, 0, 1, 7, 8, 9, 1, 0, 0, 0, 3]) \<and>
   decode_reads [] [[4, 0, 0], [0, 1, 7, 8, 9, 1], [], [0, 0, 0, 3]] = Some (ex_frames, [])"
proof -
  have e: "encode_all ex_frames [] = (Inr (), [4, 0, 0, 0, 1, 7, 8, 9, 1, 0, 0, 0, 3])"
    by code_simp
  have "\<forall>f \<in> set ex_frames. frame_ok f"
    by (simp add: ex_frames_def frame_ok_def)
  from frame_stream_roundtrip [OF this e, of "[[4, 0, 0], [0, 1, 7, 8, 9, 1], [], [0, 0, 0, 3]]"] e show ?thesis
    by simp
qed

definition ex_auth :: "byte list" where
  "ex_auth = [9, 0, 0, 0, 0, 7, 0, 0, 0, 0, 0, 0, 0]"

definition ex_order :: "u64 \<Rightarrow> byte list" where
  "ex_order i = [36, 0, 0, 0, 1] @ to_le_bytes 8 i @ to_le_bytes 8 (1 :: u64) @ [0, 0] @ to_le_bytes 8 (105 :: u64) @ to_le_bytes 8 (3 :: u64) @ [0]"

lemma ex_lane: "channel_new 4096 plan = Some (the (channel_new 4096 plan))"
proof -
  have "is_power_of_two 4096"
    by code_simp
  then show ?thesis
    by (simp add: channel_new_def spsc_queue_def)
qed

text \<open>After the client has gone, one report for its account fails to be written.\<close>

definition ex_env :: conn_env where
  "ex_env = \<lparr>ce_send = \<lambda>_. True, ce_exec_reports = [Inr (EvRejected seq_first 7 1 RiskLimitBreach)], ce_market_data = \<lambda>_. [], ce_write_all = \<lambda>_. False\<rparr>"

theorem connection_acts_for_account_witness:
  "\<exists>r q' fw cs. handle_connection ex_env (channel_push 4096) 1 (the (channel_new 4096 (\<lambda>_. 0))) [Some (ex_auth @ ex_order 1)] = Some (r, q', fw) \<and>
     channel_sent 4096 q' cs \<and> (\<forall>c \<in> set cs. owned 7 c)"
proof -
  have a: "read_auth_frame [] [Some (ex_auth @ ex_order 1)] = Inr (7, ex_order 1, [])"
    by code_simp
  have "(\<lambda>(frames, _). frames \<noteq> []) (exec_report_task 7 (\<lambda>_. True) (ce_exec_reports ex_env))"
    by code_simp
  then have "writer_task_ends 7 ex_env fw" for fw
    by (auto simp: writer_task_ends_def ex_env_def neq_Nil_conv)
  with a show ?thesis
    using connection_acts_for_account [OF ex_lane [of "\<lambda>_. 0"], of ex_env 1 "[Some (ex_auth @ ex_order 1)]"] by auto
qed

subsection \<open>Where the gateway and its documentation differ\<close>

text \<open>A connection does not end with its client. The execution report task keeps a sender to the writer, so that after the read loop
  the connection waits until a report for the account fails to be written or the server itself stops. With nothing but reports
  for other accounts it waits for ever, and its lane is never released.\<close>

lemma exec_report_task_waits:
  "\<forall>x \<in> set recvs. case x of Inl e \<Rightarrow> e \<noteq> Closed | Inr ev \<Rightarrow> \<not> event_concerns a ev \<Longrightarrow> exec_report_task a send recvs = ([], False)"
  by (induction a send recvs rule: exec_report_task.induct) (auto simp: encode_event_for_def)

lemma connection_waits_for_writer:
  assumes "connection_reads (ce_send env) push sid q rs = Some (Inr (), q', {})" "read_auth_frame [] rs = Inr (a, x)"
    "\<forall>x \<in> set (ce_exec_reports env). case x of Inl e \<Rightarrow> e \<noteq> Closed | Inr ev \<Rightarrow> \<not> event_concerns a ev"
  shows "handle_connection env push sid q rs = None"
  using assms(1,2) exec_report_task_waits [OF assms(3)] by (cases x) (simp add: handle_connection_def writer_task_ends_def)

text \<open>A forwarder that lags behind ends for good, unlike the execution report task: later events are not sent, and \<open>forwarded\<close>
  keeps the instrument, so that no new forwarder is spawned.\<close>

lemma lagging_forwarder_ends: "forwarder_task send (Inl (Lagged n) # recvs) = ([], True)"
  by simp

text \<open>The inner loop is to process all complete frames in the buffer, but \<open>handle_inbound\<close> answers \<open>Ok(None)\<close> also for a frame it
  has handled: one frame is taken per read. Two orders that arrive together, followed by the end of the connection, leave one
  command in the lane; in separate reads they leave two.\<close>

abbreviation list_lane :: "inbound_command list lane_push" where
  "list_lane q c \<equiv> Some (Inr (), q @ [c])"

lemma one_frame_per_read:
  "map_option (\<lambda>(_, q, _). length q) (connection_reads (\<lambda>_. True) list_lane 1 [] [Some ex_auth, Some (ex_order 1 @ ex_order 2)]) = Some 1"
  "map_option (\<lambda>(_, q, _). length q) (connection_reads (\<lambda>_. True) list_lane 1 [] [Some ex_auth, Some (ex_order 1), Some (ex_order 2)]) = Some 2"
  by code_simp+

text \<open>The forwarder of a subscription is spawned after the next read that returns bytes: a client that subscribes and listens
  gets no market data.\<close>

lemma subscription_waits_for_bytes:
  "map_option (\<lambda>(_, _, fw). 5 \<in> fw) (connection_reads (\<lambda>_. True) list_lane 1 []
     [Some ex_auth, Some ([9, 0, 0, 0, 3] @ to_le_bytes 8 (5 :: u64))]) = Some False"
  "map_option (\<lambda>(_, _, fw). 5 \<in> fw) (connection_reads (\<lambda>_. True) list_lane 1 []
     [Some ex_auth, Some ([9, 0, 0, 0, 3] @ to_le_bytes 8 (5 :: u64)), Some [0]]) = Some True"
  by code_simp+

text \<open>A fill is reported from the aggressor's side to both accounts: the maker is told the aggressor's order id and remaining
  quantity.\<close>

lemma maker_told_aggressor_order:
  assumes "event_concerns maker (EvFilled seq f)" "event_concerns taker (EvFilled seq f)"
  shows "encode_event_for maker (EvFilled seq f) out = encode_event_for taker (EvFilled seq f) out"
  using assms by (simp add: encode_event_for_def)

end
