(* ===== verification/Sequencer_Props.thy ===== *)
theory Sequencer_Props
  imports Sequencer Gateway_Props
begin

text \<open>
  What the sequencer guarantees: one total order of all commands, of which every matching engine receives its part. The contract
  of the rings around it is a locale, interpreted on the model's rings with gateways that send for known
  symbols and with consumers that keep taking.
\<close>

subsection \<open>The order\<close>

text \<open>The commands that go to the engine of symbol \<open>i\<close>.\<close>

definition routed :: "nat \<Rightarrow> inbound_command \<Rightarrow> bool" where
  "routed i cmd \<longleftrightarrow> (case cmd_symbol cmd of Some sy \<Rightarrow> unat sy = i | None \<Rightarrow> is_cancel cmd)"

text \<open>The commands whose engine exists.\<close>

definition known :: "nat \<Rightarrow> inbound_command \<Rightarrow> bool" where
  "known n cmd \<longleftrightarrow> (case cmd_symbol cmd of Some sy \<Rightarrow> unat sy < n | None \<Rightarrow> True)"

text \<open>\<open>h\<close> lists the dispatched commands, each with the lane it came from. Numbers are consecutive from \<open>init\<close> on.\<close>

definition numbered :: "u64 \<Rightarrow> (nat \<times> sequenced_command) list \<Rightarrow> bool" where
  "numbered init h \<longleftrightarrow> map (sc_seq \<circ> snd) h = map (\<lambda>k. init + of_nat (Suc k)) [0..<length h]"

definition engine_part :: "nat \<Rightarrow> (nat \<times> sequenced_command) list \<Rightarrow> sequenced_command list" where
  "engine_part i h = filter (routed i \<circ> sc_cmd) (map snd h)"

definition lane_part :: "nat \<Rightarrow> (nat \<times> sequenced_command) list \<Rightarrow> inbound_command list" where
  "lane_part g h = map (sc_cmd \<circ> snd) (filter (\<lambda>(j, _). j = g) h)"

definition markers :: "u64 \<Rightarrow> (nat \<times> sequenced_command) list \<Rightarrow> engine_event list" where
  "markers interval h = map SnapshotMarker (filter (\<lambda>seq. seq mod interval = 0) (map (sc_seq \<circ> snd) h))"

lemma parts_Nil [simp]: "engine_part i [] = []" "lane_part g [] = []" "markers k [] = []" "numbered init []"
  by (simp_all add: engine_part_def lane_part_def markers_def numbered_def)

lemma parts_snoc [simp]:
  "engine_part i (h @ [(g, c)]) = engine_part i h @ (if routed i (sc_cmd c) then [c] else [])"
  "lane_part j (h @ [(g, c)]) = lane_part j h @ (if g = j then [sc_cmd c] else [])"
  "markers k (h @ [(g, c)]) = markers k h @ (if sc_seq c mod k = 0 then [SnapshotMarker (sc_seq c)] else [])"
  "numbered init (h @ [(g, c)]) \<longleftrightarrow> numbered init h \<and> sc_seq c = init + of_nat (Suc (length h))"
  by (auto simp: engine_part_def lane_part_def markers_def numbered_def)

lemma numbered_sorted:
  assumes "numbered init h" "unat init + length h < 2 ^ 64"
  shows "sorted_wrt (<) (map (sc_seq \<circ> snd) h)"
proof -
  have "unat (init + of_nat (Suc k)) = unat init + Suc k" if "k < length h" for k
    using that assms(2) word_nat_small [of "unat init + Suc k"] by (simp add: add.left_commute)
  then have "sorted_wrt (<) (map (\<lambda>k. init + of_nat (Suc k) :: u64) [0..<length h])"
    by (simp add: sorted_wrt_map sorted_wrt_iff_nth_less word_less_nat_alt del: of_nat_Suc)
  then show ?thesis
    using assms(1) by (simp add: numbered_def del: of_nat_Suc)
qed

lemma engine_part_sorted:
  assumes "numbered init h" "unat init + length h < 2 ^ 64"
  shows "sorted_wrt (<) (map sc_seq (engine_part i h))"
  using numbered_sorted [OF assms] unfolding engine_part_def by (auto simp: sorted_wrt_map comp_def intro: sorted_wrt_filter)

subsection \<open>The contract of the rings\<close>

text \<open>What a sequencer with the history \<open>h\<close> has left in the rings around it.\<close>

definition in_order ::
  "('g \<Rightarrow> inbound_command list) \<Rightarrow> ('m \<Rightarrow> sequenced_command list \<Rightarrow> bool) \<Rightarrow> ('w \<Rightarrow> sequenced_command list \<Rightarrow> bool) \<Rightarrow>
   ('s \<Rightarrow> engine_event list \<Rightarrow> bool) \<Rightarrow> u64 \<Rightarrow> (nat \<times> sequenced_command) list \<Rightarrow> ('g, 'm, 'w, 's) sequencer \<Rightarrow> bool" where
  "in_order popped me_sent wal_sent snap_sent init h s \<longleftrightarrow>
     numbered init h \<and> sq_seq s = init + of_nat (length h) \<and>
     (\<forall>g < length (sq_gw_inbound s). popped (sq_gw_inbound s ! g) = lane_part g h) \<and>
     (\<forall>i < length (sq_me_inbound s). me_sent (sq_me_inbound s ! i) (engine_part i h)) \<and>
     (\<exists>ws. wal_sent (sq_wal_out s) ws \<and> subseq ws (map snd h)) \<and>
     (\<forall>q \<in> set (sq_snapshot_out s). snap_sent q (markers (sq_snapshot_schedule s) h))"

text \<open>Polling leaves the other rings and the counter alone.\<close>

definition same_outputs :: "('g, 'm, 'w, 's) sequencer \<Rightarrow> ('g, 'm, 'w, 's) sequencer \<Rightarrow> bool" where
  "same_outputs s s' \<longleftrightarrow> sq_seq s' = sq_seq s \<and> sq_me_inbound s' = sq_me_inbound s \<and> sq_wal_out s' = sq_wal_out s \<and>
     sq_snapshot_out s' = sq_snapshot_out s \<and> sq_snapshot_schedule s' = sq_snapshot_schedule s"

locale sequencer_rings =
  me: live_queue "me_push ops" me_sent me_live me_delay + wal: message_queue "wal_push ops" wal_sent +
  snap: live_queue "snap_push ops" snap_sent snap_live snap_delay
  for ops :: "('g, 'm, 'w, 's) sequencer_ops" and me_sent me_live me_delay wal_sent snap_sent snap_live snap_delay +
  fixes popped :: "'g \<Rightarrow> inbound_command list"
    and lane_ok :: "nat \<Rightarrow> 'g \<Rightarrow> bool"
  assumes pop: "lane_ok n g \<Longrightarrow> \<exists>r g'. gw_pop ops g = Some (r, g') \<and> lane_ok n g' \<and>
      popped g' = popped g @ (case r of None \<Rightarrow> [] | Some c \<Rightarrow> [c]) \<and> (\<forall>c. r = Some c \<longrightarrow> known n c)"
begin

abbreviation ordered where
  "ordered \<equiv> in_order popped me_sent wal_sent snap_sent"

abbreviation ready :: "('g, 'm, 'w, 's) sequencer \<Rightarrow> bool" where
  "ready s \<equiv> (\<forall>g \<in> set (sq_gw_inbound s). lane_ok (length (sq_me_inbound s)) g) \<and> (\<forall>q \<in> set (sq_me_inbound s). me_live q) \<and>
     (\<forall>q \<in> set (sq_snapshot_out s). snap_live q) \<and> 0 < sq_snapshot_schedule s"

abbreviation lanes :: "('g, 'm, 'w, 's) sequencer \<Rightarrow> inbound_command list list" where
  "lanes s \<equiv> map popped (sq_gw_inbound s)"

lemma poll_lanes_ok:
  "ready s \<Longrightarrow> sq_gw_inbound s \<noteq> [] \<or> offsets = [] \<Longrightarrow>
   \<exists>r s'. poll_lanes ops s offsets = Some (r, s') \<and> ready s' \<and> same_outputs s s' \<and>
     (case r of
        None \<Rightarrow> lanes s' = lanes s
      | Some c \<Rightarrow> known (length (sq_me_inbound s)) c \<and> (\<exists>g < length (lanes s). lanes s' = (lanes s)[g := lanes s ! g @ [c]]))"
proof (induction offsets arbitrary: s)
  case (Cons i offsets)
  define idx where "idx = (sq_gw_cursor s + i) mod length (sq_gw_inbound s)"
  have idx: "idx < length (sq_gw_inbound s)"
    using Cons.prems(2) by (simp add: idx_def)
  obtain r g where g: "gw_pop ops (sq_gw_inbound s ! idx) = Some (r, g)" "lane_ok (length (sq_me_inbound s)) g"
    "popped g = popped (sq_gw_inbound s ! idx) @ (case r of None \<Rightarrow> [] | Some c \<Rightarrow> [c])" "\<forall>c. r = Some c \<longrightarrow> known (length (sq_me_inbound s)) c"
    using pop Cons.prems(1) idx nth_mem by meson
  let ?s = "s\<lparr>sq_gw_inbound := (sq_gw_inbound s)[idx := g]\<rparr>"
  have ready: "ready ?s" "ready (?s\<lparr>sq_gw_cursor := n\<rparr>)" for n
    using Cons.prems(1) g(2) by (auto dest!: set_update_subset_insert [THEN subsetD])
  have lanes: "lanes ?s = (lanes s)[idx := popped g]"
    by (simp add: map_update)
  show ?case
  proof (cases r)
    case None
    then have "lanes ?s = lanes s"
      using g(3) idx by (simp add: map_update list_update_same_conv)
    moreover have "poll_lanes ops s (i # offsets) = poll_lanes ops ?s offsets"
      using None g(1) idx by (simp add: Let_def idx_def [symmetric])
    moreover have "sq_gw_inbound ?s \<noteq> []"
      using idx by auto
    moreover have "same_outputs s s' = same_outputs ?s s'" "length (sq_me_inbound ?s) = length (sq_me_inbound s)" for s'
      by (simp_all add: same_outputs_def)
    ultimately show ?thesis
      using Cons.IH [OF ready(1)] by (simp only:) blast
  next
    case (Some c)
    have "poll_lanes ops s (i # offsets) = Some (Some c, ?s\<lparr>sq_gw_cursor := (idx + 1) mod length (sq_gw_inbound s)\<rparr>)"
      using Some g(1) idx by (simp add: Let_def idx_def [symmetric])
    moreover have "lanes ?s = (lanes s)[idx := lanes s ! idx @ [c]]"
      using Some g(3) idx lanes by simp
    ultimately show ?thesis
      using Some g(4) ready(2) idx by (auto simp: same_outputs_def)
  qed
qed (auto simp: same_outputs_def)

lemma spin_all_ok:
  assumes "live_queue push sent live delay"
  shows "\<forall>q \<in> set qs. live q \<Longrightarrow> list_all2 sent qs ess \<Longrightarrow>
    \<exists>qs'. spin_all push qs x = Some qs' \<and> (\<forall>q \<in> set qs'. live q) \<and> list_all2 sent qs' (map (\<lambda>es. es @ [x]) ess)"
proof (induction qs arbitrary: ess)
  case (Cons q qs)
  obtain es ess' where ess: "ess = es # ess'" "sent q es" "list_all2 sent qs ess'"
    using Cons.prems(2) by (cases ess) auto
  obtain q' where "push_spin push q x = Some q'" "sent q' (es @ [x])" "live q'"
    using live_queue.push_spin_sent [OF assms ess(2)] Cons.prems(1) by auto
  then show ?case
    using Cons.IH [OF _ ess(3)] Cons.prems(1) ess(1) by auto
qed simp

text \<open>The matching engines of a routed command each get it, the others nothing.\<close>

lemma route_ok:
  assumes "ready s" "known (length (sq_me_inbound s)) (sc_cmd c)" "\<forall>i < length (sq_me_inbound s). me_sent (sq_me_inbound s ! i) (f i)"
  shows "\<exists>qs. route_command ops s c = Some (s\<lparr>sq_me_inbound := qs\<rparr>) \<and> length qs = length (sq_me_inbound s) \<and> (\<forall>q \<in> set qs. me_live q) \<and>
    (\<forall>i < length qs. me_sent (qs ! i) (f i @ (if routed i (sc_cmd c) then [c] else [])))"
proof (cases "cmd_symbol (sc_cmd c)")
  case None
  show ?thesis
  proof (cases "is_cancel (sc_cmd c)")
    case True
    have "list_all2 me_sent (sq_me_inbound s) (map f [0..<length (sq_me_inbound s)])"
      using assms(3) by (simp add: list_all2_conv_all_nth)
    then obtain qs where qs: "spin_all (me_push ops) (sq_me_inbound s) c = Some qs" "\<forall>q \<in> set qs. me_live q"
      "list_all2 me_sent qs (map (\<lambda>es. es @ [c]) (map f [0..<length (sq_me_inbound s)]))"
      using spin_all_ok [OF me.live_queue_axioms, of "sq_me_inbound s"] assms(1) by blast
    then show ?thesis
      using None True by (auto simp: route_command_def routed_def list_all2_conv_all_nth)
  next
    case False
    then show ?thesis
      using None assms by (auto simp: route_command_def routed_def intro!: exI [of _ "sq_me_inbound s"])
  qed
next
  case (Some sy)
  have i: "unat sy < length (sq_me_inbound s)"
    using assms(2) Some by (simp add: known_def)
  then obtain q where q: "push_spin (me_push ops) (sq_me_inbound s ! unat sy) c = Some q" "me_sent q (f (unat sy) @ [c])" "me_live q"
    using me.push_spin_sent [of "sq_me_inbound s ! unat sy" "f (unat sy)" c] assms(1,3) by auto
  let ?qs = "(sq_me_inbound s)[unat sy := q]"
  have "route_command ops s c = Some (s\<lparr>sq_me_inbound := ?qs\<rparr>)"
    using Some i q(1) by (simp add: route_command_def Let_def)
  moreover have "\<forall>x \<in> set ?qs. me_live x"
    using assms(1) q(3) by (auto dest!: set_update_subset_insert [THEN subsetD])
  moreover have "me_sent (?qs ! j) (f j @ (if routed j (sc_cmd c) then [c] else []))" if "j < length ?qs" for j
    using that assms(3) q(2) Some by (cases "j = unat sy") (auto simp: routed_def)
  ultimately show ?thesis
    by (intro exI [of _ ?qs]) simp
qed

lemma inject_ok:
  assumes "ready s" "\<forall>q \<in> set (sq_snapshot_out s). snap_sent q es"
  shows "\<exists>qs. inject_snapshot_marker ops s seq = Some (s\<lparr>sq_snapshot_out := qs\<rparr>) \<and> (\<forall>q \<in> set qs. snap_live q \<and> snap_sent q (es @ [SnapshotMarker seq]))"
proof -
  have "list_all2 snap_sent (sq_snapshot_out s) (replicate (length (sq_snapshot_out s)) es)"
    using assms(2) by (simp add: list_all2_conv_all_nth)
  then obtain qs where qs: "spin_all (snap_push ops) (sq_snapshot_out s) (SnapshotMarker seq) = Some qs" "\<forall>q \<in> set qs. snap_live q"
    "list_all2 snap_sent qs (map (\<lambda>es. es @ [SnapshotMarker seq]) (replicate (length (sq_snapshot_out s)) es))"
    using spin_all_ok [OF snap.live_queue_axioms, of "sq_snapshot_out s"] assms(1) by blast
  then show ?thesis
    by (auto simp: inject_snapshot_marker_def list_all2_conv_all_nth all_set_conv_all_nth)
qed

lemma fire_ok:
  assumes "ready s" "\<forall>q \<in> set (sq_snapshot_out s). snap_sent q es"
  shows "\<exists>qs. (if fire then inject_snapshot_marker ops s seq else Some s) = Some (s\<lparr>sq_snapshot_out := qs\<rparr>) \<and>
    (\<forall>q \<in> set qs. snap_live q \<and> snap_sent q (es @ (if fire then [SnapshotMarker seq] else [])))"
proof (cases fire)
  case True
  then show ?thesis
    using inject_ok [OF assms] by simp
next
  case False
  then show ?thesis
    using assms by (intro exI [of _ "sq_snapshot_out s"]) simp
qed

lemma dispatch_ok:
  assumes "ready s" "known (length (sq_me_inbound s)) cmd" "in_order popped me_sent wal_sent snap_sent init h s0" "same_outputs s0 s"
    "lanes s = (lanes s0)[g := lanes s0 ! g @ [cmd]]" "g < length (lanes s0)"
  shows "\<exists>s' c. dispatch ops env s cmd = Some s' \<and> ready s' \<and> ordered init (h @ [(g, c)]) s' \<and>
    sc_term c = te_term env \<and> sc_ts_ns c = te_now_ns env \<and> length (sq_me_inbound s') = length (sq_me_inbound s) \<and>
    sq_snapshot_schedule s' = sq_snapshot_schedule s"
proof -
  let ?seq = "sq_seq s + 1"
  let ?c = "\<lparr>sc_term = te_term env, sc_seq = ?seq, sc_ts_ns = te_now_ns env, sc_cmd = cmd\<rparr>"
  note ord = assms(3) [unfolded in_order_def] and same = assms(4) [unfolded same_outputs_def]
  obtain ws where ws: "wal_sent (sq_wal_out s) ws" "subseq ws (map snd h)"
    using ord same by auto
  obtain r w where w: "wal_push ops (sq_wal_out s) ?c = Some (r, w)"
    "case r of Inr _ \<Rightarrow> wal_sent w (ws @ [?c]) | Inl y \<Rightarrow> y = ?c \<and> wal_sent w ws"
    using wal.push_sent [OF ws(1)] by blast
  have ws': "\<exists>ws'. wal_sent w ws' \<and> subseq ws' (map snd h @ [?c])"
    using w(2) ws(2) by (cases r) (auto intro: list_emb_append_mono [of "(=)" _ _ "[_]" "[_]"] subseq_rev_drop_many)
  let ?s = "s\<lparr>sq_seq := ?seq, sq_wal_out := w\<rparr>"
  have pre: "ready ?s" "known (length (sq_me_inbound ?s)) (sc_cmd ?c)"
    "\<forall>i < length (sq_me_inbound ?s). me_sent (sq_me_inbound ?s ! i) (engine_part i h)"
    using assms(1,2) ord same by simp_all
  obtain qs where qs: "route_command ops ?s ?c = Some (?s\<lparr>sq_me_inbound := qs\<rparr>)" "length qs = length (sq_me_inbound ?s)"
    "\<forall>q \<in> set qs. me_live q" "\<forall>i < length qs. me_sent (qs ! i) (engine_part i h @ (if routed i (sc_cmd ?c) then [?c] else []))"
    using route_ok [OF pre] by blast
  let ?s1 = "?s\<lparr>sq_me_inbound := qs\<rparr>"
  have pos: "sq_snapshot_schedule s \<noteq> 0"
    using assms(1) by auto
  have r1: "ready ?s1"
    using assms(1) qs(2,3) by simp
  have sn: "\<forall>q \<in> set (sq_snapshot_out ?s1). snap_sent q (markers (sq_snapshot_schedule s) h)"
    using ord same by simp
  obtain ss where ss: "(if ?seq mod sq_snapshot_schedule s = 0 then inject_snapshot_marker ops ?s1 ?seq else Some ?s1) = Some (?s1\<lparr>sq_snapshot_out := ss\<rparr>)"
    "\<forall>q \<in> set ss. snap_live q \<and> snap_sent q (markers (sq_snapshot_schedule s) h @ (if ?seq mod sq_snapshot_schedule s = 0 then [SnapshotMarker ?seq] else []))"
    using fire_ok [OF r1 sn] by blast
  let ?s2 = "?s1\<lparr>sq_snapshot_out := ss\<rparr>"
  have lane: "popped (sq_gw_inbound s ! j) = lane_part j (h @ [(g, ?c)])" if "j < length (sq_gw_inbound s)" for j
  proof -
    have len: "length (sq_gw_inbound s) = length (sq_gw_inbound s0)"
      using arg_cong [OF assms(5), of length] by simp
    have "popped (sq_gw_inbound s ! j) = (lanes s0)[g := lanes s0 ! g @ [cmd]] ! j"
      using that by (simp flip: assms(5))
    then show ?thesis
      using ord that len assms(6) by (cases "j = g") auto
  qed
  have snaps: "snap_sent q (markers (sq_snapshot_schedule s) (h @ [(g, ?c)]))" if "q \<in> set ss" for q
    using ss(2) that by (simp only: parts_snoc sequenced_command.simps)
  have mes: "\<forall>i < length qs. me_sent (qs ! i) (engine_part i (h @ [(g, ?c)]))"
    using qs(4) by (simp only: parts_snoc sequenced_command.simps)
  have "ordered init (h @ [(g, ?c)]) ?s2"
    unfolding in_order_def using ord same lane snaps mes ws' by (simp del: parts_snoc(1-3))
  moreover have "dispatch ops env s cmd = Some ?s2"
    using w(1) qs(1) ss(1) pos by (simp add: dispatch_def Let_def should_fire_def)
  moreover have "ready ?s2"
    using r1 ss(2) by simp
  ultimately show ?thesis
    using qs(2) by (intro exI [of _ ?s2] exI [of _ ?c]) simp
qed

lemma in_order_lanes:
  assumes "ordered init h s" "same_outputs s s'" "lanes s' = lanes s"
  shows "ordered init h s'"
proof -
  have "length (sq_gw_inbound s') = length (sq_gw_inbound s)"
    using arg_cong [OF assms(3), of length] by simp
  moreover have "popped (sq_gw_inbound s' ! g) = popped (sq_gw_inbound s ! g)" if "g < length (sq_gw_inbound s)" for g
    using that calculation arg_cong [OF assms(3), of "\<lambda>l. l ! g"] by simp
  ultimately show ?thesis
    using assms(1,2) by (simp add: in_order_def same_outputs_def)
qed

text \<open>What the commands carry from the turns they were dispatched in.\<close>

lemma turns_ok:
  "ready s \<Longrightarrow> ordered init h s \<Longrightarrow> \<forall>env \<in> set envs. \<not> te_halted env \<Longrightarrow>
   \<exists>s' h'. sequencer_turns ops s envs = Some s' \<and> ready s' \<and> ordered init (h @ h') s' \<and>
     subseq (map (\<lambda>(_, c). (sc_term c, sc_ts_ns c)) h') (map (\<lambda>env. (te_term env, te_now_ns env)) (filter te_leader envs)) \<and>
     length (sq_me_inbound s') = length (sq_me_inbound s) \<and> sq_snapshot_schedule s' = sq_snapshot_schedule s"
proof (induction envs arbitrary: s h)
  case (Cons env envs)
  show ?case
  proof (cases "te_leader env")
    case False
    then show ?thesis
      using Cons.IH [OF Cons.prems(1,2)] Cons.prems(3) by (simp add: sequencer_turn_def halt_is_set_def)
  next
    case True
    obtain r s1 where s1: "poll_inbound ops s = Some (r, s1)" "ready s1" "same_outputs s s1"
      "case r of None \<Rightarrow> lanes s1 = lanes s
       | Some c \<Rightarrow> known (length (sq_me_inbound s)) c \<and> (\<exists>g < length (lanes s). lanes s1 = (lanes s)[g := lanes s ! g @ [c]])"
      using poll_lanes_ok [OF Cons.prems(1), of "[0..<length (sq_gw_inbound s)]"] unfolding poll_inbound_def by auto
    show ?thesis
    proof (cases r)
      case None
      have "ordered init h s1"
        using in_order_lanes [OF Cons.prems(2) s1(3)] s1(4) None by simp
      then show ?thesis
        using Cons.IH [OF s1(2)] Cons.prems(3) s1(1,3) None True
        by (fastforce simp: sequencer_turn_def halt_is_set_def same_outputs_def)
    next
      case (Some cmd)
      then obtain g where g: "g < length (lanes s)" "lanes s1 = (lanes s)[g := lanes s ! g @ [cmd]]" "known (length (sq_me_inbound s1)) cmd"
        using s1(3,4) by (auto simp: same_outputs_def)
      obtain s2 c where s2: "dispatch ops env s1 cmd = Some s2" "ready s2" "ordered init (h @ [(g, c)]) s2"
        "sc_term c = te_term env" "sc_ts_ns c = te_now_ns env" "length (sq_me_inbound s2) = length (sq_me_inbound s1)"
        "sq_snapshot_schedule s2 = sq_snapshot_schedule s1"
        using dispatch_ok [OF s1(2) g(3) Cons.prems(2) s1(3) g(2,1)] by blast
      obtain s' h' where "sequencer_turns ops s2 envs = Some s'" "ready s'" "ordered init ((h @ [(g, c)]) @ h') s'"
        "subseq (map (\<lambda>(_, c). (sc_term c, sc_ts_ns c)) h') (map (\<lambda>env. (te_term env, te_now_ns env)) (filter te_leader envs))"
        "length (sq_me_inbound s') = length (sq_me_inbound s2)" "sq_snapshot_schedule s' = sq_snapshot_schedule s2"
        using Cons.IH [OF s2(2,3)] Cons.prems(3) by auto
      then show ?thesis
        using Cons.prems(3) s1(1,3) s2 Some True
        by (intro exI [of _ s'] exI [of _ "(g, c) # h'"]) (simp add: sequencer_turn_def halt_is_set_def same_outputs_def)
    qed
  qed
qed (simp add: exI [of _ "[]"])

end

subsection \<open>The model's rings keep the contract\<close>

definition seq_rings :: "(inbound_command inbox, sequenced_command channel, sequenced_command channel, engine_event channel) sequencer_ops" where
  "seq_rings = \<lparr>gw_pop = inbox_pop 4096, me_push = channel_push 4096, wal_push = channel_push 16384, snap_push = channel_push 16384\<rparr>"

text \<open>A lane of which only commands for known engines come.\<close>

definition known_lane :: "nat \<Rightarrow> inbound_command inbox \<Rightarrow> bool" where
  "known_lane n b \<longleftrightarrow> inbox_ok 4096 b \<and> (\<forall>c \<in> set (ib_pushed b). known n c) \<and> (\<forall>k. \<forall>c \<in> set (ib_plan b k). known n c)"

lemma known_lane_pop:
  assumes "known_lane n b"
  shows "\<exists>r b'. inbox_pop 4096 b = Some (r, b') \<and> known_lane n b' \<and>
    ib_popped b' = ib_popped b @ (case r of None \<Rightarrow> [] | Some c \<Rightarrow> [c]) \<and> (\<forall>c. r = Some c \<longrightarrow> known n c)"
proof -
  obtain r b' where b': "inbox_pop 4096 b = Some (r, b')" "inbox_ok 4096 b'"
    "ib_popped b' = ib_popped b @ (case r of None \<Rightarrow> [] | Some x \<Rightarrow> [x])"
    "set (ib_pushed b') \<subseteq> set (ib_pushed b) \<union> set (ib_plan b 0)" "ib_plan b' = (\<lambda>i. ib_plan b (Suc i))"
    using inbox_pop_ok [of 4096 b] assms unfolding known_lane_def by blast
  then have k: "known_lane n b'"
    using assms by (fastforce simp: known_lane_def)
  moreover have "known n c" if "r = Some c" for c
    using that b'(2,3) k by (auto simp: known_lane_def inbox_ok_def)
  ultimately show ?thesis
    using b'(1,3) by blast
qed

interpretation seqr: sequencer_rings seq_rings "channel_sent 4096" channel_live channel_delay "channel_sent 16384" "channel_sent 16384"
  channel_live channel_delay ib_popped known_lane
proof (intro sequencer_rings.intro sequencer_rings_axioms.intro)
  show "live_queue (me_push seq_rings) (channel_sent 4096) channel_live channel_delay"
    "live_queue (snap_push seq_rings) (channel_sent 16384) channel_live channel_delay"
    by (simp_all add: seq_rings_def chan.live_queue_axioms)
  show "message_queue (wal_push seq_rings) (channel_sent 16384)"
    by (simp add: seq_rings_def chan.message_queue_axioms)
  show "\<exists>r g'. gw_pop seq_rings g = Some (r, g') \<and> known_lane n g' \<and>
      ib_popped g' = ib_popped g @ (case r of None \<Rightarrow> [] | Some c \<Rightarrow> [c]) \<and> (\<forall>c. r = Some c \<longrightarrow> known n c)" if "known_lane n g" for n g
    using known_lane_pop [OF that] by (simp add: seq_rings_def)
qed

text \<open>Rings as they are at the start, with gateways that send for known engines only and consumers that never stop for good.\<close>

definition fresh_rings ::
  "inbound_command inbox list \<Rightarrow> sequenced_command channel list \<Rightarrow> sequenced_command channel \<Rightarrow> engine_event channel list \<Rightarrow> bool" where
  "fresh_rings gws mes w snaps \<longleftrightarrow>
     (\<forall>g \<in> set gws. \<exists>plan. inbox_new 4096 plan = Some g \<and> (\<forall>k. \<forall>c \<in> set (plan k). known (length mes) c)) \<and>
     (\<forall>q \<in> set mes. \<exists>plan. fair_plan plan \<and> channel_new 4096 plan = Some q) \<and>
     (\<exists>plan. channel_new 16384 plan = Some w) \<and>
     (\<forall>q \<in> set snaps. \<exists>plan. fair_plan plan \<and> channel_new 16384 plan = Some q)"

text \<open>C35: The sequencer is a total order broadcast, given that gateways send only commands for symbols whose engine exists and that
  the engines and snapshot subscribers never stop taking commands for good. Under these two hypotheses, from fresh rings, with a
  snapshot interval that is not 0 and without a halt, and whatever else the gateways send, however the log queue is drained and
  however the clock and the election behave, every turn returns, and the dispatched commands form one list: numbered
  consecutively, each lane's commands in their order in it, each command stamped with the term and the time of a turn as
  leader. Every matching engine has received exactly its part of the list in that order, with increasing numbers until the
  counter wraps; the log queue has a subsequence of the list; all snapshot subscribers have the same markers. A command for a
  symbol without an engine panics the sequencer instead (\<open>unknown_symbol_panics\<close> below).\<close>

theorem sequencer_total_order:
  assumes "fresh_rings gws mes w snaps" "sequencer_new gws mes w snaps config init = Some s" "0 < sqc_snapshot_schedule config"
    "\<forall>env \<in> set envs. \<not> te_halted env"
  shows "\<exists>s' h. sequencer_turns seq_rings s envs = Some s' \<and>
    in_order ib_popped (channel_sent 4096) (channel_sent 16384) (channel_sent 16384) init h s' \<and>
    (\<forall>g \<in> set (sq_gw_inbound s'). prefix (ib_popped g) (ib_pushed g)) \<and>
    subseq (map (\<lambda>(_, c). (sc_term c, sc_ts_ns c)) h) (map (\<lambda>env. (te_term env, te_now_ns env)) (filter te_leader envs)) \<and>
    (unat init + length h < 2 ^ 64 \<longrightarrow> (\<forall>i. sorted_wrt (<) (map sc_seq (engine_part i h))))"
proof -
  have s: "sq_gw_inbound s = gws" "sq_me_inbound s = mes" "sq_wal_out s = w" "sq_snapshot_out s = snaps" "sq_seq s = init"
    "sq_snapshot_schedule s = sqc_snapshot_schedule config"
    using assms(2) by (auto simp: sequencer_new_def split: if_splits)
  have g: "known_lane (length mes) g \<and> ib_popped g = []" if "g \<in> set gws" for g
    using that assms(1) inbox_new_ok by (fastforce simp: fresh_rings_def known_lane_def inbox_new_def)
  have q: "channel_sent 4096 q [] \<and> channel_live q" if "q \<in> set mes" for q
    using that assms(1) channel_new_sent channel_new_live unfolding fresh_rings_def by blast
  have q': "channel_sent 16384 q [] \<and> channel_live q" if "q \<in> set snaps" for q
    using that assms(1) channel_new_sent channel_new_live unfolding fresh_rings_def by blast
  have w: "channel_sent 16384 w []"
    using assms(1) channel_new_sent unfolding fresh_rings_def by blast
  have "in_order ib_popped (channel_sent 4096) (channel_sent 16384) (channel_sent 16384) init [] s"
    using g q q' w s by (auto simp: in_order_def)
  moreover have "(\<forall>g \<in> set (sq_gw_inbound s). known_lane (length (sq_me_inbound s)) g) \<and> (\<forall>q \<in> set (sq_me_inbound s). channel_live q) \<and>
      (\<forall>q \<in> set (sq_snapshot_out s). channel_live q) \<and> 0 < sq_snapshot_schedule s"
    using g q q' s assms(3) by auto
  ultimately obtain s' h where t: "sequencer_turns seq_rings s envs = Some s'" "\<forall>g \<in> set (sq_gw_inbound s'). known_lane (length (sq_me_inbound s')) g"
    "in_order ib_popped (channel_sent 4096) (channel_sent 16384) (channel_sent 16384) init h s'"
    "subseq (map (\<lambda>(_, c). (sc_term c, sc_ts_ns c)) h) (map (\<lambda>env. (te_term env, te_now_ns env)) (filter te_leader envs))"
    using seqr.turns_ok [of s init "[]" envs] assms(4) by auto
  moreover have "\<forall>g \<in> set (sq_gw_inbound s'). prefix (ib_popped g) (ib_pushed g)"
    using t(2) by (auto simp: known_lane_def inbox_ok_def)
  moreover have "sorted_wrt (<) (map sc_seq (engine_part i h))" if "unat init + length h < 2 ^ 64" for i
    using engine_part_sorted [OF _ that] t(3) unfolding in_order_def by blast
  ultimately show ?thesis
    by blast
qed

subsection \<open>Example\<close>

definition ex_lane_plan :: "nat \<Rightarrow> inbound_command list" where
  "ex_lane_plan k = (if k = 0 then [NewOrder 7 1 1 Buy 100 5 Limit Gtc, Cancel 7 3] else if k = 2 then [NewOrder 7 2 0 Sell 101 5 Limit Gtc] else [])"

definition ex_env :: turn_env where
  "ex_env = \<lparr>te_halted = False, te_leader = True, te_term = 3, te_now_ns = 50\<rparr>"

definition ex_seq_config :: sequencer_config where
  "ex_seq_config = \<lparr>sqc_n_symbols = 2, sqc_snapshot_schedule = 2\<rparr>"

lemma ex_channels:
  "channel_new 4096 plan = Some (the (channel_new 4096 plan))" "channel_new 16384 plan = Some (the (channel_new 16384 plan))"
  "inbox_new 4096 lane_plan = Some (the (inbox_new 4096 lane_plan))"
proof -
  have "is_power_of_two 4096" "is_power_of_two 16384"
    by code_simp+
  then show "channel_new 4096 plan = Some (the (channel_new 4096 plan))" "channel_new 16384 plan = Some (the (channel_new 16384 plan))"
    "inbox_new 4096 lane_plan = Some (the (inbox_new 4096 lane_plan))"
    by (simp_all add: channel_new_def inbox_new_def spsc_queue_def)
qed

abbreviation ex_me :: "sequenced_command channel" where
  "ex_me \<equiv> the (channel_new 4096 (\<lambda>i. i mod 2))"

abbreviation ex_snap :: "engine_event channel" where
  "ex_snap \<equiv> the (channel_new 16384 (\<lambda>i. i mod 2))"

lemma fair_mod2: "fair_plan (\<lambda>i. i mod 2)"
  unfolding fair_plan_def
proof
  fix n :: nat
  show "\<exists>m\<ge>n. 0 < m mod 2"
    by (rule exI [of _ "2 * n + 1"]) simp
qed

lemma ex_fresh:
  "fresh_rings [the (inbox_new 4096 ex_lane_plan)] [ex_me, ex_me] (the (channel_new 16384 (\<lambda>_. 0))) [ex_snap]"
proof -
  have "\<forall>k. \<forall>c \<in> set (ex_lane_plan k). known 2 c"
    by (simp add: ex_lane_plan_def known_def)
  then have "\<exists>plan. inbox_new 4096 plan = Some (the (inbox_new 4096 ex_lane_plan)) \<and> (\<forall>k. \<forall>c \<in> set (plan k). known 2 c)"
    using ex_channels(3) [of ex_lane_plan] by blast
  moreover have "\<exists>plan. fair_plan plan \<and> channel_new 4096 plan = Some ex_me" "\<exists>plan. fair_plan plan \<and> channel_new 16384 plan = Some ex_snap"
    "\<exists>plan. channel_new 16384 plan = Some (the (channel_new 16384 (\<lambda>_. 0)))"
    using ex_channels(1,2) fair_mod2 by blast+
  ultimately show ?thesis
    by (simp add: fresh_rings_def numeral_2_eq_2)
qed

theorem sequencer_total_order_witness:
  "\<exists>s' h. sequencer_turns seq_rings
      (the (sequencer_new [the (inbox_new 4096 ex_lane_plan)] [ex_me, ex_me] (the (channel_new 16384 (\<lambda>_. 0))) [ex_snap] ex_seq_config 41))
      (replicate 4 ex_env) = Some s' \<and>
    in_order ib_popped (channel_sent 4096) (channel_sent 16384) (channel_sent 16384) 41 h s' \<and>
    (unat (41 :: u64) + length h < 2 ^ 64 \<longrightarrow> (\<forall>i. sorted_wrt (<) (map sc_seq (engine_part i h))))"
proof -
  let ?s = "sequencer_new [the (inbox_new 4096 ex_lane_plan)] [ex_me, ex_me] (the (channel_new 16384 (\<lambda>_. 0))) [ex_snap] ex_seq_config 41"
  have "?s = Some (the ?s)"
    by (simp add: sequencer_new_def ex_seq_config_def)
  from sequencer_total_order [OF ex_fresh this, of "replicate 4 ex_env"] show ?thesis
    by (auto simp: ex_seq_config_def ex_env_def)
qed

subsection \<open>Where the sequencer and its documentation differ\<close>

text \<open>A session takes an order for any instrument below 65536, but an instrument without an engine ends the sequencer: the index
  into \<open>me_inbound\<close> panics in the turn that pops the command, after it went to the log queue.\<close>

lemma unknown_symbol_panics:
  assumes "cmd_symbol cmd = Some sy" "length (sq_me_inbound s) \<le> unat sy"
  shows "dispatch ops env s cmd = None"
proof (cases "wal_push ops (sq_wal_out s) \<lparr>sc_term = te_term env, sc_seq = sq_seq s + 1, sc_ts_ns = te_now_ns env, sc_cmd = cmd\<rparr>")
  case (Some x)
  then show ?thesis
    using assms by (cases x) (simp add: dispatch_def route_command_def Let_def)
qed (simp add: dispatch_def Let_def)

text \<open>One authenticated client can send such an order.\<close>

lemma gateway_takes_unknown_symbol:
  "map_option (\<lambda>(_, q, _). q) (connection_reads (\<lambda>_. True) list_lane 1 [] [Some ex_auth,
      Some ([36, 0, 0, 0, 1] @ order_payload \<lparr>no_account_id = 7, no_instrument_id = 2000, no_client_order_id = 1, no_side = Buy,
        no_price = 105, no_order_type = Limit, no_qty = 3, no_time_in_force = Gtc\<rparr>)]) =
    Some [NewOrder 7 1 2000 Buy 105 3 Limit Gtc]"
  "\<not> known max_symbols (NewOrder 7 1 2000 Buy 105 3 Limit Gtc)"
  by code_simp+

text \<open>No engine ever receives a \<open>FreezeAccount\<close>.\<close>

lemma freeze_not_routed: "filter (routed i \<circ> sc_cmd) [c \<leftarrow> cs. \<exists>a. sc_cmd c = FreezeAccount a] = []"
  by (induction cs) (auto simp: routed_def)

end
