(* ===== verification/Failover.thy ===== *)
theory Failover
  imports Bytes Snapshot Traces
begin

text \<open>
  Leader election and the standby (\<open>failover.rs\<close>, \<open>standby.rs\<close>). The contenders are processes, numbered; each runs its election
  thread, whose steps are the single system calls and atomic stores it makes, in any interleaving with the others. The lock on
  the lease file is the operating system's: one holder at a time, released when its holder unlocks it or dies. The eight bytes
  of the term are written by one system call, all or none; the sync after it may fail. A panic of the election thread ends
  the thread where panics unwind, and the process, like a crash, where they abort.
\<close>

subsection \<open>The lease file and the role\<close>

datatype role = Standby | Leader

definition read_term :: "byte list \<Rightarrow> u64" where
  "read_term file = (if 8 \<le> length file then from_le_bytes (take 8 file) else 0)"

definition write_term :: "byte list \<Rightarrow> u64 \<Rightarrow> byte list" where
  "write_term file t = to_le_bytes 8 t @ drop 8 file"

record role_handle =
  rh_role :: role
  rh_term :: u64

definition is_leader :: "role_handle \<Rightarrow> bool" where
  "is_leader h \<longleftrightarrow> rh_role h = Leader"

definition for_test_leader :: role_handle where
  "for_test_leader = \<lparr>rh_role = Leader, rh_term = 1\<rparr>"

subsection \<open>The election\<close>

text \<open>Where the election thread of a process is: about to check the shutdown flag, about to try the lock, holding it before and after the read of the term, after its
  write, after the store of the term in the handle, parked until the shutdown, at its end; or the process is dead.\<close>

datatype election_pc = Polling | Checked | Locked | HasRead u64 | HasWritten u64 | TermStored | Parked | Stopped | Dead

record process =
  pr_pc :: election_pc
  pr_handle :: role_handle
  pr_shutdown :: bool

definition spawn :: process where
  "spawn = \<lparr>pr_pc = Polling, pr_handle = \<lparr>rh_role = Standby, rh_term = 0\<rparr>, pr_shutdown = False\<rparr>"

record lease_sys =
  ls_file :: "byte list"
  ls_holder :: "nat option"
  ls_procs :: "nat \<Rightarrow> process"

definition lease_start :: "byte list \<Rightarrow> lease_sys" where
  "lease_start file = \<lparr>ls_file = file, ls_holder = None, ls_procs = \<lambda>_. spawn\<rparr>"

definition set_proc :: "nat \<Rightarrow> process \<Rightarrow> lease_sys \<Rightarrow> lease_sys" where
  "set_proc i p s = s\<lparr>ls_procs := (ls_procs s)(i := p)\<rparr>"

definition unlock :: "nat \<Rightarrow> lease_sys \<Rightarrow> lease_sys" where
  "unlock i s = (if ls_holder s = Some i then s\<lparr>ls_holder := None\<rparr> else s)"

text \<open>\<open>FileLeaseBackend::acquire\<close> and \<open>release\<close>. A failure to open the file, to write the term or to sync it panics: the thread ends
  and its file is closed, in the last case with the new term in the file.\<close>

inductive acquire_step :: "nat \<Rightarrow> lease_sys \<Rightarrow> lease_sys \<Rightarrow> bool" for i s where
  acq_shutdown: "ls_procs s i = p \<Longrightarrow> pr_pc p = Polling \<Longrightarrow> pr_shutdown p \<Longrightarrow> acquire_step i s (set_proc i (p\<lparr>pr_pc := Parked\<rparr>) s)"
| acq_check: "ls_procs s i = p \<Longrightarrow> pr_pc p = Polling \<Longrightarrow> \<not> pr_shutdown p \<Longrightarrow> acquire_step i s (set_proc i (p\<lparr>pr_pc := Checked\<rparr>) s)"
| acq_open_fails: "ls_procs s i = p \<Longrightarrow> pr_pc p = Checked \<Longrightarrow> acquire_step i s (set_proc i (p\<lparr>pr_pc := Stopped\<rparr>) s)"
| acq_lock: "ls_procs s i = p \<Longrightarrow> pr_pc p = Checked \<Longrightarrow> ls_holder s = None \<Longrightarrow>
    acquire_step i s (set_proc i (p\<lparr>pr_pc := Locked\<rparr>) (s\<lparr>ls_holder := Some i\<rparr>))"
| acq_busy: "ls_procs s i = p \<Longrightarrow> pr_pc p = Checked \<Longrightarrow> ls_holder s = Some j \<Longrightarrow> acquire_step i s (set_proc i (p\<lparr>pr_pc := Polling\<rparr>) s)"
| acq_read: "ls_procs s i = p \<Longrightarrow> pr_pc p = Locked \<Longrightarrow> acquire_step i s (set_proc i (p\<lparr>pr_pc := HasRead (read_term (ls_file s) + 1)\<rparr>) s)"
| acq_write: "ls_procs s i = p \<Longrightarrow> pr_pc p = HasRead t \<Longrightarrow>
    acquire_step i s (set_proc i (p\<lparr>pr_pc := HasWritten t\<rparr>) (s\<lparr>ls_file := write_term (ls_file s) t\<rparr>))"
| acq_write_fails: "ls_procs s i = p \<Longrightarrow> pr_pc p = HasRead t \<Longrightarrow> acquire_step i s (unlock i (set_proc i (p\<lparr>pr_pc := Stopped\<rparr>) s))"
| acq_sync_fails: "ls_procs s i = p \<Longrightarrow> pr_pc p = HasRead t \<Longrightarrow>
    acquire_step i s (unlock i (set_proc i (p\<lparr>pr_pc := Stopped\<rparr>) (s\<lparr>ls_file := write_term (ls_file s) t\<rparr>)))"

text \<open>The election thread around them, the drop of the controller, and the death of the process.\<close>

inductive lease_step :: "lease_sys \<Rightarrow> nat \<Rightarrow> lease_sys \<Rightarrow> bool" for s i where
  acquire: "acquire_step i s s' \<Longrightarrow> lease_step s i s'"
| store_term: "ls_procs s i = p \<Longrightarrow> pr_pc p = HasWritten t \<Longrightarrow>
    lease_step s i (set_proc i (p\<lparr>pr_pc := TermStored, pr_handle := (pr_handle p)\<lparr>rh_term := t\<rparr>\<rparr>) s)"
| store_role: "ls_procs s i = p \<Longrightarrow> pr_pc p = TermStored \<Longrightarrow>
    lease_step s i (set_proc i (p\<lparr>pr_pc := Parked, pr_handle := (pr_handle p)\<lparr>rh_role := Leader\<rparr>\<rparr>) s)"
| shutdown: "ls_procs s i = p \<Longrightarrow> pr_pc p \<noteq> Dead \<Longrightarrow> lease_step s i (set_proc i (p\<lparr>pr_shutdown := True\<rparr>) s)"
| release: "ls_procs s i = p \<Longrightarrow> pr_pc p = Parked \<Longrightarrow> pr_shutdown p \<Longrightarrow> lease_step s i (unlock i (set_proc i (p\<lparr>pr_pc := Stopped\<rparr>) s))"
| crash: "ls_procs s i = p \<Longrightarrow> lease_step s i (unlock i (set_proc i (p\<lparr>pr_pc := Dead\<rparr>) s))"

text \<open>The processes whose sequencer dispatches: alive, with a handle that says leader.\<close>

definition leads :: "lease_sys \<Rightarrow> nat \<Rightarrow> bool" where
  "leads s i \<longleftrightarrow> pr_pc (ls_procs s i) \<noteq> Dead \<and> is_leader (pr_handle (ls_procs s i))"

definition stepped_down :: "lease_sys \<Rightarrow> nat \<Rightarrow> bool" where
  "stepped_down s i \<longleftrightarrow> pr_pc (ls_procs s i) = Stopped"

subsection \<open>The standby (standby.rs)\<close>

record standby_replicator =
  sb_shard_id :: u32
  sb_last_seq :: u64
  sb_highest_term :: u64

definition standby_new :: "u32 \<Rightarrow> standby_replicator" where
  "standby_new shard_id = \<lparr>sb_shard_id = shard_id, sb_last_seq = 0, sb_highest_term = 0\<rparr>"

definition poll_once ::
  "wal_deps \<Rightarrow> (unit + byte list) option \<Rightarrow> snap_dir \<Rightarrow> standby_replicator \<Rightarrow> (recovery_error + u64) \<times> standby_replicator" where
  "poll_once deps wal d sb =
     (case recover deps wal d (sb_shard_id sb) of
        Inl e \<Rightarrow> (Inl e, sb)
      | Inr out \<Rightarrow>
          if ro_highest_term out < sb_highest_term sb then (Inr (sb_last_seq sb), sb)
          else
            let sb = sb\<lparr>sb_highest_term := ro_highest_term out\<rparr>;
                sb = (if sb_last_seq sb < ro_last_recovered_seq out then sb\<lparr>sb_last_seq := ro_last_recovered_seq out\<rparr> else sb) in
            (Inr (sb_last_seq sb), sb))"

text \<open>The polling loop, over what each pass finds: the role, the log and the snapshots. \<open>None\<close>: not promoted yet.\<close>

fun run_until_promoted ::
  "wal_deps \<Rightarrow> (role_handle \<times> (unit + byte list) option \<times> snap_dir) list \<Rightarrow> standby_replicator \<Rightarrow> u64 option" where
  "run_until_promoted deps [] sb = None"
| "run_until_promoted deps ((h, wal, d) # views) sb =
     (let sb = snd (poll_once deps wal d sb) in
      if is_leader h then Some (sb_last_seq sb) else run_until_promoted deps views sb)"

end
