(* ===== verification/Failover_Props.thy ===== *)
theory Failover_Props
  imports Failover Snapshot_Props
begin

text \<open>
  What the election guarantees: leaders have distinct terms, the holder of the lease has the greatest one, and of the leaders that
  have not stepped down there is at most one.
\<close>

subsection \<open>The invariant of the election\<close>

lemma read_write_term [simp]: "read_term (write_term file t) = t"
  by (simp add: read_term_def write_term_def from_to_le_bytes)

definition lease_term :: "lease_sys \<Rightarrow> u64" where
  "lease_term s = read_term (ls_file s)"

definition proc_leads :: "process \<Rightarrow> bool" where
  "proc_leads p \<longleftrightarrow> pr_pc p = Parked \<and> is_leader (pr_handle p)"

text \<open>The process holds the lock; it has written a term that is the file's.\<close>

definition has_lock :: "process \<Rightarrow> bool" where
  "has_lock p \<longleftrightarrow> proc_leads p \<or> (case pr_pc p of Locked \<Rightarrow> True | HasRead _ \<Rightarrow> True | HasWritten _ \<Rightarrow> True | TermStored \<Rightarrow> True | _ \<Rightarrow> False)"

definition has_term :: "process \<Rightarrow> bool" where
  "has_term p \<longleftrightarrow> proc_leads p \<or> (case pr_pc p of HasWritten _ \<Rightarrow> True | TermStored \<Rightarrow> True | _ \<Rightarrow> False)"

text \<open>What a process with the lease file at term \<open>t\<close> satisfies by itself.\<close>

definition proc_ok :: "u64 \<Rightarrow> process \<Rightarrow> bool" where
  "proc_ok t p \<longleftrightarrow> rh_term (pr_handle p) \<le> t \<and>
     (is_leader (pr_handle p) \<longrightarrow> rh_term (pr_handle p) \<noteq> 0) \<and>
     (proc_leads p \<longrightarrow> rh_term (pr_handle p) = t) \<and>
     (case pr_pc p of
        HasRead u \<Rightarrow> u = t + 1 \<and> \<not> is_leader (pr_handle p) \<and> rh_term (pr_handle p) = 0
      | HasWritten u \<Rightarrow> u = t \<and> t \<noteq> 0 \<and> \<not> is_leader (pr_handle p) \<and> rh_term (pr_handle p) = 0
      | TermStored \<Rightarrow> rh_term (pr_handle p) = t \<and> t \<noteq> 0 \<and> \<not> is_leader (pr_handle p)
      | Polling \<Rightarrow> \<not> is_leader (pr_handle p) \<and> rh_term (pr_handle p) = 0
      | Checked \<Rightarrow> \<not> is_leader (pr_handle p) \<and> rh_term (pr_handle p) = 0
      | Locked \<Rightarrow> \<not> is_leader (pr_handle p) \<and> rh_term (pr_handle p) = 0
      | _ \<Rightarrow> True)"

lemma shutdown_only [simp]:
  "proc_ok t (p\<lparr>pr_shutdown := b\<rparr>) = proc_ok t p" "has_lock (p\<lparr>pr_shutdown := b\<rparr>) = has_lock p" "has_term (p\<lparr>pr_shutdown := b\<rparr>) = has_term p"
  by (simp_all add: proc_ok_def has_lock_def has_term_def proc_leads_def split: election_pc.split)

lemma proc_ended:
  assumes "pc = Stopped \<or> pc = Dead"
  shows "proc_ok t p \<Longrightarrow> proc_ok t (p\<lparr>pr_pc := pc\<rparr>)" "\<not> has_lock (p\<lparr>pr_pc := pc\<rparr>)" "\<not> has_term (p\<lparr>pr_pc := pc\<rparr>)"
  using assms by (auto simp: proc_ok_def has_lock_def has_term_def proc_leads_def)

lemma has_term_lock: "has_term p \<Longrightarrow> has_lock p"
  by (cases "pr_pc p") (simp_all add: has_term_def has_lock_def)

abbreviation term_of :: "lease_sys \<Rightarrow> nat \<Rightarrow> u64" where
  "term_of s i \<equiv> rh_term (pr_handle (ls_procs s i))"

definition lease_inv :: "lease_sys \<Rightarrow> bool" where
  "lease_inv s \<longleftrightarrow> (\<forall>i. proc_ok (lease_term s) (ls_procs s i)) \<and>
     (\<forall>i. has_lock (ls_procs s i) \<longleftrightarrow> ls_holder s = Some i) \<and>
     (\<forall>i j. i \<noteq> j \<longrightarrow> has_term (ls_procs s i) \<longrightarrow> term_of s j < lease_term s) \<and>
     (\<forall>i j. i \<noteq> j \<longrightarrow> term_of s i = term_of s j \<longrightarrow> term_of s i = 0)"

lemma lease_start_inv: "lease_inv (lease_start file)"
  by (auto simp: lease_inv_def lease_start_def spawn_def proc_ok_def has_lock_def has_term_def proc_leads_def is_leader_def)

text \<open>A step of process \<open>i\<close> that leaves the file alone keeps the invariant when what it changes in the process agrees with what it
  changes in the lock, and the term in the handle only changes to the file's.\<close>

lemma lease_inv_proc:
  assumes "lease_inv s" "proc_ok (lease_term s) p" "ls_file s' = ls_file s" "ls_procs s' = (ls_procs s)(i := p)"
    "has_lock p \<longleftrightarrow> ls_holder s' = Some i" "\<And>j. j \<noteq> i \<Longrightarrow> ls_holder s' = Some j \<longleftrightarrow> ls_holder s = Some j"
    "has_term p \<Longrightarrow> has_term (ls_procs s i)"
    "rh_term (pr_handle p) = term_of s i \<or> (has_term (ls_procs s i) \<and> rh_term (pr_handle p) = lease_term s)"
  shows "lease_inv s'"
proof -
  note inv = assms(1) [unfolded lease_inv_def]
  have t: "lease_term s' = lease_term s"
    using assms(3) by (simp add: lease_term_def)
  have below: "rh_term (pr_handle p) < lease_term s" if "j \<noteq> i" "has_term (ls_procs s j)" for j
  proof -
    have "\<not> has_term (ls_procs s i)"
      using inv that has_term_lock by (metis option.inject)
    then show ?thesis
      using inv that assms(8) by auto
  qed
  have distinct: "rh_term (pr_handle p) = 0" "term_of s j = 0" if "j \<noteq> i" "rh_term (pr_handle p) = term_of s j" for j
    using inv that assms(8) by (metis order_less_irrefl)+
  show ?thesis
    unfolding lease_inv_def t assms(4)
  proof (intro conjI allI impI)
    fix j k
    show "proc_ok (lease_term s) (((ls_procs s)(i := p)) j)" "has_lock (((ls_procs s)(i := p)) j) \<longleftrightarrow> ls_holder s' = Some j"
      using inv assms(2,5,6) by auto
    show "rh_term (pr_handle (((ls_procs s)(i := p)) k)) < lease_term s" if "j \<noteq> k" "has_term (((ls_procs s)(i := p)) j)"
      using inv that below assms(7) by (auto split: if_splits)
    show "rh_term (pr_handle (((ls_procs s)(i := p)) j)) = 0"
      if "j \<noteq> k" "rh_term (pr_handle (((ls_procs s)(i := p)) j)) = rh_term (pr_handle (((ls_procs s)(i := p)) k))"
      using inv that distinct(1) [of k] distinct(2) [of j] by (auto split: if_splits)
  qed
qed

text \<open>The write of the next term: everyone else is now below it.\<close>

lemma lease_inv_write:
  assumes "lease_inv s" "pr_pc (ls_procs s i) = HasRead t" "lease_term s \<noteq> -1"
  shows "lease_inv (set_proc i ((ls_procs s i)\<lparr>pr_pc := HasWritten t\<rparr>) (s\<lparr>ls_file := write_term (ls_file s) t\<rparr>))" (is "lease_inv ?s")
proof -
  note inv = assms(1) [unfolded lease_inv_def]
  let ?p = "ls_procs s i"
  have i: "t = lease_term s + 1" "\<not> is_leader (pr_handle ?p)" "rh_term (pr_handle ?p) = 0" "has_lock ?p"
    using inv [THEN conjunct1, rule_format, of i] assms(2) by (auto simp: proc_ok_def has_lock_def)
  have "1 + lease_term s \<noteq> 0"
    using assms(3) by (metis add.commute eq_neg_iff_add_eq_0)
  then have lt: "x < t" if "x \<le> lease_term s" for x
    using that unatSuc [of "lease_term s"] i(1) by (simp add: word_less_nat_alt word_le_nat_alt add.commute)
  have T: "lease_term ?s = t"
    by (simp add: lease_term_def set_proc_def)
  have others: "\<not> has_lock (ls_procs s j)" if "j \<noteq> i" for j
    using inv i(4) that by auto
  have le: "term_of s j \<le> lease_term s" for j
    using inv by (auto simp: proc_ok_def)
  have "proc_ok t (ls_procs s j)" if "j \<noteq> i" for j
    using inv [THEN conjunct1, rule_format, of j] others [OF that] lt [OF le [of j]]
    by (cases "pr_pc (ls_procs s j)") (auto simp: proc_ok_def has_lock_def proc_leads_def)
  moreover have "proc_ok t (?p\<lparr>pr_pc := HasWritten t\<rparr>)"
    using i lt [OF le [of i]] by (auto simp: proc_ok_def proc_leads_def)
  moreover have "has_lock (?p\<lparr>pr_pc := HasWritten t\<rparr>)"
    by (simp add: has_lock_def)
  ultimately show ?thesis
    unfolding lease_inv_def T using inv others has_term_lock i(3,4) lt [OF le] lt [OF word_zero_le] by (auto simp: set_proc_def)
qed

lemma acquire_step_inv:
  assumes "acquire_step i s s'" "lease_inv s" "lease_term s \<noteq> -1"
  shows "lease_inv s'"
proof -
  note inv = assms(2) [unfolded lease_inv_def]
  have p: "proc_ok (lease_term s) (ls_procs s i)" "has_lock (ls_procs s i) \<longleftrightarrow> ls_holder s = Some i"
    using inv by auto
  note defs = proc_ok_def has_lock_def has_term_def proc_leads_def is_leader_def
  note step = lease_inv_proc [OF assms(2), where i = i]
  show ?thesis
    using assms(1)
  proof cases
    case (acq_shutdown p)
    with p show ?thesis
      by (intro step [of "p\<lparr>pr_pc := Parked\<rparr>"]) (simp_all add: set_proc_def defs)
  next
    case (acq_check p)
    with p show ?thesis
      by (intro step [of "p\<lparr>pr_pc := Checked\<rparr>"]) (simp_all add: set_proc_def defs)
  next
    case (acq_open_fails p)
    with p show ?thesis
      by (intro step [of "p\<lparr>pr_pc := Stopped\<rparr>"]) (simp_all add: set_proc_def defs)
  next
    case (acq_lock p)
    with p show ?thesis
      by (intro step [of "p\<lparr>pr_pc := Locked\<rparr>"]) (simp_all add: set_proc_def defs)
  next
    case (acq_busy p j)
    with p show ?thesis
      by (intro step [of "p\<lparr>pr_pc := Polling\<rparr>"]) (simp_all add: set_proc_def defs)
  next
    case (acq_read p)
    with p show ?thesis
      by (intro step [of "p\<lparr>pr_pc := HasRead (read_term (ls_file s) + 1)\<rparr>"]) (simp_all add: set_proc_def lease_term_def defs)
  next
    case (acq_write p t)
    then show ?thesis
      using lease_inv_write [OF assms(2) _ assms(3)] by metis
  next
    case (acq_write_fails p t)
    with p show ?thesis
      by (intro step [of "p\<lparr>pr_pc := Stopped\<rparr>"]) (simp_all add: set_proc_def unlock_def proc_ended)
  next
    case (acq_sync_fails p t)
    let ?s = "set_proc i (p\<lparr>pr_pc := HasWritten t\<rparr>) (s\<lparr>ls_file := write_term (ls_file s) t\<rparr>)"
    have w: "lease_inv ?s"
      using acq_sync_fails lease_inv_write [OF assms(2) _ assms(3)] by metis
    then have "proc_ok (lease_term ?s) (ls_procs ?s i)"
      unfolding lease_inv_def by blast
    then have "proc_ok (lease_term ?s) (p\<lparr>pr_pc := HasWritten t\<rparr>)"
      by (simp add: set_proc_def)
    then have "proc_ok (lease_term ?s) (p\<lparr>pr_pc := Stopped\<rparr>)"
      using proc_ended(1) [of Stopped "lease_term ?s" "p\<lparr>pr_pc := HasWritten t\<rparr>"] by simp
    then show ?thesis
      using acq_sync_fails by (intro lease_inv_proc [OF w, where i = i and p = "p\<lparr>pr_pc := Stopped\<rparr>"])
        (simp_all add: set_proc_def unlock_def proc_ended)
  qed
qed

lemma lease_step_inv:
  assumes "lease_step s i s'" "lease_inv s" "lease_term s \<noteq> -1"
  shows "lease_inv s'"
proof -
  have p: "proc_ok (lease_term s) (ls_procs s i)" "has_lock (ls_procs s i) \<longleftrightarrow> ls_holder s = Some i"
    using assms(2) by (auto simp: lease_inv_def)
  note defs = proc_ok_def has_lock_def has_term_def proc_leads_def is_leader_def
  note step = lease_inv_proc [OF assms(2), where i = i]
  show ?thesis
    using assms(1)
  proof cases
    case acquire
    then show ?thesis
      using acquire_step_inv assms(2,3) by blast
  next
    case (store_term p t)
    with p show ?thesis
      by (intro step [of "p\<lparr>pr_pc := TermStored, pr_handle := (pr_handle p)\<lparr>rh_term := t\<rparr>\<rparr>"]) (simp_all add: set_proc_def defs)
  next
    case (store_role p)
    with p show ?thesis
      by (intro step [of "p\<lparr>pr_pc := Parked, pr_handle := (pr_handle p)\<lparr>rh_role := Leader\<rparr>\<rparr>"]) (simp_all add: set_proc_def defs)
  next
    case (shutdown p)
    with p show ?thesis
      by (intro step [of "p\<lparr>pr_shutdown := True\<rparr>"]) (simp_all add: set_proc_def)
  next
    case (release p)
    with p show ?thesis
      by (intro step [of "p\<lparr>pr_pc := Stopped\<rparr>"]) (simp_all add: set_proc_def unlock_def proc_ended)
  next
    case (crash p)
    with p show ?thesis
      by (intro step [of "p\<lparr>pr_pc := Dead\<rparr>"]) (simp_all add: set_proc_def unlock_def proc_ended)
  qed
qed

lemma lease_step_term:
  assumes "lease_step s i s'" "lease_inv s"
  shows "lease_term s' = lease_term s \<or> lease_term s' = lease_term s + 1"
proof -
  have "proc_ok (lease_term s) (ls_procs s i)"
    using assms(2) by (auto simp: lease_inv_def)
  moreover have "ls_file s' = ls_file s \<or> (\<exists>t. pr_pc (ls_procs s i) = HasRead t \<and> ls_file s' = write_term (ls_file s) t)"
    using assms(1) by (cases rule: lease_step.cases) (auto simp: set_proc_def unlock_def elim!: acquire_step.cases)
  ultimately show ?thesis
    by (auto simp: proc_ok_def lease_term_def)
qed

text \<open>The terms do not wrap in a run that is short enough for that.\<close>

lemma trace_lease_inv:
  assumes "trace lease_step (lease_start file) ls s" "unat (read_term file) + length ls < 2 ^ 64"
  shows "lease_inv s"
proof -
  define I where "I ls s \<longleftrightarrow> (unat (read_term file) + length ls < 2 ^ 64 \<longrightarrow>
    lease_inv s \<and> unat (lease_term s) \<le> unat (read_term file) + length ls)" for ls :: "nat list" and s
  have "I ls s"
  proof (rule trace_invariant [OF assms(1)])
    show "I [] (lease_start file)"
      using lease_start_inv by (simp add: I_def lease_term_def lease_start_def)
  next
    fix ls s i s'
    assume I: "I ls s" and step: "lease_step s i s'"
    show "I (ls @ [i]) s'"
      unfolding I_def
    proof
      assume b: "unat (read_term file) + length (ls @ [i]) < 2 ^ 64"
      then have s: "lease_inv s" "unat (lease_term s) \<le> unat (read_term file) + length ls"
        using I by (auto simp: I_def)
      have "unat (lease_term s) + 1 < 2 ^ 64"
        using s(2) b by simp
      then have "unat (lease_term s) \<noteq> unat (-1 :: u64)"
        by (simp add: unsigned_minus_1_eq_mask mask_eq_exp_minus_1)
      then have "lease_term s \<noteq> -1"
        by auto
      moreover have "unat (lease_term s + 1) = Suc (unat (lease_term s))"
        using calculation unatSuc [of "lease_term s"] by (metis add.commute eq_neg_iff_add_eq_0)
      ultimately show "lease_inv s' \<and> unat (lease_term s') \<le> unat (read_term file) + length (ls @ [i])"
        using lease_step_inv [OF step s(1)] lease_step_term [OF step s(1)] s(2) by auto
    qed
  qed
  then show ?thesis
    using assms(2) by (simp add: I_def)
qed

text \<open>C39: Fencing and leadership. Whatever processes contend for the lease, crash, fail to write or step down, in any order: two
  processes whose handles say leader have different terms; the one that has not stepped down is unique, it holds the lock, the
  file has its term, and every other process has a smaller one.\<close>

theorem election_fences_leaders:
  assumes "trace lease_step (lease_start file) ls s" "unat (read_term file) + length ls < 2 ^ 64" "leads s i"
  shows "(\<forall>j. leads s j \<longrightarrow> j \<noteq> i \<longrightarrow> rh_term (pr_handle (ls_procs s j)) \<noteq> rh_term (pr_handle (ls_procs s i))) \<and>
    (\<not> stepped_down s i \<longrightarrow> ls_holder s = Some i \<and> rh_term (pr_handle (ls_procs s i)) = read_term (ls_file s) \<and>
       (\<forall>j. j \<noteq> i \<longrightarrow> rh_term (pr_handle (ls_procs s j)) < rh_term (pr_handle (ls_procs s i))) \<and>
       (\<forall>j. leads s j \<longrightarrow> \<not> stepped_down s j \<longrightarrow> j = i))"
proof -
  note inv = trace_lease_inv [OF assms(1,2), unfolded lease_inv_def]
  have ok: "proc_ok (lease_term s) (ls_procs s j)" for j
    using inv by blast
  have nz: "term_of s j \<noteq> 0" if "leads s j" for j
    using ok [of j] that by (auto simp: proc_ok_def leads_def)
  have parked: "proc_leads (ls_procs s j)" if "leads s j" "\<not> stepped_down s j" for j
    using ok [of j] that by (cases "pr_pc (ls_procs s j)") (auto simp: proc_ok_def leads_def stepped_down_def proc_leads_def)
  have t: "has_term (ls_procs s j)" "term_of s j = lease_term s" if "leads s j" "\<not> stepped_down s j" for j
    using parked [OF that] ok [of j] by (auto simp: has_term_def proc_ok_def)
  have h: "ls_holder s = Some j" if "leads s j" "\<not> stepped_down s j" for j
    using has_term_lock [OF t(1) [OF that]] inv by blast
  have "term_of s j \<noteq> term_of s i" if "j \<noteq> i" for j
    using inv [THEN conjunct2, THEN conjunct2, THEN conjunct2, rule_format, of i j] nz [OF assms(3)] that by auto
  moreover have "term_of s j < term_of s i" if "\<not> stepped_down s i" "j \<noteq> i" for j
    using inv [THEN conjunct2, THEN conjunct2, THEN conjunct1, rule_format, of i j] t [OF assms(3) that(1)] that(2) by simp
  moreover have "j = i" if "leads s j" "\<not> stepped_down s j" "\<not> stepped_down s i" for j
    using h [OF that(1,2)] h [OF assms(3) that(3)] by simp
  ultimately show ?thesis
    using h [OF assms(3)] t(2) [OF assms(3)] unfolding lease_term_def by blast
qed

subsection \<open>Example\<close>

definition leader_at :: "u64 \<Rightarrow> process" where
  "leader_at t = \<lparr>pr_pc = Parked, pr_handle = \<lparr>rh_role = Leader, rh_term = t\<rparr>, pr_shutdown = False\<rparr>"

text \<open>The six steps to leadership of a fresh process.\<close>

lemma win_election:
  assumes "ls_procs s i = spawn" "ls_holder s = None"
  shows "trace lease_step s [i, i, i, i, i, i]
    \<lparr>ls_file = write_term (ls_file s) (read_term (ls_file s) + 1), ls_holder = Some i,
     ls_procs = (ls_procs s)(i := leader_at (read_term (ls_file s) + 1))\<rparr>"
proof -
  let ?t = "read_term (ls_file s) + 1"
  let ?p = "\<lambda>pc. spawn\<lparr>pr_pc := pc\<rparr>"
  let ?s1 = "set_proc i (?p Checked) s"
  let ?s2 = "set_proc i (?p Locked) (?s1\<lparr>ls_holder := Some i\<rparr>)"
  let ?s3 = "set_proc i (?p (HasRead ?t)) ?s2"
  let ?s4 = "set_proc i (?p (HasWritten ?t)) (?s3\<lparr>ls_file := write_term (ls_file s) ?t\<rparr>)"
  let ?q = "(?p TermStored)\<lparr>pr_handle := \<lparr>rh_role = Standby, rh_term = ?t\<rparr>\<rparr>"
  let ?s5 = "set_proc i ?q ?s4"
  let ?s6 = "set_proc i (leader_at ?t) ?s5"
  have a1: "lease_step s i ?s1"
    using acq_check [of s i spawn] assms by (intro acquire) (simp add: spawn_def)
  have a2: "lease_step ?s1 i ?s2"
    using acq_lock [of ?s1 i "?p Checked"] assms by (intro acquire) (simp add: spawn_def set_proc_def)
  have a3: "lease_step ?s2 i ?s3"
    using acq_read [of ?s2 i "?p Locked"] by (intro acquire) (simp add: spawn_def set_proc_def)
  have a4: "lease_step ?s3 i ?s4"
    using acq_write [of ?s3 i "?p (HasRead ?t)" ?t] by (intro acquire) (simp add: spawn_def set_proc_def)
  have a5: "lease_step ?s4 i ?s5"
    using store_term [of ?s4 i "?p (HasWritten ?t)" ?t] by (simp add: spawn_def set_proc_def)
  have a6: "lease_step ?s5 i ?s6"
    using store_role [of ?s5 i ?q] by (simp add: spawn_def set_proc_def leader_at_def)
  have "trace lease_step s [i, i, i, i, i, i] ?s6"
    using trace_step [of lease_step, OF a6] by (intro trace_Cons [of lease_step, OF a1] trace_Cons [of lease_step, OF a2]
        trace_Cons [of lease_step, OF a3] trace_Cons [of lease_step, OF a4] trace_Cons [of lease_step, OF a5])
  moreover have "?s6 = \<lparr>ls_file = write_term (ls_file s) ?t, ls_holder = Some i, ls_procs = (ls_procs s)(i := leader_at ?t)\<rparr>"
    by (simp add: set_proc_def)
  ultimately show ?thesis
    by simp
qed

text \<open>Process 0 leads with term 1, then ends with \<open>pc\<close> and without the lock; process 1 leads with term 2.\<close>

definition takeover :: "process \<Rightarrow> lease_sys" where
  "takeover p = \<lparr>ls_file = write_term (write_term [] 1) 2, ls_holder = Some 1, ls_procs = (\<lambda>_. spawn)(0 := p, 1 := leader_at 2)\<rparr>"

lemma takeover_run:
  assumes "trace lease_step \<lparr>ls_file = write_term [] 1, ls_holder = Some 0, ls_procs = (\<lambda>_. spawn)(0 := leader_at 1)\<rparr> ls
    \<lparr>ls_file = write_term [] 1, ls_holder = None, ls_procs = (\<lambda>_. spawn)(0 := p)\<rparr>"
  shows "trace lease_step (lease_start []) ([0, 0, 0, 0, 0, 0] @ ls @ [1, 1, 1, 1, 1, 1]) (takeover p)"
proof -
  have r: "read_term [] + 1 = 1" "read_term (write_term [] 1) + 1 = 2"
    by (simp_all add: read_term_def [of "[]"])
  have a: "trace lease_step (lease_start []) [0, 0, 0, 0, 0, 0]
      \<lparr>ls_file = write_term [] 1, ls_holder = Some 0, ls_procs = (\<lambda>_. spawn)(0 := leader_at 1)\<rparr>"
    using win_election [of "lease_start []" 0] r(1) by (simp add: lease_start_def)
  have c: "trace lease_step \<lparr>ls_file = write_term [] 1, ls_holder = None, ls_procs = (\<lambda>_. spawn)(0 := p)\<rparr> [1, 1, 1, 1, 1, 1] (takeover p)"
    using win_election [of "\<lparr>ls_file = write_term [] 1, ls_holder = None, ls_procs = (\<lambda>_. spawn)(0 := p)\<rparr>" 1] r(2) by (simp add: takeover_def)
  show ?thesis
    by (rule trace_append [OF trace_append [OF c assms] a])
qed

abbreviation first_leader :: lease_sys where
  "first_leader \<equiv> \<lparr>ls_file = write_term [] 1, ls_holder = Some 0, ls_procs = (\<lambda>_. spawn)(0 := leader_at 1)\<rparr>"

theorem election_fences_leaders_witness:
  "leads (takeover ((leader_at 1)\<lparr>pr_pc := Dead\<rparr>)) 1 \<and> ls_holder (takeover ((leader_at 1)\<lparr>pr_pc := Dead\<rparr>)) = Some 1 \<and>
   rh_term (pr_handle (ls_procs (takeover ((leader_at 1)\<lparr>pr_pc := Dead\<rparr>)) 0)) < rh_term (pr_handle (ls_procs (takeover ((leader_at 1)\<lparr>pr_pc := Dead\<rparr>)) 1))"
proof -
  let ?s = "takeover ((leader_at 1)\<lparr>pr_pc := Dead\<rparr>)"
  have "lease_step first_leader 0 \<lparr>ls_file = write_term [] 1, ls_holder = None, ls_procs = (\<lambda>_. spawn)(0 := (leader_at 1)\<lparr>pr_pc := Dead\<rparr>)\<rparr>"
    using crash [of first_leader 0 "leader_at 1"] by (simp add: unlock_def set_proc_def)
  from takeover_run [OF trace_step [of lease_step, OF this]]
  have t: "trace lease_step (lease_start []) ([0, 0, 0, 0, 0, 0] @ [0] @ [1, 1, 1, 1, 1, 1]) ?s" .
  have l: "leads ?s 1" "\<not> stepped_down ?s 1" "unat (read_term []) + length ([0, 0, 0, 0, 0, 0] @ [0] @ [1, 1, 1, 1, 1, 1 :: nat]) < 2 ^ 64"
    by (simp_all add: leads_def stepped_down_def takeover_def leader_at_def is_leader_def read_term_def)
  have "(0 :: nat) \<noteq> 1"
    by simp
  with election_fences_leaders [OF t l(3,1)] l(1,2) show ?thesis
    by blast
qed

subsection \<open>Where failover and its documentation differ\<close>

text \<open>Stepping down releases the lease but leaves the handle at leader: the process that stepped down goes on dispatching next to
  its successor.\<close>

lemma stepdown_keeps_leader:
  "\<exists>ls s. trace lease_step (lease_start []) ls s \<and> leads s 0 \<and> leads s 1 \<and> stepped_down s 0"
proof -
  let ?p = "(leader_at 1)\<lparr>pr_shutdown := True\<rparr>"
  let ?q = "?p\<lparr>pr_pc := Stopped\<rparr>"
  let ?s = "\<lparr>ls_file = write_term [] 1, ls_holder = Some 0, ls_procs = (\<lambda>_. spawn)(0 := ?p)\<rparr>"
  have "lease_step first_leader 0 ?s"
    using shutdown [of first_leader 0 "leader_at 1"] by (simp add: set_proc_def leader_at_def)
  moreover have "lease_step ?s 0 \<lparr>ls_file = write_term [] 1, ls_holder = None, ls_procs = (\<lambda>_. spawn)(0 := ?q)\<rparr>"
    using release [of ?s 0 ?p] by (simp add: unlock_def set_proc_def leader_at_def)
  ultimately have "trace lease_step (lease_start []) ([0, 0, 0, 0, 0, 0] @ [0, 0] @ [1, 1, 1, 1, 1, 1]) (takeover ?q)"
    by (intro takeover_run trace_Cons [of lease_step] trace_step [of lease_step])
  moreover have "leads (takeover ?q) 0 \<and> leads (takeover ?q) 1 \<and> stepped_down (takeover ?q) 0"
    by (simp add: leads_def stepped_down_def takeover_def leader_at_def is_leader_def)
  ultimately show ?thesis
    by blast
qed

text \<open>A standby whose snapshot covers the whole log is promoted with sequence number 0: it would number its next command 1, a number
  the old leader has used.\<close>

lemma standby_restarts_numbering:
  "run_until_promoted ex_deps [(\<lparr>rh_role = Leader, rh_term = 2\<rparr>,
      Some (Inr (w_mmap (snd (run_appends ex_deps ex_writer [ex_commands ! 0])))),
      snd (snapshot_write ex_deps 100 None (Dir []) 0 1 5 [1, 2, 3]))] (standby_new 0) = Some 0"
  by code_simp

text \<open>Otherwise the standby never goes back.\<close>

lemma poll_once_mono: "poll_once deps wal d sb = (r, sb') \<Longrightarrow> sb_last_seq sb \<le> sb_last_seq sb' \<and> sb_highest_term sb \<le> sb_highest_term sb'"
  by (auto simp: poll_once_def Let_def split: sum.splits if_splits)

end
