(* ===== verification/Dual_Log.thy ===== *)
theory Dual_Log
  imports Core_Types Wal "HOL-Library.RBT"
begin

unbundle bit_operations_syntax

text \<open>
  The shared log entries (\<open>log_entry.rs\<close>) and the crate \<open>dual-log\<close>: the ring of pending entries and the pair of logs. An entry is
  shared by reference between threads: the heap is the list of the entries allocated so far and a reference is a position in it.
  The ring keeps its references in a \<open>SkipMap\<close> of the crate \<open>crossbeam-skiplist\<close>, whose operations are a parameter; the hash of a
  command (\<open>DefaultHasher\<close> leaves its algorithm open) is one, too.
\<close>

subsection \<open>Log entries\<close>

record log_entry =
  le_seq :: u64
  le_term :: u64
  le_timestamp_in :: u64
  le_cmd :: inbound_command
  le_checksum :: u32
  le_status :: u8
  le_handled_by :: u8
  le_timestamp_out :: u64
  le_fill_price :: u64
  le_filled_qty :: u64

definition compute_checksum :: "(inbound_command \<Rightarrow> u64) \<Rightarrow> inbound_command \<Rightarrow> u32" where
  "compute_checksum hash cmd = (let h = hash cmd in ucast h XOR ucast (drop_bit 32 h))"

definition log_entry_new :: "(inbound_command \<Rightarrow> u64) \<Rightarrow> u64 \<Rightarrow> u64 \<Rightarrow> u64 \<Rightarrow> inbound_command \<Rightarrow> log_entry" where
  "log_entry_new hash seq t timestamp_in cmd =
     \<lparr>le_seq = seq, le_term = t, le_timestamp_in = timestamp_in, le_cmd = cmd, le_checksum = compute_checksum hash cmd,
      le_status = status_to_u8 Pending, le_handled_by = 0, le_timestamp_out = 0, le_fill_price = 0, le_filled_qty = 0\<rparr>"

text \<open>The compare-and-exchange of the status.\<close>

definition try_claim :: "order_status \<Rightarrow> order_status \<Rightarrow> log_entry \<Rightarrow> bool \<times> log_entry" where
  "try_claim from to e = (if le_status e = status_to_u8 from then (True, e\<lparr>le_status := status_to_u8 to\<rparr>) else (False, e))"

definition load_status :: "log_entry \<Rightarrow> order_status" where
  "load_status e = (case status_from_u8 (le_status e) of Some st \<Rightarrow> st | None \<Rightarrow> Pending)"

definition verify_checksum :: "(inbound_command \<Rightarrow> u64) \<Rightarrow> log_entry \<Rightarrow> bool" where
  "verify_checksum hash e \<longleftrightarrow> compute_checksum hash (le_cmd e) = le_checksum e"

definition record_fill :: "u8 \<Rightarrow> u64 \<Rightarrow> u64 \<Rightarrow> u64 \<Rightarrow> log_entry \<Rightarrow> log_entry" where
  "record_fill engine_id timestamp_out fill_price filled_qty e =
     e\<lparr>le_fill_price := fill_price, le_filled_qty := filled_qty, le_timestamp_out := timestamp_out, le_handled_by := engine_id\<rparr>"

definition age_ns :: "log_entry \<Rightarrow> u64 \<Rightarrow> u64" where
  "age_ns e now_ns = u64_saturating_sub now_ns (le_timestamp_in e)"

type_synonym heap = "log_entry list"
type_synonym entry_ref = nat

subsection \<open>The pending ring (pending_ring.rs)\<close>

record 'm skip_ops =
  sk_new :: 'm
  sk_insert :: "'m \<Rightarrow> u64 \<Rightarrow> entry_ref \<Rightarrow> 'm"
  sk_remove :: "'m \<Rightarrow> u64 \<Rightarrow> entry_ref option \<times> 'm"
  sk_iter :: "'m \<Rightarrow> (u64 \<times> entry_ref) list"

record 'm pending_ring =
  pg_map :: 'm
  pg_len :: u64

definition ring_new :: "'m skip_ops \<Rightarrow> 'm pending_ring" where
  "ring_new sk = \<lparr>pg_map = sk_new sk, pg_len = 0\<rparr>"

definition ring_push :: "'m skip_ops \<Rightarrow> heap \<Rightarrow> 'm pending_ring \<Rightarrow> entry_ref \<Rightarrow> 'm pending_ring" where
  "ring_push sk heap r a = \<lparr>pg_map = sk_insert sk (pg_map r) (le_seq (heap ! a)) a, pg_len = pg_len r + 1\<rparr>"

definition ring_remove :: "'m skip_ops \<Rightarrow> 'm pending_ring \<Rightarrow> u64 \<Rightarrow> bool \<times> 'm pending_ring" where
  "ring_remove sk r seq =
     (case sk_remove sk (pg_map r) seq of
        (Some _, m) \<Rightarrow> (True, \<lparr>pg_map = m, pg_len = pg_len r - 1\<rparr>)
      | (None, m) \<Rightarrow> (False, r\<lparr>pg_map := m\<rparr>))"

definition next_pending :: "'m skip_ops \<Rightarrow> heap \<Rightarrow> 'm pending_ring \<Rightarrow> entry_ref option" where
  "next_pending sk heap r = map_option snd (find (\<lambda>(_, a). load_status (heap ! a) = Pending) (sk_iter sk (pg_map r)))"

definition ring_snapshot :: "'m skip_ops \<Rightarrow> 'm pending_ring \<Rightarrow> entry_ref list" where
  "ring_snapshot sk r = map snd (sk_iter sk (pg_map r))"

definition ring_len :: "'m pending_ring \<Rightarrow> u64" where
  "ring_len r = pg_len r"

definition ring_is_empty :: "'m pending_ring \<Rightarrow> bool" where
  "ring_is_empty r \<longleftrightarrow> ring_len r = 0"

fun remove_keys :: "'m skip_ops \<Rightarrow> 'm \<Rightarrow> u64 list \<Rightarrow> u64 \<Rightarrow> u64 \<times> 'm" where
  "remove_keys sk m [] removed = (removed, m)"
| "remove_keys sk m (k # ks) removed =
     (case sk_remove sk m k of
        (Some _, m) \<Rightarrow> remove_keys sk m ks (removed + 1)
      | (None, m) \<Rightarrow> remove_keys sk m ks removed)"

definition gc_terminal :: "'m skip_ops \<Rightarrow> heap \<Rightarrow> 'm pending_ring \<Rightarrow> u64 \<times> 'm pending_ring" where
  "gc_terminal sk heap r =
     (let terminal_keys = map fst (filter (\<lambda>(_, a). is_terminal (load_status (heap ! a))) (sk_iter sk (pg_map r)));
          (removed, m) = remove_keys sk (pg_map r) terminal_keys 0 in
      (removed, \<lparr>pg_map = m, pg_len = (if 0 < removed then pg_len r - removed else pg_len r)\<rparr>))"

subsection \<open>The pair of logs (dual_log.rs)\<close>

datatype dual_log_error = LogAFailed wal_error | LogBFailed wal_error | BothFailed wal_error wal_error

record dual_log_config =
  log_a_config :: wal_writer_config
  log_b_config :: wal_writer_config

record dual_log =
  dl_log_a :: file_wal_writer
  dl_log_b :: file_wal_writer
  dl_last_assigned_seq :: u64

definition dual_open :: "wal_deps \<Rightarrow> (unit + byte list) \<Rightarrow> (unit + byte list) \<Rightarrow> dual_log_config \<Rightarrow> (dual_log_error + dual_log) option" where
  "dual_open deps mapped_a mapped_b config = do {
     a \<leftarrow> wal_open deps mapped_a (log_a_config config);
     case a of
       Inl e \<Rightarrow> Some (Inl (LogAFailed e))
     | Inr a \<Rightarrow> do {
         b \<leftarrow> wal_open deps mapped_b (log_b_config config);
         case b of
           Inl e \<Rightarrow> Some (Inl (LogBFailed e))
         | Inr b \<Rightarrow> Some (Inr \<lparr>dl_log_a = a, dl_log_b = b, dl_last_assigned_seq = max (w_last_seq a) (w_last_seq b)\<rparr>)
       }
   }"

definition dual_write ::
  "wal_deps \<Rightarrow> (inbound_command \<Rightarrow> u64) \<Rightarrow> 'm skip_ops \<Rightarrow> u64 \<Rightarrow> dual_log \<Rightarrow> heap \<Rightarrow> 'm pending_ring \<Rightarrow> u64 \<Rightarrow> u64 \<Rightarrow> inbound_command
     \<Rightarrow> (dual_log_error + entry_ref) \<times> dual_log \<times> heap \<times> 'm pending_ring" where
  "dual_write deps hash sk ts_ns dl heap r t seq cmd =
     (let entry = length heap;
          heap = heap @ [log_entry_new hash seq t ts_ns cmd];
          sc = \<lparr>sc_term = t, sc_seq = seq, sc_ts_ns = ts_ns, sc_cmd = cmd\<rparr>;
          (res_a, a) = wal_append deps (dl_log_a dl) sc;
          (res_b, b) = wal_append deps (dl_log_b dl) sc;
          dl = \<lparr>dl_log_a = a, dl_log_b = b, dl_last_assigned_seq = seq\<rparr> in
      case (res_a, res_b) of
        (Inr _, Inr _) \<Rightarrow> (Inr entry, dl, heap, ring_push sk heap r entry)
      | (Inl ea, Inl eb) \<Rightarrow> (Inl (BothFailed ea eb), dl, heap, r)
      | (Inl ea, Inr _) \<Rightarrow> (Inl (LogAFailed ea), dl, heap, r)
      | (Inr _, Inl eb) \<Rightarrow> (Inl (LogBFailed eb), dl, heap, r))"

definition dual_flush :: "wal_deps \<Rightarrow> dual_log \<Rightarrow> dual_log_error + unit" where
  "dual_flush deps dl =
     (case wal_flush deps (dl_log_a dl) of
        Inl e \<Rightarrow> Inl (LogAFailed e)
      | Inr _ \<Rightarrow> (case wal_flush deps (dl_log_b dl) of Inl e \<Rightarrow> Inl (LogBFailed e) | Inr _ \<Rightarrow> Inr ()))"

subsection \<open>What the ring relies on\<close>

text \<open>The documented behaviour of the map: an insertion replaces the value of its key, a removal returns the value it removed, and
  the iteration visits every key once, in increasing order.\<close>

locale skip_map =
  fixes sk :: "'m skip_ops"
    and contents :: "'m \<Rightarrow> u64 \<rightharpoonup> entry_ref"
  assumes new: "contents (sk_new sk) = Map.empty"
    and insert: "contents (sk_insert sk m k a) = (contents m)(k \<mapsto> a)"
    and remove: "sk_remove sk m k = (x, m') \<Longrightarrow> x = contents m k \<and> contents m' = (contents m)(k := None)"
    and iter: "map_of (sk_iter sk m) = contents m" "sorted_wrt (<) (map fst (sk_iter sk m))"
begin

lemma iter_distinct: "distinct (map fst (sk_iter sk m))"
  using iter(2) [of m] strict_sorted_iff by blast

lemma iter_mem: "(k, a) \<in> set (sk_iter sk m) \<longleftrightarrow> contents m k = Some a"
  using map_of_eq_Some_iff [OF iter_distinct] by (simp add: iter(1))

lemma snapshot_complete: "set (ring_snapshot sk r) = ran (contents (pg_map r))"
  by (auto simp: ring_snapshot_def ran_def iter_mem image_iff) (metis iter_mem snd_conv)

lemma push_contents: "contents (pg_map (ring_push sk heap r a)) = (contents (pg_map r))(le_seq (heap ! a) \<mapsto> a)"
  by (simp add: ring_push_def insert)

lemma remove_contents:
  assumes "ring_remove sk r seq = (b, r')"
  shows "b \<longleftrightarrow> contents (pg_map r) seq \<noteq> None" "contents (pg_map r') = (contents (pg_map r))(seq := None)"
  using assms remove [of "pg_map r" seq] by (auto simp: ring_remove_def split: prod.splits option.splits)

lemma remove_keys_contents: "contents (snd (remove_keys sk m ks n)) = contents m |` (- set ks)"
proof (induction ks arbitrary: m n)
  case (Cons k ks)
  obtain x m' where x: "sk_remove sk m k = (x, m')"
    by fastforce
  have "contents (snd (remove_keys sk m' ks n')) = contents m |` (- set (k # ks))" for n'
    unfolding Cons.IH using remove [OF x] by (auto simp: restrict_map_def fun_eq_iff)
  then show ?case
    using x by (cases x) simp_all
qed (simp add: restrict_map_def)

text \<open>The collector removes exactly the entries some engine has handled.\<close>

lemma gc_terminal_contents:
  "contents (pg_map (snd (gc_terminal sk heap r))) k =
     (case contents (pg_map r) k of Some a \<Rightarrow> if is_terminal (load_status (heap ! a)) then None else Some a | None \<Rightarrow> None)"
proof -
  let ?ks = "map fst (filter (\<lambda>(_, a). is_terminal (load_status (heap ! a))) (sk_iter sk (pg_map r)))"
  have "k \<in> set ?ks \<longleftrightarrow> (\<exists>a. contents (pg_map r) k = Some a \<and> is_terminal (load_status (heap ! a)))"
    by (force simp: iter_mem)
  moreover have "contents (pg_map (snd (gc_terminal sk heap r))) = contents (pg_map r) |` (- set ?ks)"
    using remove_keys_contents [of "pg_map r" ?ks 0] by (simp add: gc_terminal_def Let_def case_prod_unfold)
  ultimately show ?thesis
    by (auto simp: restrict_map_def split: option.splits)
qed

end

text \<open>A concrete map: the red-black trees of the library.\<close>

definition tree_ops :: "(u64, entry_ref) rbt skip_ops" where
  "tree_ops =
     \<lparr>sk_new = RBT.empty, sk_insert = (\<lambda>m k a. RBT.insert k a m), sk_remove = (\<lambda>m k. (RBT.lookup m k, RBT.delete k m)),
      sk_iter = RBT.entries\<rparr>"

interpretation tree: skip_map tree_ops RBT.lookup
proof
  show "sorted_wrt (<) (map fst (sk_iter tree_ops m))" for m
    using RBT.sorted_entries [of m] RBT.distinct_entries [of m] by (simp add: tree_ops_def strict_sorted_iff)
qed (auto simp: tree_ops_def fun_eq_iff restrict_map_def map_of_entries)

end
