(* ===== verification/Escalation.thy ===== *)
theory Escalation
  imports Dual_Log Book_Apply Traces
begin

text \<open>
  The crates \<open>sorter\<close> and \<open>second-engine\<close>: the sorter scans the pending ring and escalates entries the primary engine has not
  taken in time, the workers of the second engine claim the escalated entries and apply them to books of their own. As for the
  rings, each is translated twice: as functions, for one thread at a time, and as the steps that sorters and workers make on the
  shared entries, in any interleaving.
\<close>

subsection \<open>Load (load_monitor.rs) and leadership (leader.rs)\<close>

record load_monitor =
  lm_orders_processed :: u64
  lm_idle_spins :: u64
  lm_capacity_hint :: u64

definition load_monitor_new :: "u64 \<Rightarrow> load_monitor" where
  "load_monitor_new capacity_hint = \<lparr>lm_orders_processed = 0, lm_idle_spins = 0, lm_capacity_hint = max capacity_hint 1\<rparr>"

definition report_order :: "load_monitor \<Rightarrow> load_monitor" where
  "report_order m = m\<lparr>lm_orders_processed := lm_orders_processed m + 1\<rparr>"

definition report_idle :: "load_monitor \<Rightarrow> load_monitor" where
  "report_idle m = m\<lparr>lm_idle_spins := lm_idle_spins m + 1\<rparr>"

definition primary_load_pct :: "load_monitor \<Rightarrow> u8" where
  "primary_load_pct m =
     (let orders = lm_orders_processed m; idles = lm_idle_spins m; total = orders + idles in
      if total = 0 then 0 else ucast (min (orders * 100 div total) 100))"

definition reset_window :: "load_monitor \<Rightarrow> load_monitor" where
  "reset_window m = m\<lparr>lm_orders_processed := 0, lm_idle_spins := 0\<rparr>"

text \<open>The shared token, and whether this instance is the leader.\<close>

definition try_become_leader :: "bool \<Rightarrow> bool \<Rightarrow> bool \<times> bool \<times> bool" where
  "try_become_leader token is_lead =
     (if is_lead then (True, token, is_lead) else if \<not> token then (True, True, True) else (False, token, is_lead))"

definition resign :: "bool \<Rightarrow> bool \<Rightarrow> bool \<times> bool" where
  "resign token is_lead = (if is_lead then (False, False) else (token, is_lead))"

subsection \<open>The sorter (sorter.rs)\<close>

definition critical_timeout_ns :: u64 where
  "critical_timeout_ns = 10000000"

record sorter_metrics =
  sx_escalated :: u64
  sx_primary_handled :: u64
  sx_secondary_handled :: u64
  sx_gc_removed :: u64
  sx_scan_cycles :: u64
  sx_critical_alerts :: u64

record ('m, 'c) sorter =
  so_pending_ring :: "'m pending_ring"
  so_second_engine_tx :: 'c
  so_load_monitor :: load_monitor
  so_metrics :: sorter_metrics
  so_running :: bool

definition sorter_new :: "'m pending_ring \<Rightarrow> 'c \<Rightarrow> load_monitor \<Rightarrow> ('m, 'c) sorter" where
  "sorter_new r tx lm =
     \<lparr>so_pending_ring = r, so_second_engine_tx = tx, so_load_monitor = lm,
      so_metrics = \<lparr>sx_escalated = 0, sx_primary_handled = 0, sx_secondary_handled = 0, sx_gc_removed = 0, sx_scan_cycles = 0,
        sx_critical_alerts = 0\<rparr>, so_running = True\<rparr>"

definition adaptive_timeout :: "load_monitor \<Rightarrow> u64" where
  "adaptive_timeout lm =
     (let load = primary_load_pct lm in
      if load \<le> 50 then 200000 else if load \<le> 80 then 500000 else if load \<le> 95 then 1000000 else 2000000)"

text \<open>The body of the loop over the snapshot, for the entry at \<open>a\<close>. \<open>send\<close> is the channel's; its result is ignored.\<close>

definition scan_entry ::
  "'m skip_ops \<Rightarrow> ('c \<Rightarrow> entry_ref \<Rightarrow> 'c) \<Rightarrow> u64 \<Rightarrow> u64 \<Rightarrow> entry_ref \<Rightarrow> heap \<times> ('m, 'c) sorter \<Rightarrow> heap \<times> ('m, 'c) sorter" where
  "scan_entry sk send now_ns timeout a = (\<lambda>(heap, s).
     let entry = heap ! a; status = load_status entry; age = age_ns entry now_ns; mx = so_metrics s in
     case status of
       Pending \<Rightarrow>
         if timeout < age then
           (case try_claim Pending Unaddressed entry of
              (True, entry) \<Rightarrow>
                (heap[a := entry], s\<lparr>so_second_engine_tx := send (so_second_engine_tx s) a, so_metrics := mx\<lparr>sx_escalated := sx_escalated mx + 1\<rparr>\<rparr>)
            | (False, entry) \<Rightarrow> (heap, s))
         else if critical_timeout_ns < age then (heap, s\<lparr>so_metrics := mx\<lparr>sx_critical_alerts := sx_critical_alerts mx + 1\<rparr>\<rparr>)
         else (heap, s)
     | Addressed \<Rightarrow>
         (heap, s\<lparr>so_pending_ring := snd (ring_remove sk (so_pending_ring s) (le_seq entry)),
                  so_metrics := mx\<lparr>sx_primary_handled := sx_primary_handled mx + 1, sx_gc_removed := sx_gc_removed mx + 1\<rparr>\<rparr>)
     | FinallyHandled \<Rightarrow>
         (heap, s\<lparr>so_pending_ring := snd (ring_remove sk (so_pending_ring s) (le_seq entry)),
                  so_metrics := mx\<lparr>sx_secondary_handled := sx_secondary_handled mx + 1, sx_gc_removed := sx_gc_removed mx + 1\<rparr>\<rparr>)
     | Unaddressed \<Rightarrow>
         if critical_timeout_ns < age then (heap, s\<lparr>so_metrics := mx\<lparr>sx_critical_alerts := sx_critical_alerts mx + 1\<rparr>\<rparr>)
         else (heap, s))"

definition scan_once :: "'m skip_ops \<Rightarrow> ('c \<Rightarrow> entry_ref \<Rightarrow> 'c) \<Rightarrow> u64 \<Rightarrow> heap \<Rightarrow> ('m, 'c) sorter \<Rightarrow> heap \<times> ('m, 'c) sorter" where
  "scan_once sk send now_ns heap s =
     (let timeout = adaptive_timeout (so_load_monitor s);
          s = s\<lparr>so_metrics := (so_metrics s)\<lparr>sx_scan_cycles := sx_scan_cycles (so_metrics s) + 1\<rparr>\<rparr> in
      fold (scan_entry sk send now_ns timeout) (ring_snapshot sk (so_pending_ring s)) (heap, s))"

subsection \<open>The second engine (engine.rs)\<close>

record second_engine_metrics =
  sm2_orders_processed :: u64
  sm2_cas_failures :: u64
  sm2_orders_received :: u64
  sm2_unknown_symbol :: u64

text \<open>The books of a worker, a hash map: an association list in iteration order.\<close>

type_synonym ('k, 's) books = "(symbol \<times> ('k, 's) order_book) list"

fun put_book :: "('k, 's) books \<Rightarrow> symbol \<Rightarrow> ('k, 's) order_book \<Rightarrow> ('k, 's) books" where
  "put_book [] sy b = [(sy, b)]"
| "put_book ((sy', b') # bs) sy b = (if sy' = sy then (sy, b) # bs else (sy', b') # put_book bs sy b)"

definition build_books :: "('k, 's) arena_ops \<Rightarrow> (('k, 's) books \<Rightarrow> ('k, 's) books) \<Rightarrow> book_config list \<Rightarrow> ('k, 's) books" where
  "build_books sm rehash configs = fold (\<lambda>cfg bs. rehash (put_book bs (bc_symbol cfg) (book_new sm cfg))) configs []"

fun accumulate_fill :: "engine_event list \<Rightarrow> order_id \<Rightarrow> u64 \<times> u64 \<Rightarrow> u64 \<times> u64" where
  "accumulate_fill [] oid acc = acc"
| "accumulate_fill (Trade tr # evs) oid (fill_price, filled_qty) =
     accumulate_fill evs oid (if tr_taker_order_id tr = oid then (tr_price tr, filled_qty + tr_qty tr) else (fill_price, filled_qty))"
| "accumulate_fill (_ # evs) oid acc = accumulate_fill evs oid acc"

fun cancel_each ::
  "('k, 's) arena_ops \<Rightarrow> sequenced_command \<Rightarrow> account_id \<Rightarrow> ('k, 's) order_book \<Rightarrow> order_id list \<Rightarrow> ('k, 's) order_book option" where
  "cancel_each sm sc account b [] = Some b"
| "cancel_each sm sc account b (oid # oids) = do {
     (b, _) \<leftarrow> apply_cmd sm b (sc\<lparr>sc_cmd := Cancel account oid\<rparr>);
     cancel_each sm sc account b oids
   }"

fun apply_all_books :: "('k, 's) arena_ops \<Rightarrow> sequenced_command \<Rightarrow> ('k, 's) books \<Rightarrow> ('k, 's) books option" where
  "apply_all_books sm sc [] = Some []"
| "apply_all_books sm sc ((sy, b) # bs) = do {
     (b, _) \<leftarrow> apply_cmd sm b sc;
     bs \<leftarrow> apply_all_books sm sc bs;
     Some ((sy, b) # bs)
   }"

definition apply_escalated ::
  "('k, 's) arena_ops \<Rightarrow> log_entry \<Rightarrow> ('k, 's) books \<Rightarrow> ((u64 \<times> u64 \<times> bool) \<times> ('k, 's) books) option" where
  "apply_escalated sm entry books =
     (let seq_cmd = \<lparr>sc_term = le_term entry, sc_seq = le_seq entry, sc_ts_ns = le_timestamp_in entry, sc_cmd = le_cmd entry\<rparr> in
      case sc_cmd seq_cmd of
        NewOrder _ _ sy _ _ _ _ _ \<Rightarrow>
          (case map_of books sy of
             Some b \<Rightarrow> do {
               (b, events) \<leftarrow> apply_cmd sm b seq_cmd;
               let (fill_price, filled_qty) = accumulate_fill events (le_seq entry) (0, 0);
               Some ((fill_price, filled_qty, True), put_book books sy b)
             }
           | None \<Rightarrow> Some ((0, 0, False), books))
      | Liquidate sy account \<Rightarrow>
          (case map_of books sy of
             Some b \<Rightarrow> do {
               b \<leftarrow> cancel_each sm seq_cmd account b (open_order_ids_for_account sm b account);
               Some ((0, 0, True), put_book books sy b)
             }
           | None \<Rightarrow> Some ((0, 0, False), books))
      | Cancel _ _ \<Rightarrow> do {
          books \<leftarrow> apply_all_books sm seq_cmd books;
          Some ((0, 0, True), books)
        }
      | FreezeAccount _ \<Rightarrow> Some ((0, 0, True), books))"

text \<open>The body of the worker loop for the received entry at \<open>a\<close>.\<close>

definition worker_turn ::
  "('k, 's) arena_ops \<Rightarrow> 'm skip_ops \<Rightarrow> u64 \<Rightarrow> entry_ref \<Rightarrow> heap \<times> 'm pending_ring \<times> second_engine_metrics \<times> ('k, 's) books
     \<Rightarrow> (heap \<times> 'm pending_ring \<times> second_engine_metrics \<times> ('k, 's) books) option" where
  "worker_turn sm sk now_ns a = (\<lambda>(heap, r, mx, books).
     let mx = mx\<lparr>sm2_orders_received := sm2_orders_received mx + 1\<rparr>; entry = heap ! a in
     if load_status entry \<noteq> Unaddressed then Some (heap, r, mx\<lparr>sm2_cas_failures := sm2_cas_failures mx + 1\<rparr>, books)
     else case try_claim Unaddressed FinallyHandled entry of
       (False, _) \<Rightarrow> Some (heap, r, mx\<lparr>sm2_cas_failures := sm2_cas_failures mx + 1\<rparr>, books)
     | (True, entry) \<Rightarrow> do {
         ((fill_price, filled_qty, matched_known_symbol), books) \<leftarrow> apply_escalated sm entry books;
         let mx = (if matched_known_symbol then mx else mx\<lparr>sm2_unknown_symbol := sm2_unknown_symbol mx + 1\<rparr>);
         Some (heap[a := record_fill 2 now_ns fill_price filled_qty entry], snd (ring_remove sk r (le_seq entry)),
               mx\<lparr>sm2_orders_processed := sm2_orders_processed mx + 1\<rparr>, books)
       })"

definition process_single ::
  "('k, 's) arena_ops \<Rightarrow> 'm skip_ops \<Rightarrow> entry_ref \<Rightarrow> heap \<times> 'm pending_ring \<times> ('k, 's) books
     \<Rightarrow> (bool \<times> heap \<times> 'm pending_ring \<times> ('k, 's) books) option" where
  "process_single sm sk a = (\<lambda>(heap, r, books).
     let entry = heap ! a in
     if load_status entry \<noteq> Unaddressed then Some (False, heap, r, books)
     else case try_claim Unaddressed FinallyHandled entry of
       (False, _) \<Rightarrow> Some (False, heap, r, books)
     | (True, entry) \<Rightarrow> do {
         ((fill_price, filled_qty, _), books) \<leftarrow> apply_escalated sm entry books;
         Some (True, heap[a := record_fill 2 0 fill_price filled_qty entry], snd (ring_remove sk r (le_seq entry)), books)
       })"

subsection \<open>Sorters and workers interleaved\<close>

text \<open>Where a sorter is in \<open>scan_once\<close>: idle, with the rest of the snapshot, after the load of a status, or after a claim and before
  the send. A snapshot may be any list of references: the ring can be ahead or behind.\<close>

datatype sorter_pc =
    SIdle
  | SScan u64 u64 "entry_ref list"
  | SLoaded u64 u64 entry_ref order_status "entry_ref list"
  | SClaimed u64 u64 entry_ref "entry_ref list"

text \<open>Where a worker is in \<open>worker_loop\<close>; \<open>WDead\<close> after a panic. Where panics unwind, that ends the thread and drops its end of the
  channel; where they abort, as in the release profile, the run of the whole program ends with the panic.\<close>

datatype worker_pc = WIdle | WGot entry_ref | WChecked entry_ref | WClaimed entry_ref | WDead

record ('k, 's) esc_sys =
  es_heap :: heap
  es_channel :: "entry_ref list"
  es_sorters :: "nat \<Rightarrow> sorter_pc"
  es_workers :: "nat \<Rightarrow> worker_pc"
  es_books :: "nat \<Rightarrow> ('k, 's) books"

datatype esc_label = Escalates entry_ref | SendFails entry_ref | Processes entry_ref | Panics entry_ref | Internal

definition claim :: "order_status \<Rightarrow> order_status \<Rightarrow> entry_ref \<Rightarrow> heap \<Rightarrow> bool \<times> heap" where
  "claim from to a heap = (case try_claim from to (heap ! a) of (ok, e) \<Rightarrow> (ok, heap[a := e]))"

text \<open>The channel is disconnected when all \<open>n\<close> workers are gone, or there are none; then \<open>send\<close> fails, and the sorter goes on.\<close>

inductive sorter_step :: "nat \<Rightarrow> nat \<Rightarrow> ('k, 's) esc_sys \<Rightarrow> esc_label \<Rightarrow> ('k, 's) esc_sys \<Rightarrow> bool" for n i s where
  sort_snapshot: "es_sorters s i = SIdle \<Longrightarrow> set refs \<subseteq> {..<length (es_heap s)} \<Longrightarrow>
    sorter_step n i s Internal (s\<lparr>es_sorters := (es_sorters s)(i := SScan now timeout refs)\<rparr>)"
| sort_end: "es_sorters s i = SScan now timeout [] \<Longrightarrow> sorter_step n i s Internal (s\<lparr>es_sorters := (es_sorters s)(i := SIdle)\<rparr>)"
| sort_load: "es_sorters s i = SScan now timeout (a # refs) \<Longrightarrow>
    sorter_step n i s Internal (s\<lparr>es_sorters := (es_sorters s)(i := SLoaded now timeout a (load_status (es_heap s ! a)) refs)\<rparr>)"
| sort_leave: "es_sorters s i = SLoaded now timeout a st refs \<Longrightarrow> st \<noteq> Pending \<or> age_ns (es_heap s ! a) now \<le> timeout \<Longrightarrow>
    sorter_step n i s Internal (s\<lparr>es_sorters := (es_sorters s)(i := SScan now timeout refs)\<rparr>)"
| sort_claim: "es_sorters s i = SLoaded now timeout a Pending refs \<Longrightarrow> timeout < age_ns (es_heap s ! a) now \<Longrightarrow>
    claim Pending Unaddressed a (es_heap s) = (True, heap) \<Longrightarrow>
    sorter_step n i s (Escalates a) (s\<lparr>es_heap := heap, es_sorters := (es_sorters s)(i := SClaimed now timeout a refs)\<rparr>)"
| sort_lose: "es_sorters s i = SLoaded now timeout a Pending refs \<Longrightarrow> timeout < age_ns (es_heap s ! a) now \<Longrightarrow>
    claim Pending Unaddressed a (es_heap s) = (False, heap) \<Longrightarrow>
    sorter_step n i s Internal (s\<lparr>es_sorters := (es_sorters s)(i := SScan now timeout refs)\<rparr>)"
| sort_send: "es_sorters s i = SClaimed now timeout a refs \<Longrightarrow> \<exists>w < n. es_workers s w \<noteq> WDead \<Longrightarrow>
    sorter_step n i s Internal (s\<lparr>es_channel := es_channel s @ [a], es_sorters := (es_sorters s)(i := SScan now timeout refs)\<rparr>)"
| sort_send_fails: "es_sorters s i = SClaimed now timeout a refs \<Longrightarrow> \<forall>w < n. es_workers s w = WDead \<Longrightarrow>
    sorter_step n i s (SendFails a) (s\<lparr>es_sorters := (es_sorters s)(i := SScan now timeout refs)\<rparr>)"

inductive worker_step :: "('k, 's) arena_ops \<Rightarrow> nat \<Rightarrow> ('k, 's) esc_sys \<Rightarrow> esc_label \<Rightarrow> ('k, 's) esc_sys \<Rightarrow> bool" for sm w s where
  work_recv: "es_workers s w = WIdle \<Longrightarrow> es_channel s = a # refs \<Longrightarrow>
    worker_step sm w s Internal (s\<lparr>es_channel := refs, es_workers := (es_workers s)(w := WGot a)\<rparr>)"
| work_check: "es_workers s w = WGot a \<Longrightarrow> load_status (es_heap s ! a) = Unaddressed \<Longrightarrow>
    worker_step sm w s Internal (s\<lparr>es_workers := (es_workers s)(w := WChecked a)\<rparr>)"
| work_refuse: "es_workers s w = WGot a \<Longrightarrow> load_status (es_heap s ! a) \<noteq> Unaddressed \<Longrightarrow>
    worker_step sm w s Internal (s\<lparr>es_workers := (es_workers s)(w := WIdle)\<rparr>)"
| work_claim: "es_workers s w = WChecked a \<Longrightarrow> claim Unaddressed FinallyHandled a (es_heap s) = (True, heap) \<Longrightarrow>
    worker_step sm w s Internal (s\<lparr>es_heap := heap, es_workers := (es_workers s)(w := WClaimed a)\<rparr>)"
| work_lose: "es_workers s w = WChecked a \<Longrightarrow> claim Unaddressed FinallyHandled a (es_heap s) = (False, heap) \<Longrightarrow>
    worker_step sm w s Internal (s\<lparr>es_workers := (es_workers s)(w := WIdle)\<rparr>)"
| work_apply: "es_workers s w = WClaimed a \<Longrightarrow>
    apply_escalated sm (es_heap s ! a) (es_books s w) = Some ((fill_price, filled_qty, matched_known_symbol), books) \<Longrightarrow>
    worker_step sm w s (Processes a)
      (s\<lparr>es_heap := (es_heap s)[a := record_fill 2 now fill_price filled_qty (es_heap s ! a)], es_workers := (es_workers s)(w := WIdle),
         es_books := (es_books s)(w := books)\<rparr>)"
| work_panic: "es_workers s w = WClaimed a \<Longrightarrow> apply_escalated sm (es_heap s ! a) (es_books s w) = None \<Longrightarrow>
    worker_step sm w s (Panics a) (s\<lparr>es_workers := (es_workers s)(w := WDead)\<rparr>)"

inductive esc_step :: "('k, 's) arena_ops \<Rightarrow> nat \<Rightarrow> ('k, 's) esc_sys \<Rightarrow> esc_label \<Rightarrow> ('k, 's) esc_sys \<Rightarrow> bool" for sm n s where
  sorter: "sorter_step n i s l s' \<Longrightarrow> esc_step sm n s l s'"
| worker: "w < n \<Longrightarrow> worker_step sm w s l s' \<Longrightarrow> esc_step sm n s l s'"

text \<open>\<open>SecondEngine::start\<close>: every worker builds its own books.\<close>

definition esc_start ::
  "('k, 's) arena_ops \<Rightarrow> (('k, 's) books \<Rightarrow> ('k, 's) books) \<Rightarrow> book_config list \<Rightarrow> heap \<Rightarrow> ('k, 's) esc_sys" where
  "esc_start sm rehash configs heap =
     \<lparr>es_heap = heap, es_channel = [], es_sorters = \<lambda>_. SIdle, es_workers = \<lambda>_. WIdle, es_books = \<lambda>_. build_books sm rehash configs\<rparr>"

end
