(* ===== verification/Escalation_Props.thy ===== *)
theory Escalation_Props
  imports Escalation Book_Props
begin

text \<open>
  What the escalation guarantees: an entry is escalated and processed at most once, and an escalated entry is lost only where the
  channel or a worker fails.
\<close>

subsection \<open>Claims\<close>

definition status_ok :: "log_entry \<Rightarrow> bool" where
  "status_ok e \<longleftrightarrow> le_status e = status_to_u8 (load_status e)"

lemma load_status_of [simp]: "load_status (e\<lparr>le_status := status_to_u8 st\<rparr>) = st"
  by (cases st) (simp_all add: load_status_def status_from_u8_def)

lemma status_bytes [simp]:
  "load_status (e\<lparr>le_status := 1\<rparr>) = Addressed" "load_status (e\<lparr>le_status := 2\<rparr>) = Unaddressed" "load_status (e\<lparr>le_status := 3\<rparr>) = FinallyHandled"
  "status_ok (e\<lparr>le_status := 1\<rparr>)" "status_ok (e\<lparr>le_status := 2\<rparr>)" "status_ok (e\<lparr>le_status := 3\<rparr>)"
  by (simp_all add: status_ok_def load_status_def status_from_u8_def)

lemma load_status_new [simp]: "load_status (log_entry_new hash seq t ts cmd) = Pending"
  by (simp add: log_entry_new_def load_status_def status_from_u8_def)

lemma load_status_fill [simp]: "load_status (record_fill eng out price qty e) = load_status e"
  by (simp add: record_fill_def load_status_def)

lemma status_ok_simps [simp]:
  "status_ok (e\<lparr>le_status := status_to_u8 st\<rparr>)" "status_ok (log_entry_new hash seq t ts cmd)"
  "status_ok (record_fill eng out price qty e) = status_ok e"
  by (simp_all add: status_ok_def) (simp_all add: log_entry_new_def record_fill_def)

lemma status_to_u8_inj: "status_to_u8 a = status_to_u8 b \<longleftrightarrow> a = b"
  by (cases a; cases b) simp_all

lemma claim_iff:
  assumes "status_ok (heap ! a)" "a < length heap"
  shows "claim from to a heap =
    (load_status (heap ! a) = from, if load_status (heap ! a) = from then heap[a := (heap ! a)\<lparr>le_status := status_to_u8 to\<rparr>] else heap)"
  using assms by (auto simp: claim_def try_claim_def status_ok_def status_to_u8_inj)

subsection \<open>Where an entry is\<close>

datatype place = Nowhere | AtSorter nat | InChannel | AtWorker nat | Finished | Dropped | Crashed

fun sorter_has :: "sorter_pc \<Rightarrow> entry_ref \<Rightarrow> bool" where
  "sorter_has (SClaimed _ _ b _) a \<longleftrightarrow> b = a"
| "sorter_has _ a \<longleftrightarrow> False"

fun worker_has :: "worker_pc \<Rightarrow> entry_ref \<Rightarrow> bool" where
  "worker_has WIdle a \<longleftrightarrow> False"
| "worker_has (WGot b) a \<longleftrightarrow> b = a"
| "worker_has (WChecked b) a \<longleftrightarrow> b = a"
| "worker_has (WClaimed b) a \<longleftrightarrow> b = a"
| "worker_has WDead a \<longleftrightarrow> False"

fun sorter_refs :: "sorter_pc \<Rightarrow> entry_ref set" where
  "sorter_refs SIdle = {}"
| "sorter_refs (SScan _ _ refs) = set refs"
| "sorter_refs (SLoaded _ _ a _ refs) = insert a (set refs)"
| "sorter_refs (SClaimed _ _ a refs) = insert a (set refs)"

text \<open>The state and the labels so far agree with the entry at \<open>a\<close> being at \<open>p\<close>, with status \<open>st\<close>.\<close>

definition located :: "esc_label list \<Rightarrow> ('k, 's) esc_sys \<Rightarrow> entry_ref \<Rightarrow> place \<Rightarrow> order_status \<Rightarrow> bool" where
  "located ls s a p st \<longleftrightarrow>
     count_list (es_channel s) a = (if p = InChannel then 1 else 0) \<and>
     (\<forall>i. sorter_has (es_sorters s i) a \<longleftrightarrow> p = AtSorter i) \<and>
     (\<forall>w. worker_has (es_workers s w) a \<longleftrightarrow> p = AtWorker w) \<and>
     count_list ls (Escalates a) = (if p = Nowhere then 0 else 1) \<and>
     count_list ls (Processes a) = (if p = Finished then 1 else 0) \<and>
     count_list ls (SendFails a) = (if p = Dropped then 1 else 0) \<and>
     count_list ls (Panics a) = (if p = Crashed then 1 else 0) \<and>
     (case p of
        Nowhere \<Rightarrow> st = Pending
      | AtWorker w \<Rightarrow> st = (if es_workers s w = WClaimed a then FinallyHandled else Unaddressed)
      | Finished \<Rightarrow> st = FinallyHandled
      | Crashed \<Rightarrow> st = FinallyHandled
      | _ \<Rightarrow> st = Unaddressed)"

text \<open>The status of an entry; a reference not allocated counts as pending.\<close>

definition entry_status :: "('k, 's) esc_sys \<Rightarrow> entry_ref \<Rightarrow> order_status" where
  "entry_status s a = (if a < length (es_heap s) then load_status (es_heap s ! a) else Pending)"

definition esc_inv :: "esc_label list \<Rightarrow> ('k, 's) esc_sys \<Rightarrow> bool" where
  "esc_inv ls s \<longleftrightarrow> (\<forall>e \<in> set (es_heap s). status_ok e) \<and> (\<forall>i. sorter_refs (es_sorters s i) \<subseteq> {..<length (es_heap s)}) \<and>
     (\<forall>a. \<exists>p. located ls s a p (entry_status s a))"

lemma esc_start_inv:
  assumes "\<forall>e \<in> set heap. status_ok e \<and> load_status e = Pending"
  shows "esc_inv [] (esc_start sm rehash configs heap)"
  using assms
  by (auto simp: esc_inv_def located_def entry_status_def esc_start_def intro!: exI [of _ Nowhere])

text \<open>A step about the entry at \<open>b\<close> keeps the invariant if it keeps what holds of the others and leaves \<open>b\<close> at some place.\<close>

lemma esc_inv_step:
  assumes "esc_inv ls s" "length (es_heap s') = length (es_heap s)" "\<forall>e \<in> set (es_heap s'). status_ok e"
    "\<And>i. sorter_refs (es_sorters s' i) \<subseteq> {..<length (es_heap s)}"
    "\<And>a p st. a \<noteq> b \<Longrightarrow> located ls s a p st \<Longrightarrow> located (ls @ [l]) s' a p st"
    "\<And>a. a \<noteq> b \<Longrightarrow> es_heap s' ! a = es_heap s ! a"
    "\<And>p. located ls s b p (entry_status s b) \<Longrightarrow> \<exists>p'. located (ls @ [l]) s' b p' (entry_status s' b)"
  shows "esc_inv (ls @ [l]) s'"
proof -
  have "\<exists>p. located (ls @ [l]) s' a p (entry_status s' a)" for a
  proof (cases "a = b")
    case True
    then show ?thesis
      using assms(1,7) unfolding esc_inv_def by blast
  next
    case False
    then have "entry_status s' a = entry_status s a"
      using assms(2,6) by (simp add: entry_status_def)
    then show ?thesis
      using assms(1,5) False by (metis esc_inv_def)
  qed
  then show ?thesis
    using assms(2-4) by (simp add: esc_inv_def)
qed

lemma located_cong:
  assumes "located ls s a p st" "count_list (es_channel s') a = count_list (es_channel s) a"
    "\<And>i. sorter_has (es_sorters s' i) a = sorter_has (es_sorters s i) a" "\<And>w. worker_has (es_workers s' w) a = worker_has (es_workers s w) a"
    "\<And>w. es_workers s' w = WClaimed a \<longleftrightarrow> es_workers s w = WClaimed a" "l \<noteq> Escalates a" "l \<noteq> Processes a" "l \<noteq> SendFails a" "l \<noteq> Panics a"
  shows "located (ls @ [l]) s' a p st"
  using assms by (cases p) (simp_all add: located_def)

text \<open>A step that leaves the heap, the labels and the possession of entries alone.\<close>

lemma esc_inv_quiet:
  assumes "esc_inv ls s" "es_heap s' = es_heap s" "es_channel s' = es_channel s"
    "\<And>i. sorter_refs (es_sorters s' i) \<subseteq> {..<length (es_heap s)}"
    "\<And>i a. sorter_has (es_sorters s' i) a = sorter_has (es_sorters s i) a"
    "\<And>w a. worker_has (es_workers s' w) a = worker_has (es_workers s w) a"
    "\<And>w a. es_workers s' w = WClaimed a \<longleftrightarrow> es_workers s w = WClaimed a"
  shows "esc_inv (ls @ [Internal]) s'"
proof -
  have "located (ls @ [Internal]) s' a p st" if "located ls s a p st" for a p st
    using that assms(3,5-7) by (intro located_cong) simp_all
  moreover have "entry_status s' = entry_status s"
    using assms(2) by (simp add: entry_status_def fun_eq_iff)
  ultimately show ?thesis
    using assms(1,2,4) unfolding esc_inv_def by metis
qed

lemma quiet_sorter:
  assumes "esc_inv ls s" "sorter_refs pc \<subseteq> {..<length (es_heap s)}" "\<And>a. sorter_has pc a = sorter_has (es_sorters s i) a"
  shows "esc_inv (ls @ [Internal]) (s\<lparr>es_sorters := (es_sorters s)(i := pc)\<rparr>)"
  using assms by (intro esc_inv_quiet [OF assms(1)]) (auto simp: esc_inv_def)

lemma quiet_worker:
  assumes "esc_inv ls s" "\<And>a. worker_has pc a = worker_has (es_workers s w) a" "\<And>a. pc = WClaimed a \<longleftrightarrow> es_workers s w = WClaimed a"
  shows "esc_inv (ls @ [Internal]) (s\<lparr>es_workers := (es_workers s)(w := pc)\<rparr>)"
  using assms by (intro esc_inv_quiet [OF assms(1)]) (auto simp: esc_inv_def)

lemma sorter_step_inv:
  assumes "sorter_step n i s l s'" "esc_inv ls s"
  shows "esc_inv (ls @ [l]) s'"
proof -
  note inv = assms(2) [unfolded esc_inv_def]
  have refs: "sorter_refs (es_sorters s j) \<subseteq> {..<length (es_heap s)}" for j
    using inv by blast
  show ?thesis
    using assms(1)
  proof cases
    case (sort_snapshot refs now timeout)
    with refs show ?thesis
      by (auto intro!: quiet_sorter [OF assms(2)])
  next
    case (sort_end now timeout)
    with refs show ?thesis
      by (auto intro!: quiet_sorter [OF assms(2)])
  next
    case (sort_load now timeout a rest)
    with refs refs [of i] show ?thesis
      by (auto intro!: quiet_sorter [OF assms(2)])
  next
    case (sort_leave now timeout a st rest)
    with refs refs [of i] show ?thesis
      by (auto intro!: quiet_sorter [OF assms(2)])
  next
    case (sort_lose now timeout a rest heap)
    with refs refs [of i] show ?thesis
      by (auto intro!: quiet_sorter [OF assms(2)])
  next
    case (sort_claim now timeout a rest heap)
    have a: "a < length (es_heap s)"
      using refs [of i] sort_claim by auto
    then have h: "load_status (es_heap s ! a) = Pending" "heap = (es_heap s)[a := (es_heap s ! a)\<lparr>le_status := status_to_u8 Unaddressed\<rparr>]"
      using inv sort_claim claim_iff [of "es_heap s" a Pending Unaddressed] by auto
    show ?thesis
    proof (rule esc_inv_step [OF assms(2), where b = a])
      show "located (ls @ [l]) s' b p st" if "b \<noteq> a" "located ls s b p st" for b p st
        using that sort_claim by (intro located_cong [OF that(2)]) auto
      show "\<exists>p'. located (ls @ [l]) s' a p' (entry_status s' a)" if "located ls s a p (entry_status s a)" for p
        using that sort_claim h a
        by (intro exI [of _ "AtSorter i"]) (auto simp: located_def entry_status_def split: place.splits if_splits)
    qed (use sort_claim h a inv refs refs [of i] in \<open>auto dest!: set_update_subset_insert [THEN subsetD]\<close>)
  next
    case (sort_send now timeout a rest)
    show ?thesis
    proof (rule esc_inv_step [OF assms(2), where b = a])
      show "located (ls @ [l]) s' b p st" if "b \<noteq> a" "located ls s b p st" for b p st
        using that sort_send by (intro located_cong [OF that(2)]) auto
      show "\<exists>p'. located (ls @ [l]) s' a p' (entry_status s' a)" if "located ls s a p (entry_status s a)" for p
      proof -
        have "p = AtSorter i"
          using that sort_send by (auto simp: located_def)
        moreover have "entry_status s' a = entry_status s a"
          using sort_send by (simp add: entry_status_def)
        ultimately show ?thesis
          using that sort_send by (intro exI [of _ InChannel]) (auto simp: located_def)
      qed
    qed (use sort_send inv refs refs [of i] in auto)
  next
    case (sort_send_fails now timeout a rest)
    show ?thesis
    proof (rule esc_inv_step [OF assms(2), where b = a])
      show "located (ls @ [l]) s' b p st" if "b \<noteq> a" "located ls s b p st" for b p st
        using that sort_send_fails by (intro located_cong [OF that(2)]) auto
      show "\<exists>p'. located (ls @ [l]) s' a p' (entry_status s' a)" if "located ls s a p (entry_status s a)" for p
      proof -
        have "p = AtSorter i"
          using that sort_send_fails by (auto simp: located_def)
        moreover have "entry_status s' a = entry_status s a"
          using sort_send_fails by (simp add: entry_status_def)
        ultimately show ?thesis
          using that sort_send_fails by (intro exI [of _ Dropped]) (auto simp: located_def)
      qed
    qed (use sort_send_fails inv refs refs [of i] in auto)
  qed
qed

lemma worker_step_inv:
  assumes "worker_step sm w s l s'" "esc_inv ls s"
  shows "esc_inv (ls @ [l]) s'"
proof -
  note inv = assms(2) [unfolded esc_inv_def]
  have refs: "sorter_refs (es_sorters s j) \<subseteq> {..<length (es_heap s)}" for j
    using inv by blast
  have at: "p = AtWorker w" if "located ls s a p st" "worker_has (es_workers s w) a" for a p st
    using that by (simp add: located_def)
  have held: "located ls s a (AtWorker w) (entry_status s a)" if "worker_has (es_workers s w) a" for a
    using inv at [OF _ that] by metis
  have valid: "a < length (es_heap s)" if "worker_has (es_workers s w) a" for a
    using held [OF that] by (auto simp: located_def entry_status_def split: if_splits)
  show ?thesis
    using assms(1)
  proof cases
    case (work_recv a rest)
    show ?thesis
    proof (rule esc_inv_step [OF assms(2), where b = a])
      show "located (ls @ [l]) s' b p st" if "b \<noteq> a" "located ls s b p st" for b p st
        using that work_recv by (intro located_cong [OF that(2)]) auto
      show "\<exists>p'. located (ls @ [l]) s' a p' (entry_status s' a)" if "located ls s a p (entry_status s a)" for p
      proof -
        have "p = InChannel"
          using that work_recv by (auto simp: located_def split: if_splits)
        moreover have "entry_status s' a = entry_status s a"
          using work_recv by (simp add: entry_status_def)
        ultimately show ?thesis
          using that work_recv by (intro exI [of _ "AtWorker w"]) (auto simp: located_def)
      qed
    qed (use work_recv inv refs in auto)
  next
    case (work_check a)
    then show ?thesis
      by (auto intro!: quiet_worker [OF assms(2)])
  next
    case (work_refuse a)
    then show ?thesis
      using held [of a] valid [of a] by (auto simp: located_def entry_status_def)
  next
    case (work_lose a heap)
    then have "entry_status s a = Unaddressed" "a < length (es_heap s)"
      using held [of a] valid [of a] by (auto simp: located_def)
    then show ?thesis
      using work_lose claim_iff [of "es_heap s" a Unaddressed FinallyHandled] inv by (auto simp: entry_status_def)
  next
    case (work_claim a heap)
    have a: "a < length (es_heap s)"
      using valid [of a] work_claim by simp
    have h: "heap = (es_heap s)[a := (es_heap s ! a)\<lparr>le_status := status_to_u8 FinallyHandled\<rparr>]"
      using work_claim claim_iff [of "es_heap s" a Unaddressed FinallyHandled] inv a by (auto split: if_splits)
    show ?thesis
    proof (rule esc_inv_step [OF assms(2), where b = a])
      show "located (ls @ [l]) s' b p st" if "b \<noteq> a" "located ls s b p st" for b p st
        using that work_claim by (intro located_cong [OF that(2)]) auto
      show "\<exists>p'. located (ls @ [l]) s' a p' (entry_status s' a)" if "located ls s a p (entry_status s a)" for p
        using held [of a] work_claim h a by (intro exI [of _ "AtWorker w"]) (auto simp: located_def entry_status_def)
    qed (use work_claim h a inv refs in \<open>auto dest!: set_update_subset_insert [THEN subsetD]\<close>)
  next
    case (work_apply a fill_price filled_qty known books now)
    have a: "a < length (es_heap s)"
      using valid [of a] work_apply by simp
    show ?thesis
    proof (rule esc_inv_step [OF assms(2), where b = a])
      show "located (ls @ [l]) s' b p st" if "b \<noteq> a" "located ls s b p st" for b p st
        using that work_apply by (intro located_cong [OF that(2)]) auto
      show "\<exists>p'. located (ls @ [l]) s' a p' (entry_status s' a)" if "located ls s a p (entry_status s a)" for p
        using held [of a] work_apply a by (intro exI [of _ Finished]) (auto simp: located_def entry_status_def)
    qed (use work_apply a inv refs in \<open>auto dest!: set_update_subset_insert [THEN subsetD]\<close>)
  next
    case (work_panic a)
    show ?thesis
    proof (rule esc_inv_step [OF assms(2), where b = a])
      show "located (ls @ [l]) s' b p st" if "b \<noteq> a" "located ls s b p st" for b p st
        using that work_panic by (intro located_cong [OF that(2)]) auto
      show "\<exists>p'. located (ls @ [l]) s' a p' (entry_status s' a)" if "located ls s a p (entry_status s a)" for p
        using held [of a] valid [of a] work_panic by (intro exI [of _ Crashed]) (auto simp: located_def entry_status_def)
    qed (use work_panic inv refs in auto)
  qed
qed

lemma esc_step_inv:
  assumes "esc_step sm n s l s'" "esc_inv ls s"
  shows "esc_inv (ls @ [l]) s'"
  using assms sorter_step_inv worker_step_inv by (cases rule: esc_step.cases) blast+

text \<open>C40: Escalation happens at most once and loses an entry only where the channel or a worker fails. However any number of sorters
  and the workers of a second engine interleave on entries that start pending, no entry is escalated or processed more than once,
  and only escalated ones are processed. An escalated entry has been processed, or its send failed because no worker is
  left, or the worker that claimed it panicked in the book, or it is on its way: one sorter is about to send it, or it is once
  in the channel, or one worker has it.\<close>

theorem escalation_at_most_once:
  assumes "trace (esc_step sm n) (esc_start sm rehash configs heap) ls s" "\<forall>e \<in> set heap. status_ok e \<and> load_status e = Pending"
  shows "count_list ls (Processes a) \<le> 1 \<and> count_list ls (Escalates a) \<le> 1 \<and>
    (Processes a \<in> set ls \<longrightarrow> Escalates a \<in> set ls) \<and>
    (Escalates a \<in> set ls \<longrightarrow> Processes a \<in> set ls \<or> SendFails a \<in> set ls \<or> Panics a \<in> set ls \<or>
       (\<exists>!i. sorter_has (es_sorters s i) a) \<or> count_list (es_channel s) a = 1 \<or> (\<exists>!w. worker_has (es_workers s w) a))"
proof -
  have "esc_inv ls s"
    using trace_invariant [OF assms(1), of esc_inv] esc_start_inv [OF assms(2)] esc_step_inv by blast
  then obtain p where "located ls s a p (entry_status s a)"
    unfolding esc_inv_def by blast
  moreover have "x \<in> set ls \<longleftrightarrow> count_list ls x \<noteq> 0" for x
    by (simp add: count_list_0_iff)
  ultimately show ?thesis
    by (cases p) (auto simp: located_def)
qed

subsection \<open>One scan\<close>

text \<open>The entries a scan escalates, and what it makes of them.\<close>

definition timed_out :: "u64 \<Rightarrow> u64 \<Rightarrow> log_entry \<Rightarrow> bool" where
  "timed_out now_ns timeout e \<longleftrightarrow> load_status e = Pending \<and> timeout < age_ns e now_ns"

definition escalated :: "u64 \<Rightarrow> u64 \<Rightarrow> log_entry \<Rightarrow> log_entry" where
  "escalated now_ns timeout e = (if timed_out now_ns timeout e then e\<lparr>le_status := status_to_u8 Unaddressed\<rparr> else e)"

lemma scan_entry_effect:
  assumes "status_ok (heap ! a)" "scan_entry sk (\<lambda>c a. c @ [a]) now_ns timeout a (heap, s) = (heap', s')" "a < length heap"
  shows "heap' = heap[a := escalated now_ns timeout (heap ! a)]"
    "so_second_engine_tx s' = so_second_engine_tx s @ (if timed_out now_ns timeout (heap ! a) then [a] else [])"
  using assms by (cases "load_status (heap ! a)";
      auto simp: scan_entry_def escalated_def timed_out_def try_claim_def status_ok_def Let_def split: if_splits)+

lemma scan_fold_effect:
  "distinct refs \<Longrightarrow> set refs \<subseteq> {..<length heap} \<Longrightarrow> \<forall>e \<in> set heap. status_ok e \<Longrightarrow>
   fold (scan_entry sk (\<lambda>c a. c @ [a]) now_ns timeout) refs (heap, s) = (heap', s') \<Longrightarrow>
   (\<forall>a < length heap. heap' ! a = (if a \<in> set refs then escalated now_ns timeout (heap ! a) else heap ! a)) \<and>
   so_second_engine_tx s' = so_second_engine_tx s @ filter (\<lambda>a. timed_out now_ns timeout (heap ! a)) refs"
proof (induction refs arbitrary: heap s)
  case (Cons a refs)
  obtain heap1 s1 where s1: "scan_entry sk (\<lambda>c a. c @ [a]) now_ns timeout a (heap, s) = (heap1, s1)"
    by fastforce
  have a: "a < length heap" "status_ok (heap ! a)"
    using Cons.prems by auto
  note e = scan_entry_effect [OF a(2) s1 a(1)]
  have ok: "\<forall>x \<in> set heap1. status_ok x"
    using Cons.prems(3) a e(1) by (auto simp: escalated_def dest!: set_update_subset_insert [THEN subsetD])
  have run: "fold (scan_entry sk (\<lambda>c a. c @ [a]) now_ns timeout) refs (heap1, s1) = (heap', s')"
    using Cons.prems(4) s1 by simp
  have sub: "set refs \<subseteq> {..<length heap1}" "distinct refs" "a \<notin> set refs"
    using Cons.prems e(1) by auto
  note IH = Cons.IH [OF sub(2,1) ok run]
  have same: "heap1 ! b = heap ! b" if "b \<noteq> a" for b
    using e(1) that by simp
  have "filter (\<lambda>b. timed_out now_ns timeout (heap1 ! b)) refs = filter (\<lambda>b. timed_out now_ns timeout (heap ! b)) refs"
    using sub(3) same by (intro filter_cong) (metis | simp)+
  moreover have "heap' ! b = (if b \<in> set (a # refs) then escalated now_ns timeout (heap ! b) else heap ! b)" if "b < length heap" for b
    using IH that e(1) same [of b] sub(3) a by (cases "b = a") auto
  ultimately show ?case
    using IH e(2) by simp
qed auto

text \<open>What a scan removes from the ring: the entries some engine has handled.\<close>

lemma scan_entry_ring:
  assumes "skip_map sk contents" "scan_entry sk send now_ns timeout a (heap, s) = (heap', s')"
  shows "contents (pg_map (so_pending_ring s')) =
    (if is_terminal (load_status (heap ! a)) then (contents (pg_map (so_pending_ring s)))(le_seq (heap ! a) := None)
     else contents (pg_map (so_pending_ring s)))"
proof -
  let ?r = "so_pending_ring s"
  have "contents (pg_map (snd (ring_remove sk ?r k))) = (contents (pg_map ?r))(k := None)" for k
    using skip_map.remove_contents(2) [OF assms(1), of ?r k "fst (ring_remove sk ?r k)"] by simp
  then show ?thesis
    using assms(2) by (cases "load_status (heap ! a)") (auto simp: scan_entry_def Let_def split: if_splits prod.splits bool.splits)
qed

lemma scan_fold_ring:
  assumes "skip_map sk contents"
  shows "distinct refs \<Longrightarrow> set refs \<subseteq> {..<length heap} \<Longrightarrow> \<forall>e \<in> set heap. status_ok e \<Longrightarrow>
   fold (scan_entry sk (\<lambda>c a. c @ [a]) now_ns timeout) refs (heap, s) = (heap', s') \<Longrightarrow>
   contents (pg_map (so_pending_ring s')) =
     contents (pg_map (so_pending_ring s)) |` (- (\<lambda>a. le_seq (heap ! a)) ` {a \<in> set refs. is_terminal (load_status (heap ! a))})"
proof (induction refs arbitrary: heap s)
  case (Cons a refs)
  obtain heap1 s1 where s1: "scan_entry sk (\<lambda>c a. c @ [a]) now_ns timeout a (heap, s) = (heap1, s1)"
    by fastforce
  have a: "a < length heap" "status_ok (heap ! a)"
    using Cons.prems by auto
  note e = scan_entry_effect [OF a(2) s1 a(1)]
  have ok: "\<forall>x \<in> set heap1. status_ok x"
    using Cons.prems(3) a e(1) by (auto simp: escalated_def dest!: set_update_subset_insert [THEN subsetD])
  have run: "fold (scan_entry sk (\<lambda>c a. c @ [a]) now_ns timeout) refs (heap1, s1) = (heap', s')"
    using Cons.prems(4) s1 by simp
  have sub: "set refs \<subseteq> {..<length heap1}" "distinct refs" "a \<notin> set refs"
    using Cons.prems e(1) by auto
  have "heap1 ! b = heap ! b" if "b \<in> set refs" for b
    using e(1) that sub(3) by (cases "b = a") auto
  then have img: "(\<lambda>b. le_seq (heap1 ! b)) ` {b \<in> set refs. is_terminal (load_status (heap1 ! b))} =
      (\<lambda>b. le_seq (heap ! b)) ` {b \<in> set refs. is_terminal (load_status (heap ! b))}"
    by (intro image_cong) auto
  show ?case
    unfolding Cons.IH [OF sub(2,1) ok run] img scan_entry_ring [OF assms s1] by (auto simp: restrict_map_def fun_eq_iff)
qed (simp add: restrict_map_def)

context skip_map
begin

lemma snapshot_sorted:
  assumes "\<forall>k a. contents (pg_map r) k = Some a \<longrightarrow> le_seq (heap ! a) = k"
  shows "sorted_wrt (<) (map (\<lambda>a. le_seq (heap ! a)) (ring_snapshot sk r))"
proof -
  have "map (\<lambda>a. le_seq (heap ! a)) (ring_snapshot sk r) = map fst (sk_iter sk (pg_map r))"
    using assms iter_mem [of _ _ "pg_map r"] by (auto simp: ring_snapshot_def)
  then show ?thesis
    using iter(2) by simp
qed

end

text \<open>C18: A scan does what it is for. Over a ring that holds entries under their sequence numbers, with a channel that takes every
  send, one scan escalates exactly the entries of the ring that are pending for longer than the adaptive timeout and changes no
  other entry; it sends each of them once, in the order of their sequence numbers; and it removes exactly the entries that some
  engine has handled from the ring. The map under the ring is any with the documented behaviour of a \<open>SkipMap\<close>.\<close>

theorem scan_escalates_timed_out:
  assumes "skip_map sk contents" "\<forall>k a. contents (pg_map (so_pending_ring s)) k = Some a \<longrightarrow> a < length heap \<and> le_seq (heap ! a) = k"
    "\<forall>e \<in> set heap. status_ok e" "scan_once sk (\<lambda>c a. c @ [a]) now_ns heap s = (heap', s')"
    "timeout = adaptive_timeout (so_load_monitor s)" "ring = ran (contents (pg_map (so_pending_ring s)))"
  shows "(\<forall>a < length heap. heap' ! a = (if a \<in> ring then escalated now_ns timeout (heap ! a) else heap ! a)) \<and>
    (\<exists>refs. so_second_engine_tx s' = so_second_engine_tx s @ refs \<and> set refs = {a \<in> ring. timed_out now_ns timeout (heap ! a)} \<and>
       sorted_wrt (<) (map (\<lambda>a. le_seq (heap ! a)) refs)) \<and>
    ran (contents (pg_map (so_pending_ring s'))) = {a \<in> ring. \<not> is_terminal (load_status (heap ! a))}"
proof -
  let ?refs = "ring_snapshot sk (so_pending_ring s)" and ?m = "contents (pg_map (so_pending_ring s))"
  let ?s = "s\<lparr>so_metrics := (so_metrics s)\<lparr>sx_scan_cycles := sx_scan_cycles (so_metrics s) + 1\<rparr>\<rparr>"
  have ring: "set ?refs = ring"
    using skip_map.snapshot_complete [OF assms(1)] by (simp add: assms(6))
  have sorted: "sorted_wrt (<) (map (\<lambda>a. le_seq (heap ! a)) ?refs)"
    using skip_map.snapshot_sorted [OF assms(1)] assms(2) by blast
  then have distinct: "distinct ?refs"
    by (metis distinct_map strict_sorted_iff)
  have sub: "set ?refs \<subseteq> {..<length heap}"
    using assms(2) by (auto simp: ring assms(6) ran_def)
  have run: "fold (scan_entry sk (\<lambda>c a. c @ [a]) now_ns timeout) ?refs (heap, ?s) = (heap', s')"
    using assms(4,5) by (simp add: scan_once_def Let_def)
  note e = scan_fold_effect [OF distinct sub assms(3) run]
  have "ran (contents (pg_map (so_pending_ring s'))) = {a \<in> ring. \<not> is_terminal (load_status (heap ! a))}"
    unfolding scan_fold_ring [OF assms(1) distinct sub assms(3) run] ring unfolding assms(6)
    using assms(2) by (auto simp: ran_def restrict_map_def image_iff split: if_splits)
  moreover have "sorted_wrt (<) (map (\<lambda>a. le_seq (heap ! a)) (filter (\<lambda>a. timed_out now_ns timeout (heap ! a)) ?refs))"
    using sorted by (auto simp: sorted_wrt_map intro: sorted_wrt_filter)
  ultimately show ?thesis
    using e by (auto simp: ring)
qed

subsection \<open>Example\<close>

definition ex_entry :: log_entry where
  "ex_entry = log_entry_new (\<lambda>_. 5) 1 1 0 (NewOrder 7 1 1 Buy 105 3 Limit Gtc)"

text \<open>A sorter escalates the one entry, and a worker processes it.\<close>

definition ex_escalation :: "esc_label list" where
  "ex_escalation = [Internal, Internal, Escalates 0, Internal, Internal, Internal, Internal, Processes 0]"

abbreviation ex_start :: "(slot_key, slot_key resting_order vslots) esc_sys" where
  "ex_start \<equiv> esc_start vs_ops (\<lambda>bs. bs) [ex_cfg] [ex_entry]"

lemma ex_escalation_run: "\<exists>s. trace (esc_step vs_ops 1) ex_start ex_escalation s"
proof -
  let ?step = "esc_step vs_ops 1"
  let ?e2 = "ex_entry\<lparr>le_status := status_to_u8 Unaddressed\<rparr>"
  let ?e3 = "?e2\<lparr>le_status := status_to_u8 FinallyHandled\<rparr>"
  let ?b = "build_books vs_ops (\<lambda>bs. bs) [ex_cfg]"
  let ?s = "\<lambda>e ch so wo. \<lparr>es_heap = [e], es_channel = ch, es_sorters = (\<lambda>_. SIdle)(0 := so), es_workers = (\<lambda>_. WIdle)(0 := wo), es_books = \<lambda>_. ?b\<rparr>"
  have age: "(200000 :: u64) < age_ns ex_entry 300000"
    by code_simp
  have c: "claim Pending Unaddressed 0 [ex_entry] = (True, [?e2])" "claim Unaddressed FinallyHandled 0 [?e2] = (True, [?e3])"
    by code_simp+
  have "map_option fst (apply_escalated vs_ops ?e3 ?b) = Some (0, 0, True)"
    by code_simp
  then obtain bs where bs: "apply_escalated vs_ops ?e3 ?b = Some ((0, 0, True), bs)"
    by auto
  have "?step ex_start Internal (?s ex_entry [] (SScan 300000 200000 [0]) WIdle)"
    using sort_snapshot [of ex_start 0 "[0]" 1 300000 200000] by (intro sorter) (simp add: esc_start_def fun_upd_idem)
  moreover have "?step (?s ex_entry [] (SScan 300000 200000 [0]) WIdle) Internal (?s ex_entry [] (SLoaded 300000 200000 0 Pending []) WIdle)"
    using sort_load [of "?s ex_entry [] (SScan 300000 200000 [0]) WIdle" 0 300000 200000 0 "[]" 1] by (intro sorter) (simp add: ex_entry_def)
  moreover have "?step (?s ex_entry [] (SLoaded 300000 200000 0 Pending []) WIdle) (Escalates 0) (?s ?e2 [] (SClaimed 300000 200000 0 []) WIdle)"
    using sort_claim [of "?s ex_entry [] (SLoaded 300000 200000 0 Pending []) WIdle" 0 300000 200000 0 "[]" "[?e2]" 1] age c(1) by (intro sorter) simp
  moreover have "?step (?s ?e2 [] (SClaimed 300000 200000 0 []) WIdle) Internal (?s ?e2 [0] (SScan 300000 200000 []) WIdle)"
    using sort_send [of "?s ?e2 [] (SClaimed 300000 200000 0 []) WIdle" 0 300000 200000 0 "[]" 1] by (intro sorter) simp
  moreover have "?step (?s ?e2 [0] (SScan 300000 200000 []) WIdle) Internal (?s ?e2 [] (SScan 300000 200000 []) (WGot 0))"
    using work_recv [of "?s ?e2 [0] (SScan 300000 200000 []) WIdle" 0 0 "[]" vs_ops] by (intro worker [of 0]) simp_all
  moreover have "?step (?s ?e2 [] (SScan 300000 200000 []) (WGot 0)) Internal (?s ?e2 [] (SScan 300000 200000 []) (WChecked 0))"
    using work_check [of "?s ?e2 [] (SScan 300000 200000 []) (WGot 0)" 0 0 vs_ops] by (intro worker [of 0]) simp_all
  moreover have "?step (?s ?e2 [] (SScan 300000 200000 []) (WChecked 0)) Internal (?s ?e3 [] (SScan 300000 200000 []) (WClaimed 0))"
    using work_claim [of "?s ?e2 [] (SScan 300000 200000 []) (WChecked 0)" 0 0 "[?e3]" vs_ops] c(2) by (intro worker [of 0]) simp_all
  moreover have "?step (?s ?e3 [] (SScan 300000 200000 []) (WClaimed 0)) (Processes 0)
      ((?s (record_fill 2 9 0 0 ?e3) [] (SScan 300000 200000 []) WIdle)\<lparr>es_books := (\<lambda>_. ?b)(0 := bs)\<rparr>)"
    using work_apply [of "?s ?e3 [] (SScan 300000 200000 []) (WClaimed 0)" 0 0 vs_ops 0 0 True bs 9] bs by (intro worker [of 0]) simp_all
  ultimately show ?thesis
    unfolding ex_escalation_def by (intro exI trace_Cons trace_step)
qed

definition ex_ring_entry :: "u64 \<Rightarrow> u64 \<Rightarrow> log_entry" where
  "ex_ring_entry seq ts = log_entry_new (\<lambda>_. 5) seq 1 ts (Cancel 7 seq)"

text \<open>Two entries that waited too long and one that has not, pushed out of order.\<close>

definition ex_scan_heap :: heap where
  "ex_scan_heap = [ex_ring_entry 5 0, ex_ring_entry 3 100, ex_ring_entry 4 290000]"

definition ex_sorter :: "((u64, entry_ref) rbt, entry_ref list) sorter" where
  "ex_sorter = sorter_new (fold (\<lambda>a r. ring_push tree_ops ex_scan_heap r a) [0, 1, 2] (ring_new tree_ops)) [] (load_monitor_new 1)"

lemma ex_sorter_ring: "RBT.lookup (pg_map (so_pending_ring ex_sorter)) = [5 \<mapsto> 0, 3 \<mapsto> 1, 4 \<mapsto> 2]" "so_second_engine_tx ex_sorter = []"
  "adaptive_timeout (so_load_monitor ex_sorter) = 200000"
  by (simp_all add: ex_sorter_def sorter_new_def ring_push_def ring_new_def tree_ops_def ex_scan_heap_def ex_ring_entry_def log_entry_new_def
      adaptive_timeout_def load_monitor_new_def primary_load_pct_def)

theorem scan_escalates_timed_out_witness:
  "\<exists>heap' s'. scan_once tree_ops (\<lambda>c a. c @ [a]) 300000 ex_scan_heap ex_sorter = (heap', s') \<and>
     set (so_second_engine_tx s') = {0, 1} \<and> sorted_wrt (<) (map (\<lambda>a. le_seq (ex_scan_heap ! a)) (so_second_engine_tx s')) \<and>
     load_status (heap' ! 0) = Unaddressed \<and> heap' ! 2 = ex_scan_heap ! 2 \<and> ran (RBT.lookup (pg_map (so_pending_ring s'))) = {0, 1, 2}"
proof -
  obtain heap' s' where r: "scan_once tree_ops (\<lambda>c a. c @ [a]) 300000 ex_scan_heap ex_sorter = (heap', s')"
    by fastforce
  have keys: "\<forall>k a. RBT.lookup (pg_map (so_pending_ring ex_sorter)) k = Some a \<longrightarrow> a < length ex_scan_heap \<and> le_seq (ex_scan_heap ! a) = k"
    by (auto simp: ex_sorter_ring ex_scan_heap_def ex_ring_entry_def log_entry_new_def split: if_splits)
  have ok: "\<forall>e \<in> set ex_scan_heap. status_ok e"
    by (simp add: ex_scan_heap_def ex_ring_entry_def)
  have ring: "ran (RBT.lookup (pg_map (so_pending_ring ex_sorter))) = {0, 1, 2}"
    by (simp add: ex_sorter_ring ran_map_upd insert_commute)
  have t: "timed_out 300000 200000 (ex_scan_heap ! 0)" "timed_out 300000 200000 (ex_scan_heap ! 1)" "\<not> timed_out 300000 200000 (ex_scan_heap ! 2)"
    by code_simp+
  have st: "load_status (ex_scan_heap ! a) = Pending" if "a \<in> {0, 1, 2}" for a
    using that by (auto simp: ex_scan_heap_def ex_ring_entry_def)
  have sets: "{a \<in> {0, 1, 2}. timed_out 300000 200000 (ex_scan_heap ! a)} = {0, 1}"
    "{a \<in> {0, 1, 2}. \<not> is_terminal (load_status (ex_scan_heap ! a))} = {0, 1, 2}"
    using t st by auto
  have len: "0 < length ex_scan_heap" "2 < length ex_scan_heap"
    by (simp_all add: ex_scan_heap_def)
  note scan = scan_escalates_timed_out [OF tree.skip_map_axioms keys ok r ex_sorter_ring(3) [symmetric] ring [symmetric],
      unfolded ex_sorter_ring(2) sets append_Nil]
  have "heap' ! 0 = escalated 300000 200000 (ex_scan_heap ! 0)" "heap' ! 2 = escalated 300000 200000 (ex_scan_heap ! 2)"
    using scan [THEN conjunct1] len by simp_all
  then have "load_status (heap' ! 0) = Unaddressed" "heap' ! 2 = ex_scan_heap ! 2"
    using t by (simp_all add: escalated_def)
  then show ?thesis
    using r scan [THEN conjunct2] by blast
qed

theorem escalation_at_most_once_witness:
  "\<exists>s. trace (esc_step vs_ops 1) ex_start ex_escalation s \<and>
     count_list ex_escalation (Processes 0) \<le> 1 \<and> Escalates 0 \<in> set ex_escalation"
proof -
  obtain s where s: "trace (esc_step vs_ops 1) ex_start ex_escalation s"
    using ex_escalation_run by blast
  have "\<forall>e \<in> set [ex_entry]. status_ok e \<and> load_status e = Pending"
    by (simp add: ex_entry_def)
  from escalation_at_most_once [OF s this, of 0] s show ?thesis
    by (auto simp: ex_escalation_def)
qed

subsection \<open>Where the sorter and its documentation differ\<close>

text \<open>A sorter whose second engine is gone still claims the entry and ignores the failed send: the entry stays \<open>Unaddressed\<close>, which
  no later scan sends again.\<close>

lemma failed_send_strands_entry:
  assumes "es_sorters s i = SClaimed now timeout a refs" "\<forall>w < n. es_workers s w = WDead" "load_status (es_heap s ! a) = Unaddressed"
  shows "sorter_step n i s (SendFails a) (s\<lparr>es_sorters := (es_sorters s)(i := SScan now timeout refs)\<rparr>)"
    "timeout' < age_ns (es_heap s ! a) now' \<Longrightarrow>
     scan_entry sk send now' timeout' a (es_heap s, so) = (es_heap s, so') \<Longrightarrow> so_second_engine_tx so' = so_second_engine_tx so"
  using assms by (auto intro: sort_send_fails simp: scan_entry_def Let_def split: if_splits)

text \<open>In the program only the sorter takes an entry out of \<open>Pending\<close>: the claim for the primary engine is never made. Every entry
  that stays in the ring past its timeout is escalated, however soon the primary engine matched it.\<close>

text \<open>The alert for a pending entry past the critical age is dead code: such an entry is past the adaptive timeout, and escalated.\<close>

lemma pending_alert_unreachable: "\<not> adaptive_timeout lm < age \<Longrightarrow> \<not> critical_timeout_ns < age"
proof -
  have "adaptive_timeout lm \<le> 2000000"
    by (simp add: adaptive_timeout_def Let_def)
  moreover have "(2000000 :: u64) \<le> critical_timeout_ns"
    by (simp add: critical_timeout_ns_def)
  moreover assume "\<not> adaptive_timeout lm < age"
  ultimately show ?thesis
    by (meson le_less_trans not_le order_trans)
qed

end
