(* ===== verification/Spec2Isabelle.thy ===== *)
theory Spec2Isabelle
  imports Book_Market Broadcast_Ring Risk_Props Metrics_Props Snapshot_Props Engine_Props Sequencer_Props Failover_Props Escalation_Props
begin

text \<open>
  A verification library for the Match-Risk-Engine, an exchange core in Rust (\<open>src/crates\<close>).

  \<^bold>\<open>The program.\<close> Clients connect to the \<^emph>\<open>gateway\<close>, which authenticates them, decodes their frames into commands and puts
  these on a lane, a ring buffer. The \<^emph>\<open>sequencer\<close> polls the lanes, gives every command a number, a time stamp and the term
  of the current leader, offers it to the log and routes it to the \<^emph>\<open>matching engine\<close> of its symbol. The engine checks a new
  order against the risk state of its account, applies the command to its \<^emph>\<open>order book\<close>, logs the resulting events and
  publishes them to the gateways and to the \<^emph>\<open>risk shards\<close>. A risk shard keeps positions and margins from the fills, publishes
  them in a \<^emph>\<open>seqlock\<close> per account, which the engines read, and sends a Liquidate command back when an account breaches its
  margin. The \<^emph>\<open>write-ahead log\<close> and the \<^emph>\<open>snapshots\<close> restore the state after a crash; \<^emph>\<open>failover\<close> elects one leader among
  the sequencers. Beside this path the \<^emph>\<open>dual log\<close> keeps commands as shared entries; the \<^emph>\<open>sorter\<close> escalates entries that
  stay pending too long to the \<^emph>\<open>second engine\<close>.

  \<^bold>\<open>Conventions\<close> (theory \<open>Prelude\<close>). A Rust integer of width \<open>w\<close> is a \<open>w word\<close>, read with \<open>unat\<close> or \<open>sint\<close>; arithmetic is that of the
  release profile and wraps where the source wraps. A struct is a record, an enum a datatype, \<open>Result\<close> a sum with the error
  on the left. \<open>None\<close> as the result of an operation means that it panics or never returns, so a statement \<open>f x = Some y\<close> says
  that the code returns. The release profile of \<open>Cargo.toml\<close> aborts the process on a panic; the theories on failover and escalation,
  where only some threads panic, cover an unwinding build too and say so. Loops are structural recursion over what bounds
  them, or functions with a termination measure (the scans of a log and of a ladder); the loops that may not end (matching, the
  walk along a level, the read of a seqlock, the spin on a full ring, the frames of a buffer) are partial functions in the option
  monad, and the properties prove that they return. No operation of the model takes fuel; only \<open>walk\<close>, which reads the keys
  of a level off its links for the specification, does: the number of live orders, which no level exceeds. Threads are step relations
  whose steps are single accesses to shared memory or single system calls (theory \<open>Traces\<close>); a statement about every trace is
  one about every interleaving. Memory is sequentially consistent.

  \<^bold>\<open>The order book\<close> (\<open>order-book\<close>). \<open>Core_Types\<close> holds the identifiers, commands and events of \<open>core-types\<close>. \<open>Slot_Map\<close> is the contract
  of the arena, a crate outside the repository: a parameter \<open>sm\<close> of all book operations, with the documented behaviour as the
  locale \<open>slot_map\<close>, interpreted on versioned slots. \<open>Price_Level\<close> translates \<open>level.rs\<close> (the intrusive list of a price level), \<open>Order_Book\<close> \<open>book.rs\<close>
  (ladders, best pointers, queries), \<open>Book_Apply\<close> \<open>apply.rs\<close> (validation, matching, cancelling). \<open>Book_Invariant\<close> is the representation
  invariant \<open>book_ok\<close> and what each primitive does to it. \<open>Book_Spec\<close> is the abstract book: two queues in price-time
  priority. \<open>Book_Refine\<close> and \<open>Book_Correct\<close> prove that every command of the code implements it, \<open>Book_Rules\<close> the market rules of the
  specification, \<open>Book_Props\<close> and \<open>Book_Market\<close> the properties C1 to C12 of the code: refinement and totality, fair trades, conservation
  of quantity, priority, all-or-nothing, exact best prices, totals, cancels and queries. The fair-trade, fill-or-kill
  and market-order properties state what the code does; the README says otherwise in places.

  \<^bold>\<open>Rings and shared state\<close> (\<open>ring-buffer\<close>, \<open>seqlock\<close>). \<open>Ring_Buffer\<close> has the single-producer ring \<open>spsc.rs\<close>, as functions (a bounded list queue,
  locale \<open>bounded_fifo\<close>) and as interleaved accesses (C13, C14, for any number of wraps of the 64-bit cursors). \<open>Broadcast_Ring\<close> has \<open>spmc.rs\<close>
  (C15), for fewer than \<open>2 ^ 64\<close> publications, because \<open>min_tail\<close> compares cursors without wrapping. \<open>Seqlock\<close> has the risk state
  and its table: a read is atomic under one writer and any readers, and a reader left alone returns within 15 steps (C16,
  C17). \<open>two_writers_tear\<close> and \<open>set_frozen_loses_update\<close> show what happens with the second writer the engine adds. \<open>Channel\<close> is a
  ring seen from one end, the other end following any plan; its locales \<open>message_queue\<close> and \<open>live_queue\<close> are the contract the
  components below rely on.

  \<^bold>\<open>Risk\<close> (\<open>risk-engine\<close>). \<open>Risk_Engine\<close> has \<open>config.rs\<close>, \<open>position.rs\<close>, \<open>tier0.rs\<close> and \<open>shard.rs\<close>; \<open>run_risk_shard\<close> is the loop of the shard over
  the results of its polls. \<open>Risk_Props\<close> proves C19 to C23: entry prices, totality of the shard loop over an outbound ring with a
  live consumer, zero-sum fills, freezing exactly on a breach of the exact margin, soundness of the tier-0 check.
  Quantities are below \<open>2 ^ 63\<close> there, as the code casts them to \<open>i64\<close>; \<open>tier0_accepts_huge_qty\<close> shows why. The iteration order of
  the hash map is the parameter \<open>rehash\<close>; the outbound ring is the locale \<open>command_sink\<close>.

  \<^bold>\<open>Metrics\<close> (\<open>matching-engine/src/metrics.rs\<close>, \<open>metrics\<close>). \<open>Metrics\<close> and \<open>Metrics_Props\<close> (C24 to C26): merging of histograms, the error of a
  percentile, independence of the totals from the map order. The percentile rank is computed in floating point and is a
  parameter.

  \<^bold>\<open>Durability\<close> (\<open>wal\<close>). \<open>Bytes\<close> has the little-endian encodings; \<open>Wal\<close> the file log \<open>log.rs\<close>, the persistent-memory log \<open>pmem.rs\<close> and the
  scan of \<open>recovery.rs\<close>; \<open>Snapshot\<close> has \<open>snapshot.rs\<close> as the sequence of its file system calls, each of which may fail, and
  \<open>recover\<close>. \<open>Wal_Props\<close> and \<open>Snapshot_Props\<close> (C27 to C30): acknowledged commands survive, reopening restores the writer, a snapshot
  write is atomic, recovery is the newest snapshot and the commands after it. CRC32, bincode and the outcome of system
  calls are parameters.

  \<^bold>\<open>The matching engine\<close> (\<open>matching-engine\<close>). \<open>Matching_Engine\<close> has \<open>risk_check.rs\<close>, \<open>mapper.rs\<close> and \<open>engine.rs\<close> over the operations of its rings and its
  log; \<open>Engine_Props\<close> states their contract (locale \<open>engine_channels\<close>), interprets it on the channels and the file log, and proves C31
  to C34: logging before publishing, liquidation, the guard of the risk check and its soundness. Between two commands
  the risk shards may make any finished updates of the risk states; within one command the states are taken at one
  moment.

  \<^bold>\<open>Gateway and sequencer\<close> (\<open>gateway\<close>, \<open>sequencer\<close>). \<open>Gateway\<close> has \<open>codec.rs\<close>, \<open>session.rs\<close>, \<open>market_data.rs\<close> and of \<open>server.rs\<close> a connection: reads, dispatch,
  the report task, the market data forwarders and the wait for the writer. \<open>Gateway_Props\<close>
  (locale \<open>command_lane\<close>) proves C36 to C38: the framing round trip over any split into reads, the order layout, and that a
  connection acts for its account only. \<open>Sequencer\<close> has \<open>sequencer.rs\<close>, \<open>halt.rs\<close> and \<open>snapshot_marker.rs\<close>; \<open>Sequencer_Props\<close> (locale \<open>sequencer_rings\<close>) proves C35, one total
  order of commands at all engines. What a turn reads from other threads (halt flag, role, term, clock) is its argument.

  \<^bold>\<open>Failover\<close> (\<open>failover.rs\<close>, \<open>standby.rs\<close>). \<open>Failover\<close> and \<open>Failover_Props\<close>: any number of processes contend for the lease file, with crashes
  and failing system calls; C39 is that terms fence leaders. The file lock is the operating system's; the eight bytes of a
  term are written all or none.

  \<^bold>\<open>Escalation\<close> (\<open>log_entry.rs\<close>, \<open>dual-log\<close>, \<open>sorter\<close>, \<open>second-engine\<close>). \<open>Dual_Log\<close> has the shared entries on a heap and the pending ring over a skip
  list (a crate outside the repository: locale \<open>skip_map\<close>, interpreted on red-black trees); \<open>Escalation\<close> the scan of the sorter and the
  workers. \<open>Escalation_Props\<close>: a scan escalates exactly the entries past the adaptive timeout (C18), and under every interleaving an
  entry is escalated and processed at most once, panics of workers and failed sends included (C40).

  \<^bold>\<open>Behaviour that differs from the documentation or the evident intent.\<close> Lemmas beside the properties show it on concrete runs, among them
  \<open>term_never_advances\<close>, \<open>cancel_not_reported\<close>, \<open>huge_buy_passes_position_limit\<close>, \<open>stepdown_keeps_leader\<close>, \<open>standby_restarts_numbering\<close>, \<open>unknown_symbol_panics\<close>,
  \<open>failed_send_strands_entry\<close>, \<open>connection_waits_for_writer\<close> and \<open>pmem_log_not_compatible\<close>.

  \<^bold>\<open>Not modelled.\<close> The crate \<open>dpdk-gateway\<close> (foreign calls and device memory), \<open>tls.rs\<close>, the listener and the scheduling of the tasks of
  a connection against each other (I/O of the async runtime), \<open>logger\<close> and all log messages, the test harness \<open>sim\<close>, benches and examples, the text
  rendering of metrics, clocks (readings are arguments), CPU pinning, cache padding and cache flushes (no effect on values), and the
  sleeping and joining of threads. Effects of a memory model weaker than sequential consistency are out of scope.
\<close>

end
